(* ===== verification/Prelude.thy ===== *)
theory Prelude
  imports Main "HOL-Library.Word" "HOL-Library.Multiset" "HOL-Library.Monad_Syntax"
begin

text \<open>
  Shared vocabulary of the development: the machine type \<open>usize\<close>, Rust's
  \<open>Ordering\<close>, the error values the modelled code returns or panics with, and the
  generic list, option and word lemmas that the component theories use.

  Conventions.  A \<open>usize\<close> whose wrap-around can be observed (byte counts of the
  memory pools) is a 64 bit word, with the arithmetic of a release build: \<open>+\<close> and
  \<open>-\<close> wrap.  A \<open>usize\<close> that only indexes a vector is a \<open>nat\<close>.  A panic is the
  value \<open>Inl Panicked\<close>, so that "does not panic" is a statement about the result.
\<close>

section \<open>Machine types\<close>

type_synonym usize = "64 word"

text \<open>\<open>usize::MAX\<close>, as an index sentinel.\<close>

definition USIZE_MAX :: nat where
  "USIZE_MAX = 2 ^ 64 - 1"

text \<open>\<open>std::cmp::Ordering\<close>.\<close>

datatype ordering = Less | Equal | Greater

text \<open>\<open>usize::checked_sub\<close> and \<open>usize::saturating_sub\<close>.\<close>

definition checked_sub :: "usize \<Rightarrow> usize \<Rightarrow> usize option" where
  "checked_sub a b = (if b \<le> a then Some (a - b) else None)"

definition saturating_sub :: "usize \<Rightarrow> usize \<Rightarrow> usize" where
  "saturating_sub a b = (if b \<le> a then a - b else 0)"

definition checked_div :: "usize \<Rightarrow> usize \<Rightarrow> usize option" where
  "checked_div a b = (if b = 0 then None else Some (a div b))"

text \<open>
  \<open>Ordering::reverse\<close>, \<open>Ordering::then_with\<close>, \<open>Ord::cmp\<close> of a linear order, and of slices
  (lexicographic).
\<close>

fun rev_ordering :: "ordering \<Rightarrow> ordering" where
  "rev_ordering Less = Greater"
| "rev_ordering Equal = Equal"
| "rev_ordering Greater = Less"

fun then_with :: "ordering \<Rightarrow> ordering \<Rightarrow> ordering" where
  "then_with Less _ = Less"
| "then_with Equal b = b"
| "then_with Greater _ = Greater"

definition ord_cmp :: "'a::linorder \<Rightarrow> 'a \<Rightarrow> ordering" where
  "ord_cmp a b = (if a < b then Less else if a = b then Equal else Greater)"

fun slice_cmp :: "'a::linorder list \<Rightarrow> 'a list \<Rightarrow> ordering" where
  "slice_cmp [] [] = Equal"
| "slice_cmp [] (_ # _) = Less"
| "slice_cmp (_ # _) [] = Greater"
| "slice_cmp (a # as) (b # bs) = then_with (ord_cmp a b) (slice_cmp as bs)"

text \<open>Vector accesses: an index out of range panics, which is \<open>None\<close>.\<close>

definition vec_get :: "'a list \<Rightarrow> nat \<Rightarrow> 'a option" where
  "vec_get xs i = (if i < length xs then Some (xs ! i) else None)"

definition vec_set :: "'a list \<Rightarrow> nat \<Rightarrow> 'a \<Rightarrow> 'a list option" where
  "vec_set xs i v = (if i < length xs then Some (xs[i := v]) else None)"

section \<open>Collections of rewrite rules\<close>

named_theorems usize_simps \<open>reading the machine operations through unat\<close>

lemma unat_saturating_sub [usize_simps]:
  "unat (saturating_sub a b) = unat a - unat b"
  by (auto simp: saturating_sub_def unat_sub word_le_nat_alt)

lemma checked_sub_Some_iff [usize_simps]:
  "checked_sub a b = Some c \<longleftrightarrow> unat b \<le> unat a \<and> c = a - b"
  by (auto simp: checked_sub_def word_le_nat_alt)

lemma checked_sub_None_iff [usize_simps]:
  "checked_sub a b = None \<longleftrightarrow> unat a < unat b"
  by (auto simp: checked_sub_def word_le_nat_alt)

lemma unat_sub_le [usize_simps]:
  fixes a b :: usize
  shows "unat b \<le> unat a \<Longrightarrow> unat (a - b) = unat a - unat b"
  by (simp add: unat_sub word_le_nat_alt)

lemma unat_add_no_overflow [usize_simps]:
  fixes a b :: usize
  shows "unat a + unat b < 2 ^ 64 \<Longrightarrow> unat (a + b) = unat a + unat b"
  using unat_add_lem [of a b] by simp

lemma of_nat_usize_eq:
  assumes "m < 2 ^ 64" and "n < 2 ^ 64"
  shows "(of_nat m :: usize) = of_nat n \<longleftrightarrow> m = n"
  using assms by (auto simp: word_of_nat_eq_iff take_bit_nat_eq_self)

section \<open>Lists\<close>

lemma sum_list_update:
  fixes xs :: "'a::ab_group_add list"
  assumes "i < length xs"
  shows "sum_list (xs[i := v]) = sum_list xs - xs ! i + v"
  using assms
proof (induction xs arbitrary: i)
  case (Cons x xs)
  then show ?case by (cases i) (auto simp: algebra_simps)
qed simp

lemma sum_list_map_update:
  fixes f :: "'a \<Rightarrow> 'b::ab_group_add"
  assumes "i < length xs"
  shows "sum_list (map f (xs[i := v])) = sum_list (map f xs) - f (xs ! i) + f v"
  using assms by (simp add: map_update sum_list_update)

lemma nth_list_update_same_view:
  assumes "f v = f (xs ! i)"
  shows "f (xs[i := v] ! k) = f (xs ! k)"
  using assms by (cases "i < length xs") (auto simp: nth_list_update list_update_beyond)

section \<open>Comparisons\<close>

lemma rev_ordering_rev [simp]: "rev_ordering (rev_ordering x) = x"
  by (cases x) auto

lemma rev_ordering_eq_iff [simp]:
  "rev_ordering x = Less \<longleftrightarrow> x = Greater"
  "rev_ordering x = Equal \<longleftrightarrow> x = Equal"
  "rev_ordering x = Greater \<longleftrightarrow> x = Less"
  by (cases x; simp)+

lemma eq_rev_ordering_iff [simp]:
  "Less = rev_ordering x \<longleftrightarrow> x = Greater"
  "Equal = rev_ordering x \<longleftrightarrow> x = Equal"
  "Greater = rev_ordering x \<longleftrightarrow> x = Less"
  by (cases x; simp)+

text \<open>
  What the merge relies on from a comparison: it is a total preorder, presented as a function
  to \<open>Ordering\<close>.
\<close>

locale total_cmp =
  fixes kcmp :: "'k \<Rightarrow> 'k \<Rightarrow> ordering"
  assumes kcmp_refl [simp]: "kcmp a a = Equal"
    and kcmp_rev: "kcmp b a = rev_ordering (kcmp a b)"
    and kcmp_trans: "kcmp a b \<noteq> Greater \<Longrightarrow> kcmp b c \<noteq> Greater \<Longrightarrow> kcmp a c \<noteq> Greater"
begin

definition kle :: "'k \<Rightarrow> 'k \<Rightarrow> bool" where
  "kle a b \<longleftrightarrow> kcmp a b \<noteq> Greater"

lemma kle_refl [simp]: "kle a a"
  by (simp add: kle_def)

lemma kle_trans [trans]: "kle a b \<Longrightarrow> kle b c \<Longrightarrow> kle a c"
  using kcmp_trans by (simp add: kle_def)

lemma kle_total: "kle a b \<or> kle b a"
  using kcmp_rev [of a b] by (cases "kcmp a b") (auto simp: kle_def)

lemma kcmp_Greater_iff: "kcmp a b = Greater \<longleftrightarrow> \<not> kle a b"
  by (simp add: kle_def)

lemma kcmp_Less_iff: "kcmp a b = Less \<longleftrightarrow> \<not> kle b a"
  using kcmp_rev [of a b] by (cases "kcmp a b") (auto simp: kle_def)

lemma kcmp_Equal_iff: "kcmp a b = Equal \<longleftrightarrow> kle a b \<and> kle b a"
  using kcmp_rev [of a b] by (cases "kcmp a b") (auto simp: kle_def)

end

lemma ord_cmp_simps [simp]:
  "ord_cmp a b = Less \<longleftrightarrow> a < b"
  "ord_cmp a b = Equal \<longleftrightarrow> a = b"
  "ord_cmp a b = Greater \<longleftrightarrow> b < a"
  by (auto simp: ord_cmp_def)

lemma ord_cmp_rev: "ord_cmp b a = rev_ordering (ord_cmp a b)"
  by (auto simp: ord_cmp_def)

lemma rev_then_with: "rev_ordering (then_with x y) = then_with (rev_ordering x) (rev_ordering y)"
  by (cases x) auto

lemma slice_cmp_refl [simp]: "slice_cmp xs xs = Equal"
  by (induction xs) (auto simp: ord_cmp_def)

lemma slice_cmp_Equal_iff [simp]: "slice_cmp xs ys = Equal \<longleftrightarrow> xs = ys"
proof (induction xs ys rule: slice_cmp.induct)
  case (4 a as b bs)
  then show ?case by (auto simp: ord_cmp_def)
qed auto

lemma slice_cmp_rev: "slice_cmp ys xs = rev_ordering (slice_cmp xs ys)"
  by (induction xs ys rule: slice_cmp.induct) (auto simp: rev_then_with ord_cmp_def)

lemma slice_cmp_trans:
  "slice_cmp xs ys \<noteq> Greater \<Longrightarrow> slice_cmp ys zs \<noteq> Greater \<Longrightarrow> slice_cmp xs zs \<noteq> Greater"
proof (induction xs ys arbitrary: zs rule: slice_cmp.induct)
  case (4 a as b bs)
  obtain c cs where zs: "zs = c # cs" using 4(3) by (cases zs) auto
  show ?case
    using 4 zs by (auto simp: ord_cmp_def split: if_splits)
next
  case (1)
  then show ?case by simp
next
  case (2 b bs)
  then show ?case by (cases zs) auto
next
  case (3 a as)
  then show ?case by simp
qed

interpretation linord: total_cmp "ord_cmp :: 'a::linorder \<Rightarrow> 'a \<Rightarrow> ordering"
  by unfold_locales (auto simp: ord_cmp_def split: if_splits)

interpretation slices: total_cmp "slice_cmp :: 'a::linorder list \<Rightarrow> 'a list \<Rightarrow> ordering"
  by unfold_locales (simp, rule slice_cmp_rev, rule slice_cmp_trans)

section \<open>Vectors\<close>

lemma vec_get_Some [simp]: "i < length xs \<Longrightarrow> vec_get xs i = Some (xs ! i)"
  by (simp add: vec_get_def)

lemma vec_get_eq_Some_iff: "vec_get xs i = Some x \<longleftrightarrow> i < length xs \<and> xs ! i = x"
  by (auto simp: vec_get_def)

lemma vec_set_Some [simp]: "i < length xs \<Longrightarrow> vec_set xs i v = Some (xs[i := v])"
  by (simp add: vec_set_def)

end
