(* ===== verification/Memory_Pool.thy ===== *)
theory Memory_Pool
  imports Prelude "HOL-Library.AList"
begin

text \<open>
  The memory pools of \<open>execution/src/memory_pool\<close>: the consumers, the trait
  \<open>MemoryPool\<close> as a record of its methods, and its four implementations
  (\<open>UnboundedMemoryPool\<close>, \<open>GreedyMemoryPool\<close>, \<open>FairSpillPool\<close>,
  \<open>TrackConsumersPool\<close>).  Byte counts are \<open>usize\<close> words: the atomics wrap.
\<close>

section \<open>Consumers, reservations and errors\<close>

record memory_consumer =
  consumer_name :: string
  can_spill :: bool
  consumer_id :: usize

datatype memory_limit = Infinite | Finite usize | Unknown

text \<open>What a pool method sees of a \<open>MemoryReservation\<close>: its consumer and its size.\<close>

record memory_reservation =
  res_consumer :: memory_consumer
  res_size :: usize

text \<open>
  The data a pool writes into its error messages; the rendering of byte counts as text
  is not modelled.
\<close>

datatype pool_display =
    Unbounded_Display usize
  | Greedy_Display usize usize
  | Fair_Display usize
  | Track_Display pool_display nat

record consumer_report =
  rep_id :: usize
  rep_name :: string
  rep_can_spill :: bool
  rep_peak :: usize
  rep_reserved :: usize

datatype resources_msg =
    Failed_To_Allocate usize string usize usize pool_display
  | Top_Consumers string "consumer_report list" resources_msg

datatype df_error =
    ResourcesExhausted resources_msg
  | Internal string
  | Panicked string

section \<open>The trait\<close>

record 'p memory_pool_impl =
  mp_register :: "'p \<Rightarrow> memory_consumer \<Rightarrow> 'p"
  mp_unregister :: "'p \<Rightarrow> memory_consumer \<Rightarrow> df_error + 'p"
  mp_grow :: "'p \<Rightarrow> memory_reservation \<Rightarrow> usize \<Rightarrow> 'p"
  mp_shrink :: "'p \<Rightarrow> memory_reservation \<Rightarrow> usize \<Rightarrow> 'p"
  mp_try_grow :: "'p \<Rightarrow> memory_reservation \<Rightarrow> usize \<Rightarrow> df_error + 'p"
  mp_reserved :: "'p \<Rightarrow> usize"
  mp_memory_limit :: "'p \<Rightarrow> memory_limit"
  mp_display :: "'p \<Rightarrow> pool_display"

definition insufficient_capacity_err ::
  "memory_reservation \<Rightarrow> usize \<Rightarrow> usize \<Rightarrow> pool_display \<Rightarrow> df_error" where
  "insufficient_capacity_err reservation additional available pool =
     ResourcesExhausted
       (Failed_To_Allocate additional (consumer_name (res_consumer reservation))
          (res_size reservation) available pool)"

section \<open>UnboundedMemoryPool\<close>

record unbounded_pool =
  ub_used :: usize

definition unbounded_grow :: "unbounded_pool \<Rightarrow> memory_reservation \<Rightarrow> usize \<Rightarrow> unbounded_pool" where
  "unbounded_grow p reservation additional = p\<lparr>ub_used := ub_used p + additional\<rparr>"

definition unbounded_shrink :: "unbounded_pool \<Rightarrow> memory_reservation \<Rightarrow> usize \<Rightarrow> unbounded_pool" where
  "unbounded_shrink p reservation n = p\<lparr>ub_used := ub_used p - n\<rparr>"

definition unbounded_try_grow ::
  "unbounded_pool \<Rightarrow> memory_reservation \<Rightarrow> usize \<Rightarrow> df_error + unbounded_pool" where
  "unbounded_try_grow p reservation additional = Inr (unbounded_grow p reservation additional)"

definition unbounded_impl :: "unbounded_pool memory_pool_impl" where
  "unbounded_impl =
     \<lparr>mp_register = (\<lambda>p c. p),
      mp_unregister = (\<lambda>p c. Inr p),
      mp_grow = unbounded_grow,
      mp_shrink = unbounded_shrink,
      mp_try_grow = unbounded_try_grow,
      mp_reserved = ub_used,
      mp_memory_limit = (\<lambda>p. Infinite),
      mp_display = (\<lambda>p. Unbounded_Display (ub_used p))\<rparr>"

section \<open>GreedyMemoryPool\<close>

record greedy_pool =
  gr_pool_size :: usize
  gr_used :: usize

definition greedy_new :: "usize \<Rightarrow> greedy_pool" where
  "greedy_new pool_size = \<lparr>gr_pool_size = pool_size, gr_used = 0\<rparr>"

definition greedy_grow :: "greedy_pool \<Rightarrow> memory_reservation \<Rightarrow> usize \<Rightarrow> greedy_pool" where
  "greedy_grow p reservation additional = p\<lparr>gr_used := gr_used p + additional\<rparr>"

definition greedy_shrink :: "greedy_pool \<Rightarrow> memory_reservation \<Rightarrow> usize \<Rightarrow> greedy_pool" where
  "greedy_shrink p reservation n = p\<lparr>gr_used := gr_used p - n\<rparr>"

definition greedy_display :: "greedy_pool \<Rightarrow> pool_display" where
  "greedy_display p = Greedy_Display (gr_used p) (gr_pool_size p)"

definition greedy_try_grow ::
  "greedy_pool \<Rightarrow> memory_reservation \<Rightarrow> usize \<Rightarrow> df_error + greedy_pool" where
  "greedy_try_grow p reservation additional =
     (let new_used = gr_used p + additional in
      if new_used \<le> gr_pool_size p then Inr (p\<lparr>gr_used := new_used\<rparr>)
      else Inl (insufficient_capacity_err reservation additional
                  (saturating_sub (gr_pool_size p) (gr_used p)) (greedy_display p)))"

definition greedy_impl :: "greedy_pool memory_pool_impl" where
  "greedy_impl =
     \<lparr>mp_register = (\<lambda>p c. p),
      mp_unregister = (\<lambda>p c. Inr p),
      mp_grow = greedy_grow,
      mp_shrink = greedy_shrink,
      mp_try_grow = greedy_try_grow,
      mp_reserved = gr_used,
      mp_memory_limit = (\<lambda>p. Finite (gr_pool_size p)),
      mp_display = greedy_display\<rparr>"

section \<open>FairSpillPool\<close>

record fair_pool =
  fp_pool_size :: usize
  num_spill :: usize
  spillable :: usize
  unspillable :: usize

definition fair_new :: "usize \<Rightarrow> fair_pool" where
  "fair_new pool_size =
     \<lparr>fp_pool_size = pool_size, num_spill = 0, spillable = 0, unspillable = 0\<rparr>"

definition fair_register :: "fair_pool \<Rightarrow> memory_consumer \<Rightarrow> fair_pool" where
  "fair_register p consumer =
     (if can_spill consumer then p\<lparr>num_spill := num_spill p + 1\<rparr> else p)"

definition fair_unregister :: "fair_pool \<Rightarrow> memory_consumer \<Rightarrow> df_error + fair_pool" where
  "fair_unregister p consumer =
     (if can_spill consumer then
        (case checked_sub (num_spill p) 1 of
           None \<Rightarrow> Inl (Panicked ''called Option::unwrap() on a None value'')
         | Some n \<Rightarrow> Inr (p\<lparr>num_spill := n\<rparr>))
      else Inr p)"

definition fair_grow :: "fair_pool \<Rightarrow> memory_reservation \<Rightarrow> usize \<Rightarrow> fair_pool" where
  "fair_grow p reservation additional =
     (if can_spill (res_consumer reservation)
      then p\<lparr>spillable := spillable p + additional\<rparr>
      else p\<lparr>unspillable := unspillable p + additional\<rparr>)"

definition fair_shrink :: "fair_pool \<Rightarrow> memory_reservation \<Rightarrow> usize \<Rightarrow> fair_pool" where
  "fair_shrink p reservation n =
     (if can_spill (res_consumer reservation)
      then p\<lparr>spillable := spillable p - n\<rparr>
      else p\<lparr>unspillable := unspillable p - n\<rparr>)"

definition fair_display :: "fair_pool \<Rightarrow> pool_display" where
  "fair_display p = Fair_Display (fp_pool_size p)"

definition fair_try_grow ::
  "fair_pool \<Rightarrow> memory_reservation \<Rightarrow> usize \<Rightarrow> df_error + fair_pool" where
  "fair_try_grow p reservation additional =
     (if can_spill (res_consumer reservation) then
        (let spill_available = saturating_sub (fp_pool_size p) (unspillable p);
             available = (case checked_div spill_available (num_spill p) of
                            None \<Rightarrow> spill_available | Some a \<Rightarrow> a)
         in if available < res_size reservation + additional
            then Inl (insufficient_capacity_err reservation additional available (fair_display p))
            else Inr (p\<lparr>spillable := spillable p + additional\<rparr>))
      else
        (let available = saturating_sub (fp_pool_size p) (unspillable p + spillable p)
         in if available < additional
            then Inl (insufficient_capacity_err reservation additional available (fair_display p))
            else Inr (p\<lparr>unspillable := unspillable p + additional\<rparr>)))"

definition fair_reserved :: "fair_pool \<Rightarrow> usize" where
  "fair_reserved p = spillable p + unspillable p"

definition fair_impl :: "fair_pool memory_pool_impl" where
  "fair_impl =
     \<lparr>mp_register = fair_register,
      mp_unregister = fair_unregister,
      mp_grow = fair_grow,
      mp_shrink = fair_shrink,
      mp_try_grow = fair_try_grow,
      mp_reserved = fair_reserved,
      mp_memory_limit = (\<lambda>p. Finite (fp_pool_size p)),
      mp_display = fair_display\<rparr>"

section \<open>TrackConsumersPool\<close>

record tracked_consumer =
  tc_name :: string
  tc_can_spill :: bool
  tc_reserved :: usize
  tc_peak :: usize

definition tracked_grow :: "tracked_consumer \<Rightarrow> usize \<Rightarrow> tracked_consumer" where
  "tracked_grow t additional =
     (let reserved = tc_reserved t + additional
      in t\<lparr>tc_reserved := reserved, tc_peak := max (tc_peak t) reserved\<rparr>)"

definition tracked_shrink :: "tracked_consumer \<Rightarrow> usize \<Rightarrow> tracked_consumer" where
  "tracked_shrink t n = t\<lparr>tc_reserved := tc_reserved t - n\<rparr>"

text \<open>
  The map from consumer ids is an association list with distinct keys; its order stands
  for the iteration order of the hash map.
\<close>

record 'p track_pool =
  tp_inner :: 'p
  tp_top :: nat
  tracked_consumers :: "(usize \<times> tracked_consumer) list"

definition track_new :: "'p \<Rightarrow> nat \<Rightarrow> 'p track_pool" where
  "track_new inner n = \<lparr>tp_inner = inner, tp_top = n, tracked_consumers = []\<rparr>"

definition memory_consumer_metrics :: "usize \<times> tracked_consumer \<Rightarrow> consumer_report" where
  "memory_consumer_metrics = (\<lambda>(consumer_id, t).
     \<lparr>rep_id = consumer_id, rep_name = tc_name t, rep_can_spill = tc_can_spill t,
      rep_peak = tc_peak t, rep_reserved = tc_reserved t\<rparr>)"

definition report_top :: "'p track_pool \<Rightarrow> nat \<Rightarrow> consumer_report list" where
  "report_top p n =
     (let consumers = sort_key (\<lambda>c. - uint (rep_reserved c))
                        (map memory_consumer_metrics (tracked_consumers p))
      in take (min n (length consumers)) consumers)"

definition track_register ::
  "'p memory_pool_impl \<Rightarrow> 'p track_pool \<Rightarrow> memory_consumer \<Rightarrow> 'p track_pool" where
  "track_register I p consumer =
     p\<lparr>tp_inner := mp_register I (tp_inner p) consumer,
       tracked_consumers := AList.update (consumer_id consumer)
         \<lparr>tc_name = consumer_name consumer, tc_can_spill = can_spill consumer,
          tc_reserved = 0, tc_peak = 0\<rparr> (tracked_consumers p)\<rparr>"

definition track_unregister ::
  "'p memory_pool_impl \<Rightarrow> 'p track_pool \<Rightarrow> memory_consumer \<Rightarrow> df_error + 'p track_pool" where
  "track_unregister I p consumer =
     (case mp_unregister I (tp_inner p) consumer of
        Inl e \<Rightarrow> Inl e
      | Inr inner \<Rightarrow>
          Inr (p\<lparr>tp_inner := inner,
                 tracked_consumers := AList.delete (consumer_id consumer) (tracked_consumers p)\<rparr>))"

text \<open>\<open>tracked_consumers.read().get(&id)\<close>, then an update of the atomics in place.\<close>

definition update_tracked ::
  "(tracked_consumer \<Rightarrow> tracked_consumer) \<Rightarrow> memory_reservation \<Rightarrow> 'p track_pool \<Rightarrow> 'p track_pool" where
  "update_tracked f reservation p =
     (case map_of (tracked_consumers p) (consumer_id (res_consumer reservation)) of
        None \<Rightarrow> p
      | Some t \<Rightarrow> p\<lparr>tracked_consumers :=
          AList.update (consumer_id (res_consumer reservation)) (f t) (tracked_consumers p)\<rparr>)"

definition track_grow ::
  "'p memory_pool_impl \<Rightarrow> 'p track_pool \<Rightarrow> memory_reservation \<Rightarrow> usize \<Rightarrow> 'p track_pool" where
  "track_grow I p reservation additional =
     update_tracked (\<lambda>t. tracked_grow t additional) reservation
       (p\<lparr>tp_inner := mp_grow I (tp_inner p) reservation additional\<rparr>)"

definition track_shrink ::
  "'p memory_pool_impl \<Rightarrow> 'p track_pool \<Rightarrow> memory_reservation \<Rightarrow> usize \<Rightarrow> 'p track_pool" where
  "track_shrink I p reservation n =
     update_tracked (\<lambda>t. tracked_shrink t n) reservation
       (p\<lparr>tp_inner := mp_shrink I (tp_inner p) reservation n\<rparr>)"

definition provide_top_memory_consumers_to_error_msg ::
  "string \<Rightarrow> resources_msg \<Rightarrow> consumer_report list \<Rightarrow> resources_msg" where
  "provide_top_memory_consumers_to_error_msg name error_msg top_consumers =
     Top_Consumers name top_consumers error_msg"

definition track_try_grow ::
  "'p memory_pool_impl \<Rightarrow> 'p track_pool \<Rightarrow> memory_reservation \<Rightarrow> usize \<Rightarrow> df_error + 'p track_pool" where
  "track_try_grow I p reservation additional =
     (case mp_try_grow I (tp_inner p) reservation additional of
        Inl (ResourcesExhausted e) \<Rightarrow>
          Inl (ResourcesExhausted
                 (provide_top_memory_consumers_to_error_msg
                    (consumer_name (res_consumer reservation)) e (report_top p (tp_top p))))
      | Inl e \<Rightarrow> Inl e
      | Inr inner \<Rightarrow>
          Inr (update_tracked (\<lambda>t. tracked_grow t additional) reservation (p\<lparr>tp_inner := inner\<rparr>)))"

definition track_impl :: "'p memory_pool_impl \<Rightarrow> 'p track_pool memory_pool_impl" where
  "track_impl I =
     \<lparr>mp_register = track_register I,
      mp_unregister = track_unregister I,
      mp_grow = track_grow I,
      mp_shrink = track_shrink I,
      mp_try_grow = track_try_grow I,
      mp_reserved = (\<lambda>p. mp_reserved I (tp_inner p)),
      mp_memory_limit = (\<lambda>p. mp_memory_limit I (tp_inner p)),
      mp_display = (\<lambda>p. Track_Display (mp_display I (tp_inner p)) (tp_top p))\<rparr>"


section \<open>The contract of the trait\<close>

text \<open>
  What the reservations rely on: a pool counts every byte it hands out and takes back,
  registration moves no bytes, and a successful \<open>try_grow\<close> is a \<open>grow\<close>.
\<close>

locale memory_pool =
  fixes I :: "'p memory_pool_impl"
  assumes reserved_register: "mp_reserved I (mp_register I p c) = mp_reserved I p"
    and reserved_unregister: "mp_unregister I p c = Inr q \<Longrightarrow> mp_reserved I q = mp_reserved I p"
    and reserved_grow: "mp_reserved I (mp_grow I p r n) = mp_reserved I p + n"
    and reserved_shrink: "mp_reserved I (mp_shrink I p r n) = mp_reserved I p - n"
    and try_grow_grow: "mp_try_grow I p r n = Inr q \<Longrightarrow> q = mp_grow I p r n"
begin

lemma reserved_try_grow: "mp_try_grow I p r n = Inr q \<Longrightarrow> mp_reserved I q = mp_reserved I p + n"
  using try_grow_grow reserved_grow by metis

lemma grow_shrink_reserved:
  "mp_reserved I (mp_shrink I (mp_grow I p r n) r' n) = mp_reserved I p"
  by (simp add: reserved_grow reserved_shrink)

end

lemmas unbounded_defs =
  unbounded_impl_def unbounded_grow_def unbounded_shrink_def unbounded_try_grow_def

lemmas greedy_defs =
  greedy_impl_def greedy_grow_def greedy_shrink_def greedy_try_grow_def

lemmas fair_defs =
  fair_impl_def fair_register_def fair_unregister_def fair_grow_def fair_shrink_def
  fair_try_grow_def fair_reserved_def

lemmas track_defs =
  track_impl_def track_register_def track_unregister_def track_grow_def track_shrink_def
  track_try_grow_def

interpretation ub: memory_pool unbounded_impl
  by unfold_locales (auto simp: unbounded_defs)

interpretation gr: memory_pool greedy_impl
  by unfold_locales (auto simp: greedy_defs Let_def split: if_splits)

interpretation fr: memory_pool fair_impl
  by unfold_locales
    (auto simp: fair_defs Let_def algebra_simps split: if_splits option.splits)

lemma update_tracked_inner [simp]: "tp_inner (update_tracked f r p) = tp_inner p"
  by (simp add: update_tracked_def split: option.splits)

lemma update_tracked_top [simp]: "tp_top (update_tracked f r p) = tp_top p"
  by (simp add: update_tracked_def split: option.splits)

text \<open>Tracking wraps any pool that keeps the contract into one that keeps it.\<close>

context memory_pool
begin

lemma track_memory_pool: "memory_pool (track_impl I)"
  by unfold_locales
    (auto simp: track_defs reserved_register reserved_unregister reserved_grow reserved_shrink
        dest: try_grow_grow split: sum.splits df_error.splits)

end

interpretation trgr: memory_pool "track_impl greedy_impl"
  by (rule gr.track_memory_pool)

interpretation trfr: memory_pool "track_impl fair_impl"
  by (rule fr.track_memory_pool)

section \<open>Limits\<close>

text \<open>The greedy pool admits a request exactly when the new total fits.\<close>

lemma greedy_try_grow_iff:
  assumes "unat (gr_used p) + unat n < 2 ^ 64"
  shows "(\<exists>q. greedy_try_grow p r n = Inr q) \<longleftrightarrow>
           unat (gr_used p) + unat n \<le> unat (gr_pool_size p)"
  using assms
  by (auto simp: greedy_try_grow_def Let_def word_le_nat_alt unat_add_no_overflow)

text \<open>The share of a spillable reservation.\<close>

definition fair_share :: "fair_pool \<Rightarrow> nat" where
  "fair_share p =
     (let free = unat (fp_pool_size p) - unat (unspillable p)
      in if num_spill p = 0 then free else free div unat (num_spill p))"

lemma fair_try_grow_spillable_iff:
  assumes "can_spill (res_consumer r)"
    and "unat (res_size r) + unat n < 2 ^ 64"
  shows "(\<exists>q. fair_try_grow p r n = Inr q) \<longleftrightarrow> unat (res_size r) + unat n \<le> fair_share p"
  using assms
  by (auto simp: fair_try_grow_def fair_share_def Let_def checked_div_def word_less_nat_alt
      unat_add_no_overflow unat_saturating_sub unat_div not_less split: option.splits)

lemma fair_try_grow_unspillable_iff:
  assumes "\<not> can_spill (res_consumer r)"
    and "unat (unspillable p) + unat (spillable p) < 2 ^ 64"
    and "unat n \<noteq> 0"
  shows "(\<exists>q. fair_try_grow p r n = Inr q) \<longleftrightarrow>
           unat (unspillable p) + unat (spillable p) + unat n \<le> unat (fp_pool_size p)"
  using assms
  by (auto simp: fair_try_grow_def Let_def word_less_nat_alt
      unat_add_no_overflow unat_saturating_sub not_less)

section \<open>Reports\<close>

lemma length_report_top:
  "length (report_top p n) = min n (length (tracked_consumers p))"
  by (simp add: report_top_def Let_def)

end
