(* ===== verification/Memory_Reservation.thy ===== *)
theory Memory_Reservation
  imports Memory_Pool
begin

text \<open>
  \<open>MemoryConsumer\<close>, \<open>SharedRegistration\<close> and \<open>MemoryReservation\<close> of
  \<open>execution/src/memory_pool/mod.rs\<close> over any pool.  The store keeps one entry per
  registration, with the strong count of its \<open>Arc\<close>, and one slot per reservation, empty
  once the reservation is dropped.  Every method of a reservation is one operation on the
  store; the ownership rules of the source make an operation on an empty slot
  impossible, here it is the error \<open>not_live\<close>.
\<close>

section \<open>The store\<close>

record shared_registration =
  sr_consumer :: memory_consumer
  sr_strong :: nat

record reservation =
  rsv_registration :: nat
  rsv_size :: usize

record 'p store =
  st_pool :: 'p
  st_registrations :: "shared_registration list"
  st_reservations :: "reservation option list"
  st_next_id :: usize

definition store_new :: "'p \<Rightarrow> 'p store" where
  "store_new p =
     \<lparr>st_pool = p, st_registrations = [], st_reservations = [], st_next_id = 0\<rparr>"

definition not_live :: df_error where
  "not_live = Panicked ''not a live reservation''"

definition lookup_reservation :: "'p store \<Rightarrow> nat \<Rightarrow> reservation option" where
  "lookup_reservation s i =
     (if i < length (st_reservations s) then st_reservations s ! i else None)"

definition consumer_of :: "'p store \<Rightarrow> reservation \<Rightarrow> memory_consumer" where
  "consumer_of s v = sr_consumer (st_registrations s ! rsv_registration v)"

text \<open>The argument \<open>self\<close> as the pool sees it.\<close>

definition reservation_view :: "'p store \<Rightarrow> reservation \<Rightarrow> memory_reservation" where
  "reservation_view s v = \<lparr>res_consumer = consumer_of s v, res_size = rsv_size v\<rparr>"

definition put_reservation :: "'p store \<Rightarrow> nat \<Rightarrow> reservation \<Rightarrow> 'p store" where
  "put_reservation s i v = s\<lparr>st_reservations := (st_reservations s)[i := Some v]\<rparr>"

definition with_pool :: "'p store \<Rightarrow> 'p \<Rightarrow> 'p store" where
  "with_pool s p = s\<lparr>st_pool := p\<rparr>"

section \<open>Consumers\<close>

definition new_unique_id :: "'p store \<Rightarrow> usize \<times> 'p store" where
  "new_unique_id s = (st_next_id s, s\<lparr>st_next_id := st_next_id s + 1\<rparr>)"

definition memory_consumer_new :: "'p store \<Rightarrow> string \<Rightarrow> memory_consumer \<times> 'p store" where
  "memory_consumer_new s nm =
     (case new_unique_id s of (i, s') \<Rightarrow>
        (\<lparr>consumer_name = nm, can_spill = False, consumer_id = i\<rparr>, s'))"

definition clone_with_new_id :: "'p store \<Rightarrow> memory_consumer \<Rightarrow> memory_consumer \<times> 'p store" where
  "clone_with_new_id s c =
     (case new_unique_id s of (i, s') \<Rightarrow>
        (\<lparr>consumer_name = consumer_name c, can_spill = can_spill c, consumer_id = i\<rparr>, s'))"

definition with_can_spill :: "memory_consumer \<Rightarrow> bool \<Rightarrow> memory_consumer" where
  "with_can_spill c b = c\<lparr>can_spill := b\<rparr>"

text \<open>\<open>MemoryConsumer::register\<close>: a fresh registration and an empty reservation.\<close>

definition register :: "'p memory_pool_impl \<Rightarrow> 'p store \<Rightarrow> memory_consumer \<Rightarrow> nat \<times> 'p store" where
  "register I s c =
     (length (st_reservations s),
      s\<lparr>st_pool := mp_register I (st_pool s) c,
        st_registrations := st_registrations s @ [\<lparr>sr_consumer = c, sr_strong = 1\<rparr>],
        st_reservations := st_reservations s @
          [Some \<lparr>rsv_registration = length (st_registrations s), rsv_size = 0\<rparr>]\<rparr>)"

section \<open>Reservations\<close>

definition reservation_size :: "'p store \<Rightarrow> nat \<Rightarrow> df_error + usize" where
  "reservation_size s i =
     (case lookup_reservation s i of None \<Rightarrow> Inl not_live | Some v \<Rightarrow> Inr (rsv_size v))"

definition free :: "'p memory_pool_impl \<Rightarrow> 'p store \<Rightarrow> nat \<Rightarrow> df_error + usize \<times> 'p store" where
  "free I s i =
     (case lookup_reservation s i of
        None \<Rightarrow> Inl not_live
      | Some v \<Rightarrow>
          (let sz = rsv_size v;
               v0 = v\<lparr>rsv_size := 0\<rparr>;
               s0 = put_reservation s i v0
           in if sz \<noteq> 0
              then Inr (sz, with_pool s0 (mp_shrink I (st_pool s0) (reservation_view s0 v0) sz))
              else Inr (sz, s0)))"

text \<open>The update of \<open>size\<close> by \<open>checked_sub\<close> that \<open>shrink\<close>, \<open>try_shrink\<close> and \<open>split\<close> share.\<close>

definition try_sub_size :: "'p store \<Rightarrow> nat \<Rightarrow> reservation \<Rightarrow> usize \<Rightarrow> 'p store option" where
  "try_sub_size s i v capacity =
     map_option (\<lambda>n. put_reservation s i (v\<lparr>rsv_size := n\<rparr>)) (checked_sub (rsv_size v) capacity)"

definition shrink :: "'p memory_pool_impl \<Rightarrow> 'p store \<Rightarrow> nat \<Rightarrow> usize \<Rightarrow> df_error + 'p store" where
  "shrink I s i capacity =
     (case lookup_reservation s i of
        None \<Rightarrow> Inl not_live
      | Some v \<Rightarrow>
          (case try_sub_size s i v capacity of
             None \<Rightarrow> Inl (Panicked ''Cannot free the capacity out of allocated size'')
           | Some s1 \<Rightarrow>
               Inr (with_pool s1
                 (mp_shrink I (st_pool s1)
                    (reservation_view s1 (v\<lparr>rsv_size := rsv_size v - capacity\<rparr>)) capacity))))"

definition try_shrink ::
  "'p memory_pool_impl \<Rightarrow> 'p store \<Rightarrow> nat \<Rightarrow> usize \<Rightarrow> df_error + usize \<times> 'p store" where
  "try_shrink I s i capacity =
     (case lookup_reservation s i of
        None \<Rightarrow> Inl not_live
      | Some v \<Rightarrow>
          (case try_sub_size s i v capacity of
             None \<Rightarrow> Inl (Internal ''Cannot free the capacity out of allocated size'')
           | Some s1 \<Rightarrow>
               Inr (rsv_size v - capacity,
                 with_pool s1
                   (mp_shrink I (st_pool s1)
                      (reservation_view s1 (v\<lparr>rsv_size := rsv_size v - capacity\<rparr>)) capacity))))"

definition grow :: "'p memory_pool_impl \<Rightarrow> 'p store \<Rightarrow> nat \<Rightarrow> usize \<Rightarrow> df_error + 'p store" where
  "grow I s i capacity =
     (case lookup_reservation s i of
        None \<Rightarrow> Inl not_live
      | Some v \<Rightarrow>
          Inr (put_reservation
                 (with_pool s (mp_grow I (st_pool s) (reservation_view s v) capacity))
                 i (v\<lparr>rsv_size := rsv_size v + capacity\<rparr>)))"

definition try_grow :: "'p memory_pool_impl \<Rightarrow> 'p store \<Rightarrow> nat \<Rightarrow> usize \<Rightarrow> df_error + 'p store" where
  "try_grow I s i capacity =
     (case lookup_reservation s i of
        None \<Rightarrow> Inl not_live
      | Some v \<Rightarrow>
          (case mp_try_grow I (st_pool s) (reservation_view s v) capacity of
             Inl e \<Rightarrow> Inl e
           | Inr p \<Rightarrow> Inr (put_reservation (with_pool s p) i (v\<lparr>rsv_size := rsv_size v + capacity\<rparr>))))"

definition resize :: "'p memory_pool_impl \<Rightarrow> 'p store \<Rightarrow> nat \<Rightarrow> usize \<Rightarrow> df_error + 'p store" where
  "resize I s i capacity =
     (case reservation_size s i of
        Inl e \<Rightarrow> Inl e
      | Inr sz \<Rightarrow>
          if sz < capacity then grow I s i (capacity - sz)
          else if capacity < sz then shrink I s i (sz - capacity)
          else Inr s)"

definition try_resize :: "'p memory_pool_impl \<Rightarrow> 'p store \<Rightarrow> nat \<Rightarrow> usize \<Rightarrow> df_error + 'p store" where
  "try_resize I s i capacity =
     (case reservation_size s i of
        Inl e \<Rightarrow> Inl e
      | Inr sz \<Rightarrow>
          if sz < capacity then try_grow I s i (capacity - sz)
          else if capacity < sz then
            (case try_shrink I s i (sz - capacity) of Inl e \<Rightarrow> Inl e | Inr (_, s') \<Rightarrow> Inr s')
          else Inr s)"

text \<open>\<open>Arc::clone\<close> of a registration.\<close>

definition clone_registration :: "'p store \<Rightarrow> nat \<Rightarrow> 'p store" where
  "clone_registration s g =
     s\<lparr>st_registrations := (st_registrations s)
         [g := (st_registrations s ! g)\<lparr>sr_strong := Suc (sr_strong (st_registrations s ! g))\<rparr>]\<rparr>"

definition alloc_reservation :: "'p store \<Rightarrow> reservation \<Rightarrow> nat \<times> 'p store" where
  "alloc_reservation s v =
     (length (st_reservations s), s\<lparr>st_reservations := st_reservations s @ [Some v]\<rparr>)"

definition split :: "'p store \<Rightarrow> nat \<Rightarrow> usize \<Rightarrow> df_error + nat \<times> 'p store" where
  "split s i capacity =
     (case lookup_reservation s i of
        None \<Rightarrow> Inl not_live
      | Some v \<Rightarrow>
          (case try_sub_size s i v capacity of
             None \<Rightarrow> Inl (Panicked ''called Result::unwrap() on an Err value'')
           | Some s1 \<Rightarrow>
               Inr (alloc_reservation (clone_registration s1 (rsv_registration v))
                 \<lparr>rsv_registration = rsv_registration v, rsv_size = capacity\<rparr>)))"

definition new_empty :: "'p store \<Rightarrow> nat \<Rightarrow> df_error + nat \<times> 'p store" where
  "new_empty s i =
     (case lookup_reservation s i of
        None \<Rightarrow> Inl not_live
      | Some v \<Rightarrow>
          Inr (alloc_reservation (clone_registration s (rsv_registration v))
            \<lparr>rsv_registration = rsv_registration v, rsv_size = 0\<rparr>))"

definition take_reservation :: "'p store \<Rightarrow> nat \<Rightarrow> df_error + nat \<times> 'p store" where
  "take_reservation s i =
     (case reservation_size s i of Inl e \<Rightarrow> Inl e | Inr sz \<Rightarrow> split s i sz)"

text \<open>
  Dropping the \<open>Arc\<close> of a registration; the last one runs \<open>SharedRegistration::drop\<close>.
\<close>

definition drop_registration :: "'p memory_pool_impl \<Rightarrow> 'p store \<Rightarrow> nat \<Rightarrow> df_error + 'p store" where
  "drop_registration I s g =
     (let sr = st_registrations s ! g;
          s1 = s\<lparr>st_registrations := (st_registrations s)[g := sr\<lparr>sr_strong := sr_strong sr - 1\<rparr>]\<rparr>
      in if sr_strong sr = 1
         then (case mp_unregister I (st_pool s1) (sr_consumer sr) of
                 Inl e \<Rightarrow> Inl e
               | Inr p \<Rightarrow> Inr (with_pool s1 p))
         else Inr s1)"

definition drop_reservation :: "'p memory_pool_impl \<Rightarrow> 'p store \<Rightarrow> nat \<Rightarrow> df_error + 'p store" where
  "drop_reservation I s i =
     (case lookup_reservation s i of
        None \<Rightarrow> Inl not_live
      | Some v \<Rightarrow>
          (case free I s i of
             Inl e \<Rightarrow> Inl e
           | Inr (_, s1) \<Rightarrow>
               drop_registration I (s1\<lparr>st_reservations := (st_reservations s1)[i := None]\<rparr>)
                 (rsv_registration v)))"


section \<open>Executions\<close>

text \<open>
  One step is one successful call; a call that returns an error or panics leaves the
  store as it was.
\<close>

inductive step :: "'p memory_pool_impl \<Rightarrow> 'p store \<Rightarrow> 'p store \<Rightarrow> bool" for I where
  step_register: "memory_consumer_new s nm = (c, s1) \<Longrightarrow>
     register I s1 (with_can_spill c b) = (i, t) \<Longrightarrow> step I s t"
| step_register_clone: "clone_with_new_id s c = (c', s1) \<Longrightarrow>
     register I s1 c' = (i, t) \<Longrightarrow> step I s t"
| step_free: "free I s i = Inr (n, t) \<Longrightarrow> step I s t"
| step_shrink: "shrink I s i n = Inr t \<Longrightarrow> step I s t"
| step_try_shrink: "try_shrink I s i n = Inr (m, t) \<Longrightarrow> step I s t"
| step_resize: "resize I s i n = Inr t \<Longrightarrow> step I s t"
| step_try_resize: "try_resize I s i n = Inr t \<Longrightarrow> step I s t"
| step_grow: "grow I s i n = Inr t \<Longrightarrow> step I s t"
| step_try_grow: "try_grow I s i n = Inr t \<Longrightarrow> step I s t"
| step_split: "split s i n = Inr (j, t) \<Longrightarrow> step I s t"
| step_new_empty: "new_empty s i = Inr (j, t) \<Longrightarrow> step I s t"
| step_take: "take_reservation s i = Inr (j, t) \<Longrightarrow> step I s t"
| step_drop: "drop_reservation I s i = Inr t \<Longrightarrow> step I s t"

inductive reachable :: "'p memory_pool_impl \<Rightarrow> 'p \<Rightarrow> 'p store \<Rightarrow> bool" for I p where
  reachable_new: "reachable I p (store_new p)"
| reachable_step: "reachable I p s \<Longrightarrow> step I s t \<Longrightarrow> reachable I p t"

section \<open>Well-formed stores\<close>

definition slot_refs :: "nat \<Rightarrow> reservation option \<Rightarrow> int" where
  "slot_refs g x = (case x of None \<Rightarrow> 0 | Some v \<Rightarrow> if rsv_registration v = g then 1 else 0)"

definition refs :: "'p store \<Rightarrow> nat \<Rightarrow> int" where
  "refs s g = sum_list (map (slot_refs g) (st_reservations s))"

text \<open>Every reservation has a registration, and the strong counts are right.\<close>

definition wf_store :: "'p store \<Rightarrow> bool" where
  "wf_store s \<longleftrightarrow>
     (\<forall>v. Some v \<in> set (st_reservations s) \<longrightarrow> rsv_registration v < length (st_registrations s)) \<and>
     (\<forall>g < length (st_registrations s). int (sr_strong (st_registrations s ! g)) = refs s g)"

definition slot_bytes :: "(reservation \<Rightarrow> bool) \<Rightarrow> reservation option \<Rightarrow> usize" where
  "slot_bytes f x = (case x of None \<Rightarrow> 0 | Some v \<Rightarrow> if f v then rsv_size v else 0)"

lemma slot_bytes_simps [simp]:
  "slot_bytes f None = 0"
  "slot_bytes f (Some v) = (if f v then rsv_size v else 0)"
  by (simp_all add: slot_bytes_def)

lemma slot_refs_simps [simp]:
  "slot_refs g None = 0"
  "slot_refs g (Some v) = (if rsv_registration v = g then 1 else 0)"
  by (simp_all add: slot_refs_def)

text \<open>The bytes held by the live reservations of the consumers in a class.\<close>

definition class_bytes :: "(memory_consumer \<Rightarrow> bool) \<Rightarrow> 'p store \<Rightarrow> usize" where
  "class_bytes cls s =
     sum_list (map (slot_bytes (\<lambda>v. cls (consumer_of s v))) (st_reservations s))"

lemma lookup_reservationD:
  assumes "lookup_reservation s i = Some v"
  shows "i < length (st_reservations s)" and "st_reservations s ! i = Some v"
    and "Some v \<in> set (st_reservations s)"
  using assms by (auto simp: lookup_reservation_def in_set_conv_nth split: if_splits)

lemma wf_storeD:
  assumes "wf_store s" and "lookup_reservation s i = Some v"
  shows "rsv_registration v < length (st_registrations s)"
  using assms lookup_reservationD(3) unfolding wf_store_def by blast

lemma refs_nonneg: "0 \<le> refs s g"
  unfolding refs_def by (rule sum_list_nonneg) (auto simp: slot_refs_def split: option.splits)

subsection \<open>How the primitive updates move bytes and references\<close>

lemma consumer_of_simps [simp]:
  "consumer_of (put_reservation s i w) v = consumer_of s v"
  "consumer_of (with_pool s p) v = consumer_of s v"
  "consumer_of (s\<lparr>st_reservations := xs\<rparr>) v = consumer_of s v"
  by (simp_all add: consumer_of_def put_reservation_def with_pool_def)

lemma consumer_of_clone [simp]: "consumer_of (clone_registration s g) v = consumer_of s v"
  by (simp add: consumer_of_def clone_registration_def nth_list_update_same_view)

lemma store_simps [simp]:
  "st_pool (put_reservation s i w) = st_pool s"
  "st_registrations (put_reservation s i w) = st_registrations s"
  "st_reservations (put_reservation s i w) = (st_reservations s)[i := Some w]"
  "st_pool (with_pool s p) = p"
  "st_registrations (with_pool s p) = st_registrations s"
  "st_reservations (with_pool s p) = st_reservations s"
  "st_pool (clone_registration s g) = st_pool s"
  "st_reservations (clone_registration s g) = st_reservations s"
  "length (st_registrations (clone_registration s g)) = length (st_registrations s)"
  by (simp_all add: put_reservation_def with_pool_def clone_registration_def)

lemma class_bytes_with_pool [simp]: "class_bytes cls (with_pool s p) = class_bytes cls s"
  by (simp add: class_bytes_def)

lemma class_bytes_clone [simp]: "class_bytes cls (clone_registration s g) = class_bytes cls s"
  by (simp add: class_bytes_def)

lemma class_bytes_put:
  assumes "lookup_reservation s i = Some v" and "rsv_registration w = rsv_registration v"
  shows "class_bytes cls (put_reservation s i w) =
    class_bytes cls s + (if cls (consumer_of s v) then rsv_size w - rsv_size v else 0)"
proof -
  have "consumer_of s w = consumer_of s v"
    using assms(2) by (simp add: consumer_of_def)
  then show ?thesis
    using lookup_reservationD(1,2) [OF assms(1)]
    by (simp add: class_bytes_def sum_list_map_update)
qed

lemma class_bytes_drop_slot:
  assumes "lookup_reservation s i = Some v"
  shows "class_bytes cls (s\<lparr>st_reservations := (st_reservations s)[i := None]\<rparr>) =
    class_bytes cls s - (if cls (consumer_of s v) then rsv_size v else 0)"
  using lookup_reservationD(1,2) [OF assms]
  by (simp add: class_bytes_def sum_list_map_update)

lemma class_bytes_alloc:
  "class_bytes cls (snd (alloc_reservation s v)) =
    class_bytes cls s + (if cls (consumer_of s v) then rsv_size v else 0)"
  by (simp add: class_bytes_def alloc_reservation_def consumer_of_def)

lemma class_bytes_register:
  assumes "wf_store s"
  shows "class_bytes cls (snd (register I s c)) = class_bytes cls s"
proof -
  let ?t = "snd (register I s c)"
  have regs: "st_registrations ?t = st_registrations s @ [\<lparr>sr_consumer = c, sr_strong = 1\<rparr>]"
    by (simp add: register_def)
  have "consumer_of ?t v = consumer_of s v" if "Some v \<in> set (st_reservations s)" for v
    using assms that unfolding wf_store_def consumer_of_def regs by (simp add: nth_append)
  then have eq: "map (slot_bytes (\<lambda>v. cls (consumer_of ?t v))) (st_reservations s) =
             map (slot_bytes (\<lambda>v. cls (consumer_of s v))) (st_reservations s)"
    by (intro map_cong refl) (case_tac x; simp)
  have rsvs: "st_reservations ?t = st_reservations s @
      [Some \<lparr>rsv_registration = length (st_registrations s), rsv_size = 0\<rparr>]"
    by (simp add: register_def)
  show ?thesis
    by (simp add: class_bytes_def rsvs eq)
qed

lemma class_bytes_register_eq:
  "wf_store s \<Longrightarrow> register I s c = (i, t) \<Longrightarrow> class_bytes cls t = class_bytes cls s"
  using class_bytes_register [of s cls I c] by simp

lemma class_bytes_regs_update:
  assumes "sr_consumer r = sr_consumer (st_registrations s ! g)"
  shows "class_bytes cls (s\<lparr>st_registrations := (st_registrations s)[g := r]\<rparr>) = class_bytes cls s"
  using assms by (simp add: class_bytes_def consumer_of_def nth_list_update_same_view)


subsection \<open>Well-formedness is preserved\<close>

lemma refs_put:
  assumes "lookup_reservation s i = Some v" and "rsv_registration w = rsv_registration v"
  shows "refs (put_reservation s i w) g = refs s g"
  using assms lookup_reservationD(1,2) [OF assms(1)]
  by (simp add: refs_def sum_list_map_update)

lemma refs_with_pool [simp]: "refs (with_pool s p) g = refs s g"
  by (simp add: refs_def)

lemma refs_drop_slot:
  assumes "lookup_reservation s i = Some v"
  shows "refs (s\<lparr>st_reservations := (st_reservations s)[i := None]\<rparr>) g =
    refs s g - (if rsv_registration v = g then 1 else 0)"
  using lookup_reservationD(1,2) [OF assms]
  by (simp add: refs_def sum_list_map_update)

lemma wf_store_new: "wf_store (store_new p)"
  by (simp add: wf_store_def store_new_def)

lemma wf_store_with_pool [simp]: "wf_store (with_pool s p) = wf_store s"
  by (simp add: wf_store_def)

lemma wf_store_put:
  assumes "wf_store s" and "lookup_reservation s i = Some v"
    and "rsv_registration w = rsv_registration v"
  shows "wf_store (put_reservation s i w)"
  unfolding wf_store_def
proof (intro conjI allI impI)
  fix u assume "Some u \<in> set (st_reservations (put_reservation s i w))"
  then have "u = w \<or> Some u \<in> set (st_reservations s)"
    using set_update_subset_insert [of "st_reservations s" i "Some w"] by auto
  then show "rsv_registration u < length (st_registrations (put_reservation s i w))"
    using assms wf_storeD [OF assms(1,2)] by (auto simp: wf_store_def)
next
  fix g assume "g < length (st_registrations (put_reservation s i w))"
  then show "int (sr_strong (st_registrations (put_reservation s i w) ! g)) =
      refs (put_reservation s i w) g"
    using assms by (simp add: wf_store_def refs_put)
qed

lemma wf_store_alloc_clone:
  assumes "wf_store s" and "rsv_registration w = g" and "g < length (st_registrations s)"
  shows "wf_store (snd (alloc_reservation (clone_registration s g) w))"
  unfolding wf_store_def
proof (intro conjI allI impI)
  fix u assume "Some u \<in> set (st_reservations (snd (alloc_reservation (clone_registration s g) w)))"
  then show "rsv_registration u <
      length (st_registrations (snd (alloc_reservation (clone_registration s g) w)))"
    using assms by (auto simp: wf_store_def alloc_reservation_def)
next
  fix k assume "k < length (st_registrations (snd (alloc_reservation (clone_registration s g) w)))"
  then show "int (sr_strong (st_registrations (snd (alloc_reservation (clone_registration s g) w)) ! k)) =
      refs (snd (alloc_reservation (clone_registration s g) w)) k"
    using assms
    by (auto simp: wf_store_def refs_def alloc_reservation_def clone_registration_def nth_list_update)
qed

lemma refs_fresh:
  assumes "wf_store s"
  shows "refs s (length (st_registrations s)) = 0"
proof -
  have "\<forall>x \<in> set (st_reservations s). slot_refs (length (st_registrations s)) x = 0"
    using assms by (auto simp: wf_store_def slot_refs_def split: option.splits)
  then show ?thesis
    by (simp add: refs_def sum_list_eq_0_iff map_idI cong: map_cong)
qed

lemma wf_store_register:
  assumes "wf_store s" and "register I s c = (i, t)"
  shows "wf_store t"
  unfolding wf_store_def
proof (intro conjI allI impI)
  fix u assume "Some u \<in> set (st_reservations t)"
  then show "rsv_registration u < length (st_registrations t)"
    using assms by (auto simp: wf_store_def register_def less_Suc_eq)
next
  fix g assume "g < length (st_registrations t)"
  then show "int (sr_strong (st_registrations t ! g)) = refs t g"
    using assms refs_fresh [OF assms(1)]
    by (auto simp: wf_store_def register_def refs_def nth_append)
qed

lemma wf_store_new_id: "wf_store (s\<lparr>st_next_id := k\<rparr>) = wf_store s"
  by (simp add: wf_store_def refs_def)

lemma class_bytes_new_id [simp]: "class_bytes cls (s\<lparr>st_next_id := k\<rparr>) = class_bytes cls s"
  by (simp add: class_bytes_def consumer_of_def)

lemma wf_store_drop_registration:
  assumes "wf_store s" and "lookup_reservation s i = Some v"
    and "drop_registration I (s\<lparr>st_reservations := (st_reservations s)[i := None]\<rparr>)
           (rsv_registration v) = Inr t"
  shows "wf_store t"
proof -
  let ?g = "rsv_registration v"
  let ?d = "s\<lparr>st_reservations := (st_reservations s)[i := None]\<rparr>"
  let ?sr = "st_registrations s ! ?g"
  have g: "?g < length (st_registrations s)"
    by (rule wf_storeD [OF assms(1,2)])
  have res: "st_reservations t = (st_reservations s)[i := None]"
    and regs: "st_registrations t = (st_registrations s)[?g := ?sr\<lparr>sr_strong := sr_strong ?sr - 1\<rparr>]"
    using assms(3) by (auto simp: drop_registration_def Let_def with_pool_def split: if_splits sum.splits)
  have strong: "int (sr_strong ?sr) = refs s ?g"
    using assms(1) g by (simp add: wf_store_def)
  have rt: "refs t k = refs s k - (if ?g = k then 1 else 0)" for k
    using refs_drop_slot [OF assms(2), of k] by (simp add: refs_def res)
  have "1 \<le> refs s ?g"
    using rt [of ?g] refs_nonneg [of t ?g] by simp
  show ?thesis
    unfolding wf_store_def
  proof (intro conjI allI impI)
    fix u assume "Some u \<in> set (st_reservations t)"
    then have "Some u \<in> set (st_reservations s)"
      using set_update_subset_insert [of "st_reservations s" i None] by (auto simp: res)
    then show "rsv_registration u < length (st_registrations t)"
      using assms(1) by (simp add: wf_store_def regs)
  next
    fix k assume "k < length (st_registrations t)"
    then show "int (sr_strong (st_registrations t ! k)) = refs t k"
      using assms(1) strong \<open>1 \<le> refs s ?g\<close> rt [of k]
      by (auto simp: wf_store_def regs nth_list_update)
  qed
qed


section \<open>The five effects a method can have\<close>

text \<open>
  Every method is a sequence of these effects, so that an invariant needs one case per
  effect rather than one per method.  The guard \<open>G\<close> says which growth is possible.
\<close>

inductive effect :: "'p memory_pool_impl \<Rightarrow> ('p store \<Rightarrow> usize \<Rightarrow> bool) \<Rightarrow>
    'p store \<Rightarrow> 'p store \<Rightarrow> bool" for I G where
  effect_register: "register I (s\<lparr>st_next_id := st_next_id s + 1\<rparr>)
       \<lparr>consumer_name = nm, can_spill = b, consumer_id = st_next_id s\<rparr> = (i, t) \<Longrightarrow> effect I G s t"
| effect_grow: "lookup_reservation s i = Some v \<Longrightarrow> res_consumer r = consumer_of s v \<Longrightarrow>
     G s n \<Longrightarrow> effect I G s (put_reservation (with_pool s (mp_grow I (st_pool s) r n)) i
       (v\<lparr>rsv_size := rsv_size v + n\<rparr>))"
| effect_shrink: "lookup_reservation s i = Some v \<Longrightarrow> res_consumer r = consumer_of s v \<Longrightarrow>
     unat n \<le> unat (rsv_size v) \<Longrightarrow>
     effect I G s (with_pool (put_reservation s i (v\<lparr>rsv_size := rsv_size v - n\<rparr>))
       (mp_shrink I (st_pool s) r n))"
| effect_split: "lookup_reservation s i = Some v \<Longrightarrow> unat n \<le> unat (rsv_size v) \<Longrightarrow>
     effect I G s (snd (alloc_reservation
       (clone_registration (put_reservation s i (v\<lparr>rsv_size := rsv_size v - n\<rparr>))
          (rsv_registration v))
       \<lparr>rsv_registration = rsv_registration v, rsv_size = n\<rparr>))"
| effect_drop: "lookup_reservation s i = Some v \<Longrightarrow> rsv_size v = 0 \<Longrightarrow>
     drop_registration I (s\<lparr>st_reservations := (st_reservations s)[i := None]\<rparr>)
       (rsv_registration v) = Inr t \<Longrightarrow> effect I G s t"

lemma put_reservation_same [simp]:
  assumes "lookup_reservation s i = Some v"
  shows "put_reservation s i v = s"
proof -
  have "(st_reservations s)[i := Some v] = st_reservations s"
    using lookup_reservationD(2) [OF assms] by (metis list_update_id)
  then show ?thesis by (cases s) (simp add: put_reservation_def)
qed

lemma lookup_put [simp]:
  assumes "lookup_reservation s i = Some v"
  shows "lookup_reservation (put_reservation s i w) i = Some w"
  using lookup_reservationD(1) [OF assms] by (simp add: lookup_reservation_def)

lemma lookup_with_pool [simp]: "lookup_reservation (with_pool s p) i = lookup_reservation s i"
  by (simp add: lookup_reservation_def)

lemma view_consumer [simp]: "res_consumer (reservation_view s v) = consumer_of s v"
  by (simp add: reservation_view_def)

lemma consumer_of_resize [simp]: "consumer_of s (v\<lparr>rsv_size := n\<rparr>) = consumer_of s v"
  by (simp add: consumer_of_def)

lemma consumer_of_make [simp]:
  "consumer_of s \<lparr>rsv_registration = rsv_registration v, rsv_size = n\<rparr> = consumer_of s v"
  by (simp add: consumer_of_def)

lemma grow_effect: "grow I s i n = Inr t \<Longrightarrow> G s n \<Longrightarrow> effect I G s t"
  by (auto simp: grow_def split: option.splits intro!: effect_grow)

lemma shrink_effect: "shrink I s i n = Inr t \<Longrightarrow> effect I G s t"
  by (auto simp: shrink_def try_sub_size_def checked_sub_Some_iff
      split: option.splits intro!: effect_shrink)

lemma try_shrink_effect: "try_shrink I s i n = Inr (m, t) \<Longrightarrow> effect I G s t"
  by (auto simp: try_shrink_def try_sub_size_def checked_sub_Some_iff
      split: option.splits intro!: effect_shrink)

lemma split_effect: "split s i n = Inr (j, t) \<Longrightarrow> effect I G s t"
  by (auto simp: split_def try_sub_size_def checked_sub_Some_iff alloc_reservation_def
      split: option.splits dest!: effect_split [where I = I and G = G])

lemma free_effect:
  assumes "free I s i = Inr (n, t)"
  shows "s = t \<or> effect I G s t"
proof -
  obtain v where v: "lookup_reservation s i = Some v"
    using assms by (auto simp: free_def split: option.splits)
  show ?thesis
  proof (cases "rsv_size v = 0")
    case True
    then have "v\<lparr>rsv_size := 0\<rparr> = v" by simp
    with True v assms show ?thesis by (simp add: free_def)
  next
    case False
    with v assms have "t = with_pool (put_reservation s i (v\<lparr>rsv_size := rsv_size v - rsv_size v\<rparr>))
       (mp_shrink I (st_pool s)
         (reservation_view (put_reservation s i (v\<lparr>rsv_size := 0\<rparr>)) (v\<lparr>rsv_size := 0\<rparr>))
         (rsv_size v))"
      by (auto simp: free_def Let_def)
    then show ?thesis
      using effect_shrink [OF v, of _ "rsv_size v" I G] by simp
  qed
qed

context memory_pool
begin

lemma try_grow_effect: "try_grow I s i n = Inr t \<Longrightarrow> G s n \<Longrightarrow> effect I G s t"
  by (auto simp: try_grow_def split: option.splits sum.splits dest!: try_grow_grow
      intro!: effect_grow)

lemma new_empty_effect:
  assumes "new_empty s i = Inr (j, t)"
  shows "effect I G s t"
proof -
  obtain v where v: "lookup_reservation s i = Some v"
    using assms by (auto simp: new_empty_def split: option.splits)
  have "v\<lparr>rsv_size := rsv_size v - 0\<rparr> = v" by simp
  then show ?thesis
    using effect_split [OF v, of 0 I G] v assms by (simp add: new_empty_def alloc_reservation_def)
qed

lemma free_result:
  assumes "free I s i = Inr (n, t)" and "lookup_reservation s i = Some v"
  shows "lookup_reservation t i = Some (v\<lparr>rsv_size := 0\<rparr>)"
  using assms by (auto simp: free_def Let_def split: if_splits)

lemma drop_reservation_cases:
  assumes "drop_reservation I s i = Inr t"
  obtains v n s1 where "lookup_reservation s i = Some v" and "free I s i = Inr (n, s1)"
    and "drop_registration I (s1\<lparr>st_reservations := (st_reservations s1)[i := None]\<rparr>)
           (rsv_registration v) = Inr t"
  using assms unfolding drop_reservation_def by (force split: option.splits sum.splits)

lemma drop_effects:
  assumes "drop_reservation I s i = Inr t"
  shows "(effect I G)\<^sup>*\<^sup>* s t"
  using assms
proof (cases rule: drop_reservation_cases)
  case (1 v n s1)
  have "effect I G s1 t"
    using effect_drop [OF free_result [OF 1(2,1)], of I t G] 1(3) by simp
  with free_effect [OF 1(2), of G] show ?thesis
    by (meson converse_rtranclp_into_rtranclp r_into_rtranclp)
qed

lemma resize_effects:
  assumes "resize I s i n = Inr t" and G: "\<And>m. G s m"
  shows "(effect I G)\<^sup>*\<^sup>* s t"
proof -
  have g: "effect I G s t" if "grow I s i m = Inr t" for m
    using that G [of m] by (rule grow_effect)
  have k: "effect I G s t" if "shrink I s i m = Inr t" for m
    using that by (rule shrink_effect)
  show ?thesis
    using assms(1) g k unfolding resize_def by (auto split: sum.splits if_splits)
qed

lemma try_resize_effects:
  assumes "try_resize I s i n = Inr t" and G: "\<And>m. unat m \<le> unat n \<Longrightarrow> G s m"
  shows "(effect I G)\<^sup>*\<^sup>* s t"
proof -
  have g: "effect I G s t" if "try_grow I s i m = Inr t" and "unat m \<le> unat n" for m
    using that(1) G [OF that(2)] by (rule try_grow_effect)
  have k: "effect I G s t" if "try_shrink I s i m = Inr (l, t)" for l m
    using that by (rule try_shrink_effect)
  have "unat (n - m) \<le> unat n" if "m < n" for m
    using that by (simp add: unat_sub word_less_nat_alt word_le_nat_alt)
  then show ?thesis
    using assms(1) g k unfolding try_resize_def by (auto split: sum.splits if_splits)
qed

lemma take_effect: "take_reservation s i = Inr (j, t) \<Longrightarrow> effect I G s t"
  unfolding take_reservation_def by (auto split: sum.splits intro: split_effect)

lemma register_effect:
  "memory_consumer_new s nm = (c, s1) \<Longrightarrow> register I s1 (with_can_spill c b) = (i, t) \<Longrightarrow>
     effect I G s t"
  unfolding memory_consumer_new_def new_unique_id_def with_can_spill_def
  by (auto intro: effect_register)

lemma register_clone_effect:
  "clone_with_new_id s c = (c', s1) \<Longrightarrow> register I s1 c' = (i, t) \<Longrightarrow> effect I G s t"
  unfolding clone_with_new_id_def new_unique_id_def by (auto intro: effect_register)

lemma step_effects:
  assumes "step I s t"
  shows "(effect I (\<lambda>_ _. True))\<^sup>*\<^sup>* s t"
  using assms
proof cases
  case (step_register nm c s1 b i)
  then show ?thesis using register_effect by blast
next
  case (step_register_clone c c' s1 i)
  then show ?thesis using register_clone_effect by blast
next
  case (step_free i n)
  then show ?thesis using free_effect by blast
next
  case (step_shrink i n)
  then show ?thesis using shrink_effect by blast
next
  case (step_try_shrink i n m)
  then show ?thesis using try_shrink_effect by blast
next
  case (step_resize i n)
  then show ?thesis by (rule resize_effects) simp
next
  case (step_try_resize i n)
  then show ?thesis by (rule try_resize_effects) simp
next
  case (step_grow i n)
  then show ?thesis using grow_effect [where G = "\<lambda>_ _. True"] by blast
next
  case (step_try_grow i n)
  then show ?thesis using try_grow_effect [where G = "\<lambda>_ _. True"] by blast
next
  case (step_split i n j)
  then show ?thesis using split_effect by blast
next
  case (step_new_empty i j)
  then show ?thesis using new_empty_effect by blast
next
  case (step_take i j)
  then show ?thesis using take_effect by blast
next
  case (step_drop i)
  then show ?thesis by (rule drop_effects)
qed

lemma reachable_induct_effect:
  assumes "reachable I p s" and "P (store_new p)"
    and "\<And>s t. P s \<Longrightarrow> effect I (\<lambda>_ _. True) s t \<Longrightarrow> P t"
  shows "P s"
  using assms(1)
proof (induction rule: reachable.induct)
  case reachable_new
  show ?case by (rule assms(2))
next
  case (reachable_step s t)
  from step_effects [OF reachable_step.hyps(2)] reachable_step.IH show ?case
    by (induction rule: rtranclp_induct) (auto intro: assms(3))
qed

end

lemma effect_wf_store:
  assumes "effect I G s t" and "wf_store s"
  shows "wf_store t"
  using assms
proof cases
  case (effect_register nm b i)
  then show ?thesis using assms(2) wf_store_register by (metis wf_store_new_id)
next
  case (effect_split i v n)
  then show ?thesis
    using assms(2) by (simp add: wf_store_alloc_clone wf_store_put wf_storeD)
next
  case (effect_drop i v)
  then show ?thesis using assms(2) wf_store_drop_registration by blast
qed (simp_all add: wf_store_put)


section \<open>Accounting\<close>

lemma class_bytes_drop_registration:
  assumes "drop_registration I s g = Inr t"
  shows "class_bytes cls t = class_bytes cls s"
proof -
  have r: "sr_consumer (x\<lparr>sr_strong := k\<rparr>) = sr_consumer x" for x k by simp
  show ?thesis
    using assms by (auto simp: drop_registration_def Let_def class_bytes_regs_update [OF r]
        split: if_splits sum.splits)
qed

text \<open>
  A counter of a pool that follows the bytes of a class of consumers: the total of every
  pool, and the two halves of the fair pool.
\<close>

locale byte_counter = memory_pool I
  for I :: "'p memory_pool_impl" +
  fixes cls :: "memory_consumer \<Rightarrow> bool"
    and bytes :: "'p \<Rightarrow> usize"
  assumes bytes_register: "bytes (mp_register I p c) = bytes p"
    and bytes_unregister: "mp_unregister I p c = Inr q \<Longrightarrow> bytes q = bytes p"
    and bytes_grow: "bytes (mp_grow I p r n) = bytes p + (if cls (res_consumer r) then n else 0)"
    and bytes_shrink: "bytes (mp_shrink I p r n) = bytes p - (if cls (res_consumer r) then n else 0)"
begin

lemma drop_registration_bytes:
  "drop_registration I s g = Inr t \<Longrightarrow> bytes (st_pool t) = bytes (st_pool s)"
  by (auto simp: drop_registration_def Let_def split: if_splits sum.splits
      dest: bytes_unregister)

lemma effect_bytes:
  assumes "effect I G s t" and "wf_store s" and "bytes (st_pool s) = class_bytes cls s"
  shows "bytes (st_pool t) = class_bytes cls t"
  using assms(1)
proof cases
  case (effect_register nm b i)
  then have "class_bytes cls t = class_bytes cls s"
    using assms(2) class_bytes_register_eq [of "s\<lparr>st_next_id := st_next_id s + 1\<rparr>"]
    by (metis class_bytes_new_id wf_store_new_id)
  with effect_register assms(3) show ?thesis
    by (auto simp: register_def bytes_register)
next
  case (effect_grow i v r n)
  then show ?thesis
    using assms(3)
    by (simp add: bytes_grow class_bytes_put [of "with_pool s p" for p])
next
  case (effect_shrink i v r n)
  then show ?thesis
    using assms(3) by (simp add: bytes_shrink class_bytes_put)
next
  case (effect_split i v n)
  show ?thesis using effect_split assms(3)
    by (simp add: class_bytes_alloc class_bytes_put) (simp add: alloc_reservation_def)
next
  case (effect_drop i v)
  then show ?thesis
    using assms(3) drop_registration_bytes [OF effect_drop(3)]
      class_bytes_drop_registration [OF effect_drop(3), of cls]
      class_bytes_drop_slot [OF effect_drop(1), of cls]
    by simp
qed

lemma reachable_bytes:
  assumes "reachable I p s" and "bytes p = 0"
  shows "wf_store s \<and> bytes (st_pool s) = class_bytes cls s"
proof (rule reachable_induct_effect [OF assms(1)])
  show "wf_store (store_new p) \<and> bytes (st_pool (store_new p)) = class_bytes cls (store_new p)"
    using assms(2) wf_store_new [of p] by (simp add: class_bytes_def store_new_def)
qed (auto intro: effect_wf_store effect_bytes)

end

context memory_pool
begin

lemma reserved_byte_counter: "byte_counter I (\<lambda>_. True) (mp_reserved I)"
  by unfold_locales (auto simp: reserved_register reserved_unregister reserved_grow reserved_shrink)

lemma reachable_reserved:
  assumes "reachable I p s" and "mp_reserved I p = 0"
  shows "mp_reserved I (st_pool s) = class_bytes (\<lambda>_. True) s"
  using byte_counter.reachable_bytes [OF reserved_byte_counter assms] by simp

lemma reachable_wf_store: "reachable I p s \<Longrightarrow> wf_store s"
  by (erule reachable_induct_effect) (auto intro: wf_store_new effect_wf_store)

end

interpretation fair_spillable: byte_counter fair_impl can_spill spillable
  by unfold_locales (auto simp: fair_defs split: if_splits option.splits)

interpretation fair_unspillable: byte_counter fair_impl "\<lambda>c. \<not> can_spill c" unspillable
  by unfold_locales (auto simp: fair_defs split: if_splits option.splits)


section \<open>Registrations of the fair pool\<close>

text \<open>The spillable registrations that are still referenced.\<close>

definition is_live_spiller :: "shared_registration \<Rightarrow> bool" where
  "is_live_spiller sr \<longleftrightarrow> 0 < sr_strong sr \<and> can_spill (sr_consumer sr)"

definition live_spillers :: "'p store \<Rightarrow> nat" where
  "live_spillers s = length (filter is_live_spiller (st_registrations s))"

lemma live_spillers_update:
  assumes "g < length (st_registrations s)"
  shows "int (live_spillers (s\<lparr>st_registrations := (st_registrations s)[g := r]\<rparr>)) =
    int (live_spillers s) - of_bool (is_live_spiller (st_registrations s ! g)) +
    of_bool (is_live_spiller r)"
proof -
  have eq: "int (length (filter is_live_spiller xs)) = sum_list (map (\<lambda>x. of_bool (is_live_spiller x)) xs)"
    for xs by (induction xs) auto
  show ?thesis
    using assms by (simp add: live_spillers_def eq sum_list_map_update)
qed

lemma live_spillers_simps [simp]:
  "live_spillers (put_reservation s i w) = live_spillers s"
  "live_spillers (with_pool s p) = live_spillers s"
  "live_spillers (s\<lparr>st_reservations := xs\<rparr>) = live_spillers s"
  by (simp_all add: live_spillers_def)

lemma strong_positive:
  assumes "wf_store s" and "lookup_reservation s i = Some v"
  shows "0 < sr_strong (st_registrations s ! rsv_registration v)"
proof -
  have "refs s (rsv_registration v) \<ge> 1"
    using refs_drop_slot [OF assms(2), of "rsv_registration v"]
      refs_nonneg [of "s\<lparr>st_reservations := (st_reservations s)[i := None]\<rparr>" "rsv_registration v"]
    by simp
  moreover have "int (sr_strong (st_registrations s ! rsv_registration v)) = refs s (rsv_registration v)"
    using assms wf_storeD [OF assms] by (simp add: wf_store_def)
  ultimately show ?thesis by linarith
qed

text \<open>
  The counter of spillable consumers is the number of live spillable registrations, and
  the last drop of a registration finds it positive.
\<close>

lemma live_spillers_drop:
  assumes "wf_store s" and "lookup_reservation s i = Some v"
  defines "sr \<equiv> st_registrations s ! rsv_registration v"
  shows "int (live_spillers (s\<lparr>st_reservations := (st_reservations s)[i := None],
           st_registrations := (st_registrations s)[rsv_registration v :=
             sr\<lparr>sr_strong := sr_strong sr - 1\<rparr>]\<rparr>)) =
         int (live_spillers s) - of_bool (sr_strong sr = 1 \<and> can_spill (sr_consumer sr))"
proof -
  have "rsv_registration v < length (st_registrations s)" by (rule wf_storeD [OF assms(1,2)])
  moreover have "0 < sr_strong sr" unfolding sr_def by (rule strong_positive [OF assms(1,2)])
  ultimately show ?thesis
    using live_spillers_update [of "rsv_registration v"
        "s\<lparr>st_reservations := (st_reservations s)[i := None]\<rparr>"
        "sr\<lparr>sr_strong := sr_strong sr - 1\<rparr>"]
    by (auto simp: is_live_spiller_def sr_def)
qed

lemma fair_drop_registration_count:
  assumes "wf_store s" and "lookup_reservation s i = Some v"
    and "num_spill (st_pool s) = of_nat (live_spillers s)"
    and "drop_registration fair_impl (s\<lparr>st_reservations := (st_reservations s)[i := None]\<rparr>)
      (rsv_registration v) = Inr t"
  shows "num_spill (st_pool t) = of_nat (live_spillers t)"
proof -
  let ?sr = "st_registrations s ! rsv_registration v"
  have "int (live_spillers t) =
      int (live_spillers s) - of_bool (sr_strong ?sr = 1 \<and> can_spill (sr_consumer ?sr))"
    using assms(4) live_spillers_drop [OF assms(1,2)]
    by (auto simp: drop_registration_def Let_def split: if_splits sum.splits)
  moreover have "num_spill (st_pool t) =
      num_spill (st_pool s) - of_bool (sr_strong ?sr = 1 \<and> can_spill (sr_consumer ?sr))"
    using assms(4)
    by (auto simp: drop_registration_def Let_def fair_impl_def fair_unregister_def checked_sub_def
        split: if_splits sum.splits)
  ultimately show ?thesis
    using assms(3) by (metis of_int_diff of_int_of_bool of_int_of_nat_eq)
qed

lemma fair_drop_registration_ok:
  assumes "wf_store s" and "lookup_reservation s i = Some v"
    and "num_spill (st_pool s) = of_nat (live_spillers s)"
    and "length (st_registrations s) < 2 ^ 64"
  shows "\<exists>t. drop_registration fair_impl (s\<lparr>st_reservations := (st_reservations s)[i := None]\<rparr>)
      (rsv_registration v) = Inr t"
proof -
  let ?sr = "st_registrations s ! rsv_registration v"
  have small: "live_spillers s < 2 ^ 64"
    using assms(4) length_filter_le [of is_live_spiller "st_registrations s"]
    unfolding live_spillers_def by linarith
  have "1 \<le> num_spill (st_pool s)" if "sr_strong ?sr = 1 \<and> can_spill (sr_consumer ?sr)"
    using live_spillers_drop [OF assms(1,2)] that small assms(3)
    by (simp add: word_le_nat_alt unat_of_nat)
  then show ?thesis
    by (auto simp: drop_registration_def Let_def fair_impl_def fair_unregister_def checked_sub_def)
qed

lemma live_spillers_clone:
  assumes "wf_store s" and "lookup_reservation s i = Some v"
  shows "live_spillers (clone_registration s (rsv_registration v)) = live_spillers s"
  using strong_positive [OF assms]
    live_spillers_update [OF wf_storeD [OF assms], of "(st_registrations s ! rsv_registration v)
      \<lparr>sr_strong := Suc (sr_strong (st_registrations s ! rsv_registration v))\<rparr>"]
  by (simp add: clone_registration_def is_live_spiller_def)

lemma fair_effect_count:
  assumes "effect fair_impl G s t" and "wf_store s"
    and "num_spill (st_pool s) = of_nat (live_spillers s)"
  shows "num_spill (st_pool t) = of_nat (live_spillers t)"
  using assms(1)
proof cases
  case (effect_register nm b i)
  then show ?thesis
    using assms(3)
    by (auto simp: register_def fair_impl_def fair_register_def live_spillers_def is_live_spiller_def)
next
  case (effect_split i v n)
  let ?w = "v\<lparr>rsv_size := rsv_size v - n\<rparr>"
  have "wf_store (put_reservation s i ?w)"
    using wf_store_put [OF assms(2) effect_split(2)] by simp
  from live_spillers_clone [OF this lookup_put [OF effect_split(2)]]
  have "live_spillers (clone_registration (put_reservation s i ?w) (rsv_registration v)) =
      live_spillers s"
    by simp
  with effect_split assms(3) show ?thesis
    by (simp add: alloc_reservation_def)
next
  case (effect_drop i v)
  then show ?thesis using assms(2,3) fair_drop_registration_count by blast
qed (use assms(3) in \<open>auto simp: fair_impl_def fair_grow_def fair_shrink_def\<close>)

lemma fair_reachable_count:
  assumes "reachable fair_impl (fair_new k) s"
  shows "wf_store s \<and> num_spill (st_pool s) = of_nat (live_spillers s)"
proof (rule fr.reachable_induct_effect [OF assms])
  show "wf_store (store_new (fair_new k)) \<and>
      num_spill (st_pool (store_new (fair_new k))) = of_nat (live_spillers (store_new (fair_new k)))"
    using wf_store_new [of "fair_new k"] by (simp add: store_new_def fair_new_def live_spillers_def)
qed (auto intro: effect_wf_store fair_effect_count)

lemma free_Inr:
  assumes "lookup_reservation s i = Some v"
  obtains n t where "free I s i = Inr (n, t)" and "st_registrations t = st_registrations s"
    and "lookup_reservation t i = Some (v\<lparr>rsv_size := 0\<rparr>)"
  using assms by (cases "rsv_size v = 0") (auto simp: free_def Let_def)

lemma fair_drop_never_panics:
  assumes "reachable fair_impl (fair_new k) s" and "lookup_reservation s i = Some v"
    and "length (st_registrations s) < 2 ^ 64"
  shows "\<exists>t. drop_reservation fair_impl s i = Inr t"
proof -
  obtain n s1 where f: "free fair_impl s i = Inr (n, s1)"
    and regs: "st_registrations s1 = st_registrations s"
    and v1: "lookup_reservation s1 i = Some (v\<lparr>rsv_size := 0\<rparr>)"
    using free_Inr [OF assms(2)] by blast
  have "reachable fair_impl (fair_new k) s1"
    using assms(1) step_free [OF f] by (rule reachable_step)
  then have "wf_store s1" and "num_spill (st_pool s1) = of_nat (live_spillers s1)"
    using fair_reachable_count by blast+
  from fair_drop_registration_ok [OF this(1) v1 this(2)] show ?thesis
    using assms(2,3) f regs by (simp add: drop_reservation_def)
qed

end
