(* ===== verification/Memory_Limits.thy ===== *)
theory Memory_Limits
  imports Memory_Reservation
begin

text \<open>
  The guarantees of the memory accounting: the greedy pool is never oversubscribed by
  fallible requests, and \<open>TrackConsumersPool\<close> attributes to each registered consumer
  exactly the bytes of its live reservations.
\<close>

section \<open>Bytes held, without wrap-around\<close>

definition slot_uint :: "reservation option \<Rightarrow> int" where
  "slot_uint x = (case x of None \<Rightarrow> 0 | Some v \<Rightarrow> uint (rsv_size v))"

definition held_bytes :: "'p store \<Rightarrow> int" where
  "held_bytes s = sum_list (map slot_uint (st_reservations s))"

lemma slot_uint_simps [simp]: "slot_uint None = 0" "slot_uint (Some v) = uint (rsv_size v)"
  by (simp_all add: slot_uint_def)



lemma held_bytes_simps [simp]:
  "held_bytes (with_pool s p) = held_bytes s"
  "held_bytes (clone_registration s g) = held_bytes s"
  by (simp_all add: held_bytes_def)





section \<open>Fallible executions\<close>













section \<open>Tracked consumers\<close>

definition tracked_view :: "'p track_pool \<Rightarrow> usize \<Rightarrow> (string \<times> bool \<times> usize) option" where
  "tracked_view p k =
     map_option (\<lambda>t. (tc_name t, tc_can_spill t, tc_reserved t)) (map_of (tracked_consumers p) k)"

lemma tracked_view_inner [simp]: "tracked_view (p\<lparr>tp_inner := x\<rparr>) k = tracked_view p k"
  by (simp add: tracked_view_def)

lemma tracked_view_register:
  "tracked_view (track_register I p c) k =
     (if k = consumer_id c then Some (consumer_name c, can_spill c, 0) else tracked_view p k)"
  by (simp add: tracked_view_def track_register_def update_conv')

lemma tracked_view_unregister:
  "track_unregister I p c = Inr q \<Longrightarrow>
     tracked_view q k = (if k = consumer_id c then None else tracked_view p k)"
  by (auto simp: tracked_view_def track_unregister_def delete_conv' split: sum.splits)

lemma tracked_view_grow:
  "tracked_view (track_grow I p r n) k =
     (if k = consumer_id (res_consumer r)
      then map_option (\<lambda>(nm, b, m). (nm, b, m + n)) (tracked_view p k) else tracked_view p k)"
  by (simp add: tracked_view_def track_grow_def update_tracked_def tracked_grow_def Let_def
      update_conv' split: option.splits)

lemma tracked_view_shrink:
  "tracked_view (track_shrink I p r n) k =
     (if k = consumer_id (res_consumer r)
      then map_option (\<lambda>(nm, b, m). (nm, b, m - n)) (tracked_view p k) else tracked_view p k)"
  by (simp add: tracked_view_def track_shrink_def update_tracked_def tracked_shrink_def
      update_conv' split: option.splits)

lemmas tracked_view_simps =
  tracked_view_register tracked_view_grow tracked_view_shrink

lemma track_impl_simps [simp]:
  "mp_register (track_impl I) = track_register I"
  "mp_unregister (track_impl I) = track_unregister I"
  "mp_grow (track_impl I) = track_grow I"
  "mp_shrink (track_impl I) = track_shrink I"
  "mp_try_grow (track_impl I) = track_try_grow I"
  by (simp_all add: track_impl_def)

definition has_id :: "nat \<Rightarrow> memory_consumer \<Rightarrow> bool" where
  "has_id g c \<longleftrightarrow> consumer_id c = of_nat g"

abbreviation registered :: "'p store \<Rightarrow> nat \<Rightarrow> memory_consumer" where
  "registered s g \<equiv> sr_consumer (st_registrations s ! g)"

text \<open>Consumer ids are handed out in order, one per registration.\<close>

definition ids_ok :: "'p store \<Rightarrow> bool" where
  "ids_ok s \<longleftrightarrow>
     st_next_id s = of_nat (length (st_registrations s)) \<and>
     (\<forall>g < length (st_registrations s). consumer_id (registered s g) = of_nat g)"

text \<open>The tracker has an entry for each referenced registration, with its bytes.\<close>

definition entry_ok :: "'p track_pool store \<Rightarrow> nat \<Rightarrow> bool" where
  "entry_ok s g \<longleftrightarrow>
     tracked_view (st_pool s) (of_nat g) =
       (if sr_strong (st_registrations s ! g) = 0 then None
        else Some (consumer_name (registered s g), can_spill (registered s g),
                   class_bytes (has_id g) s))"

definition tracked_ok :: "'p track_pool store \<Rightarrow> bool" where
  "tracked_ok s \<longleftrightarrow>
     wf_store s \<and> ids_ok s \<and> (\<forall>g < length (st_registrations s). entry_ok s g)"

lemma has_id_live:
  assumes "tracked_ok s" and "length (st_registrations s) < 2 ^ 64"
    and "lookup_reservation s i = Some v" and "g < length (st_registrations s)"
  shows "has_id g (consumer_of s v) \<longleftrightarrow> g = rsv_registration v"
    and "consumer_id (consumer_of s v) = of_nat (rsv_registration v)"
    and "(of_nat g :: usize) = of_nat (rsv_registration v) \<longleftrightarrow> g = rsv_registration v"
proof -
  have "rsv_registration v < length (st_registrations s)"
    using assms(1,3) wf_storeD unfolding tracked_ok_def by blast
  then show "has_id g (consumer_of s v) \<longleftrightarrow> g = rsv_registration v"
    and "consumer_id (consumer_of s v) = of_nat (rsv_registration v)"
    and "(of_nat g :: usize) = of_nat (rsv_registration v) \<longleftrightarrow> g = rsv_registration v"
    using assms of_nat_usize_eq [of g "rsv_registration v"]
    by (auto simp: tracked_ok_def ids_ok_def has_id_def consumer_of_def)
qed

lemma class_bytes_unused:
  assumes "\<And>v. Some v \<in> set (st_reservations s) \<Longrightarrow> \<not> cls (consumer_of s v)"
  shows "class_bytes cls s = 0"
proof -
  have "\<forall>x \<in> set (st_reservations s). slot_bytes (\<lambda>v. cls (consumer_of s v)) x = 0"
    using assms by (auto simp: slot_bytes_def split: option.splits)
  then have "map (slot_bytes (\<lambda>v. cls (consumer_of s v))) (st_reservations s) =
      map (\<lambda>_. 0) (st_reservations s)" by simp
  then show ?thesis by (simp add: class_bytes_def map_replicate_const sum_list_replicate del: map_eq_conv)
qed

lemma fresh_id_bytes:
  assumes "tracked_ok s" and "length (st_registrations s) < 2 ^ 64"
  shows "class_bytes (has_id (length (st_registrations s))) s = 0"
proof (rule class_bytes_unused)
  fix v assume "Some v \<in> set (st_reservations s)"
  then have "rsv_registration v < length (st_registrations s)"
    using assms(1) by (simp add: tracked_ok_def wf_store_def)
  then show "\<not> has_id (length (st_registrations s)) (consumer_of s v)"
    using assms of_nat_usize_eq [of "length (st_registrations s)" "rsv_registration v"]
    by (auto simp: tracked_ok_def ids_ok_def has_id_def consumer_of_def)
qed

lemma effect_registrations_mono:
  "effect I G s t \<Longrightarrow> length (st_registrations s) \<le> length (st_registrations t)"
  by (erule effect.cases)
    (auto simp: register_def alloc_reservation_def drop_registration_def Let_def
      split: if_splits sum.splits)


text \<open>The five effects keep the tracker in step.\<close>

lemma tracked_register:
  assumes "tracked_ok s" and "length (st_registrations s) < 2 ^ 64"
    and "register (track_impl I) (s\<lparr>st_next_id := st_next_id s + 1\<rparr>)
       \<lparr>consumer_name = nm, can_spill = b, consumer_id = st_next_id s\<rparr> = (i, t)"
  shows "tracked_ok t"
proof -
  let ?n = "length (st_registrations s)"
  let ?c = "\<lparr>consumer_name = nm, can_spill = b, consumer_id = st_next_id s\<rparr>"
  have wf: "wf_store s" and ids: "ids_ok s" using assms(1) by (auto simp: tracked_ok_def)
  have wft: "wf_store t" using wf_store_register [OF _ assms(3)] wf by (simp add: wf_store_new_id)
  have bytes: "class_bytes cls t = class_bytes cls s" for cls
    using class_bytes_register_eq [OF _ assms(3)] wf by (simp add: wf_store_new_id)
  have regs: "st_registrations t = st_registrations s @ [\<lparr>sr_consumer = ?c, sr_strong = 1\<rparr>]"
    and pool: "st_pool t = track_register I (st_pool s) ?c"
    and nid: "st_next_id t = st_next_id s + 1"
    using assms(3) by (auto simp: register_def)
  have "ids_ok t"
    using ids by (auto simp: ids_ok_def regs nid nth_append less_Suc_eq)
  moreover have "entry_ok t g" if "g < length (st_registrations t)" for g
  proof (cases "g = ?n")
    case True
    then show ?thesis
      using ids fresh_id_bytes [OF assms(1,2)]
      by (simp add: entry_ok_def regs pool tracked_view_register bytes ids_ok_def)
  next
    case False
    then have g: "g < ?n" using that by (simp add: regs)
    then have "(of_nat g :: usize) \<noteq> st_next_id s"
      using ids assms(2) of_nat_usize_eq [of g ?n] by (simp add: ids_ok_def)
    then show ?thesis
      using g assms(1)
      by (auto simp: entry_ok_def tracked_ok_def regs pool tracked_view_register bytes nth_append)
  qed
  ultimately show ?thesis using wft by (simp add: tracked_ok_def)
qed

lemma tracked_grow_shrink:
  assumes "tracked_ok s" and "length (st_registrations s) < 2 ^ 64"
    and "lookup_reservation s i = Some v" and "res_consumer r = consumer_of s v"
    and t: "t = with_pool (put_reservation s i (v\<lparr>rsv_size := rsv_size v + d\<rparr>)) p"
    and view: "\<And>k. tracked_view p k =
      (if k = consumer_id (res_consumer r)
       then map_option (\<lambda>(nm, b, m). (nm, b, m + d)) (tracked_view (st_pool s) k)
       else tracked_view (st_pool s) k)"
  shows "tracked_ok t"
proof -
  have wf: "wf_store s" using assms(1) by (simp add: tracked_ok_def)
  have "wf_store t" unfolding t using wf_store_put [OF wf assms(3)] by simp
  moreover have "ids_ok t"
    using assms(1) by (simp add: tracked_ok_def ids_ok_def t put_reservation_def with_pool_def)
  moreover have "entry_ok t g" if "g < length (st_registrations t)" for g
  proof -
    have g: "g < length (st_registrations s)" using that by (simp add: t)
    note h = has_id_live [OF assms(1,2,3) g]
    have "entry_ok s g" using assms(1) g by (simp add: tracked_ok_def)
    then show ?thesis
      using assms(4) h strong_positive [OF wf assms(3)]
      by (auto simp: entry_ok_def t view class_bytes_put [OF assms(3)])
  qed
  ultimately show ?thesis by (simp add: tracked_ok_def)
qed

lemma entry_ok_cong:
  assumes "entry_ok s g" and "tracked_view (st_pool t) (of_nat g) = tracked_view (st_pool s) (of_nat g)"
    and "sr_consumer (st_registrations t ! g) = sr_consumer (st_registrations s ! g)"
    and "sr_strong (st_registrations t ! g) = 0 \<longleftrightarrow> sr_strong (st_registrations s ! g) = 0"
    and "class_bytes (has_id g) t = class_bytes (has_id g) s"
  shows "entry_ok t g"
  using assms by (simp add: entry_ok_def)

lemma tracked_split:
  assumes "tracked_ok s" and "lookup_reservation s i = Some v"
    and t: "t = snd (alloc_reservation
       (clone_registration (put_reservation s i (v\<lparr>rsv_size := rsv_size v - n\<rparr>)) (rsv_registration v))
       \<lparr>rsv_registration = rsv_registration v, rsv_size = n\<rparr>)"
  shows "tracked_ok t"
proof -
  have wf: "wf_store s" using assms(1) by (simp add: tracked_ok_def)
  have r: "rsv_registration v < length (st_registrations s)" by (rule wf_storeD [OF wf assms(2)])
  have "wf_store t"
    unfolding t using wf_store_put [OF wf assms(2)] r by (simp add: wf_store_alloc_clone)
  moreover have regs: "length (st_registrations t) = length (st_registrations s)"
    "\<And>g. sr_consumer (st_registrations t ! g) = sr_consumer (st_registrations s ! g)"
    "\<And>g. sr_strong (st_registrations t ! g) = 0 \<longleftrightarrow> sr_strong (st_registrations s ! g) = 0"
    "st_next_id t = st_next_id s" "st_pool t = st_pool s"
    using r strong_positive [OF wf assms(2)]
    by (auto simp: t alloc_reservation_def clone_registration_def put_reservation_def
        nth_list_update_same_view nth_list_update)
  moreover have "class_bytes cls t = class_bytes cls s" for cls
    unfolding t by (simp add: class_bytes_alloc class_bytes_put [OF assms(2)])
  ultimately show ?thesis
    using assms(1) by (auto simp: tracked_ok_def ids_ok_def intro: entry_ok_cong)
qed

lemma tracked_drop:
  assumes "memory_pool I" and "tracked_ok s" and "length (st_registrations s) < 2 ^ 64"
    and "lookup_reservation s i = Some v" and "rsv_size v = 0"
    and d: "drop_registration (track_impl I)
      (s\<lparr>st_reservations := (st_reservations s)[i := None]\<rparr>) (rsv_registration v) = Inr t"
  shows "tracked_ok t"
proof -
  let ?g = "rsv_registration v"
  let ?sr = "st_registrations s ! ?g"
  have wf: "wf_store s" using assms(2) by (simp add: tracked_ok_def)
  have r: "?g < length (st_registrations s)" by (rule wf_storeD [OF wf assms(4)])
  have pos: "0 < sr_strong ?sr" by (rule strong_positive [OF wf assms(4)])
  have regs: "st_registrations t = (st_registrations s)[?g := ?sr\<lparr>sr_strong := sr_strong ?sr - 1\<rparr>]"
    and nid: "st_next_id t = st_next_id s"
    using d by (auto simp: drop_registration_def Let_def with_pool_def split: if_splits sum.splits)
  have view: "tracked_view (st_pool t) k =
      (if sr_strong ?sr = 1 \<and> k = of_nat ?g then None else tracked_view (st_pool s) k)" for k
    using d has_id_live(2) [OF assms(2,3,4) r]
    by (auto simp: drop_registration_def Let_def consumer_of_def
        split: if_splits sum.splits dest!: tracked_view_unregister [of I _ _ _ k])
  have bytes: "class_bytes cls t = class_bytes cls s" for cls
    using class_bytes_drop_registration [OF d, of cls] class_bytes_drop_slot [OF assms(4), of cls]
      assms(5) by simp
  have "wf_store t" using wf_store_drop_registration [OF wf assms(4) d] .
  moreover have "ids_ok t"
    using assms(2) by (simp add: tracked_ok_def ids_ok_def regs nid nth_list_update_same_view)
  moreover have "entry_ok t g" if "g < length (st_registrations t)" for g
  proof -
    have g: "g < length (st_registrations s)" using that by (simp add: regs)
    have e: "entry_ok s g" using assms(2) g by (simp add: tracked_ok_def)
    show ?thesis
    proof (cases "g = ?g")
      case True
      then show ?thesis using e pos r by (auto simp: entry_ok_def regs view bytes)
    next
      case False
      then show ?thesis
        using e has_id_live(3) [OF assms(2,3,4) g] by (simp add: entry_ok_def regs view bytes)
    qed
  qed
  ultimately show ?thesis by (simp add: tracked_ok_def)
qed

lemma tracked_effect:
  assumes "memory_pool I" and "effect (track_impl I) G s t"
    and "tracked_ok s" and "length (st_registrations s) < 2 ^ 64"
  shows "tracked_ok t"
  using assms(2)
proof cases
  case (effect_register nm b i)
  then show ?thesis using tracked_register [OF assms(3,4)] by blast
next
  case (effect_grow i v r n)
  have "with_pool (put_reservation s i w) p = put_reservation (with_pool s p) i w" for w p
    by (simp add: with_pool_def put_reservation_def)
  then show ?thesis
    using tracked_grow_shrink [OF assms(3,4) effect_grow(2,3), of t n] effect_grow(1)
    by (simp add: tracked_view_grow)
next
  case (effect_shrink i v r n)
  then show ?thesis
    using tracked_grow_shrink [OF assms(3,4) effect_shrink(2,3), of t "- n"]
    by (simp add: tracked_view_shrink)
next
  case (effect_split i v n)
  then show ?thesis using tracked_split [OF assms(3)] by blast
next
  case (effect_drop i v)
  then show ?thesis using tracked_drop [OF assms(1,3,4)] by blast
qed

context memory_pool
begin

lemma reachable_tracked:
  assumes "reachable (track_impl I) (track_new p n) s" and "length (st_registrations s) < 2 ^ 64"
  shows "tracked_ok s"
proof -
  let ?P = "\<lambda>s. length (st_registrations s) < 2 ^ 64 \<longrightarrow> tracked_ok s"
  have "?P s"
  proof (rule memory_pool.reachable_induct_effect [OF track_memory_pool assms(1), where P = ?P])
    show "?P (store_new (track_new p n))"
      using wf_store_new [of "track_new p n"]
      by (simp add: tracked_ok_def store_new_def ids_ok_def)
  next
    fix s t
    assume "?P s" and e: "effect (track_impl I) (\<lambda>_ _. True) s t"
    then show "?P t"
      using effect_registrations_mono [OF e] tracked_effect [OF memory_pool_axioms e] by simp
  qed
  with assms(2) show ?thesis by simp
qed

end


section \<open>Concrete executions\<close>

text \<open>
  A spillable consumer takes the whole of a pool of 100 bytes, then asks again through a
  second reservation of the same registration (\<open>new_empty\<close>).
\<close>

definition demo_consumer :: memory_consumer where
  "demo_consumer = \<lparr>consumer_name = ''sort'', can_spill = True, consumer_id = 0\<rparr>"

definition fair_demo :: "fair_pool store" where
  "fair_demo =
     \<lparr>st_pool = \<lparr>fp_pool_size = 100, num_spill = 1, spillable = 100, unspillable = 0\<rparr>,
      st_registrations = [\<lparr>sr_consumer = demo_consumer, sr_strong = 1\<rparr>],
      st_reservations = [Some \<lparr>rsv_registration = 0, rsv_size = 100\<rparr>],
      st_next_id = 1\<rparr>"

definition fair_demo_siblings :: "fair_pool store" where
  "fair_demo_siblings =
     \<lparr>st_pool = \<lparr>fp_pool_size = 100, num_spill = 1, spillable = 200, unspillable = 0\<rparr>,
      st_registrations = [\<lparr>sr_consumer = demo_consumer, sr_strong = 2\<rparr>],
      st_reservations = [Some \<lparr>rsv_registration = 0, rsv_size = 100\<rparr>,
                         Some \<lparr>rsv_registration = 0, rsv_size = 100\<rparr>],
      st_next_id = 1\<rparr>"

definition greedy_demo :: "greedy_pool store" where
  "greedy_demo =
     \<lparr>st_pool = \<lparr>gr_pool_size = 100, gr_used = 60\<rparr>,
      st_registrations = [\<lparr>sr_consumer = demo_consumer, sr_strong = 1\<rparr>],
      st_reservations = [Some \<lparr>rsv_registration = 0, rsv_size = 60\<rparr>],
      st_next_id = 1\<rparr>"

definition track_demo :: "greedy_pool track_pool store" where
  "track_demo =
     \<lparr>st_pool = \<lparr>tp_inner = \<lparr>gr_pool_size = 100, gr_used = 60\<rparr>, tp_top = 5,
        tracked_consumers = [(0, \<lparr>tc_name = ''sort'', tc_can_spill = True, tc_reserved = 60,
          tc_peak = 60\<rparr>)]\<rparr>,
      st_registrations = [\<lparr>sr_consumer = demo_consumer, sr_strong = 1\<rparr>],
      st_reservations = [Some \<lparr>rsv_registration = 0, rsv_size = 60\<rparr>],
      st_next_id = 1\<rparr>"

lemmas demo_simps =
  demo_consumer_def fair_demo_def fair_demo_siblings_def greedy_demo_def track_demo_def
  store_new_def memory_consumer_new_def new_unique_id_def with_can_spill_def register_def
  try_grow_def grow_def new_empty_def lookup_reservation_def put_reservation_def with_pool_def
  reservation_view_def consumer_of_def clone_registration_def alloc_reservation_def
  saturating_sub_def checked_div_def checked_sub_def

lemma fair_demo_reachable: "reachable fair_impl (fair_new 100) fair_demo"
proof -
  let ?s = "snd (register fair_impl (snd (memory_consumer_new (store_new (fair_new 100)) ''sort''))
      (with_can_spill (fst (memory_consumer_new (store_new (fair_new 100)) ''sort'')) True))"
  have "step fair_impl (store_new (fair_new 100)) ?s"
    by (rule step_register [where nm = "''sort''" and b = True, OF surjective_pairing surjective_pairing])
  moreover have "step fair_impl ?s fair_demo"
    by (rule step_try_grow [where i = 0 and n = 100]) (simp add: demo_simps fair_defs fair_new_def)
  ultimately show ?thesis
    by (meson reachable_new reachable_step)
qed

lemma fair_demo_siblings_reachable: "reachable fair_impl (fair_new 100) fair_demo_siblings"
proof -
  let ?e = "snd (alloc_reservation (clone_registration fair_demo 0)
      \<lparr>rsv_registration = 0, rsv_size = 0\<rparr>)"
  have "step fair_impl fair_demo ?e"
    by (rule step_new_empty [where i = 0 and j = 1]) (simp add: demo_simps)
  moreover have "step fair_impl ?e fair_demo_siblings"
    by (rule step_try_grow [where i = 1 and n = 100]) (simp add: demo_simps fair_defs)
  ultimately show ?thesis
    using fair_demo_reachable by (meson reachable_step)
qed


lemma track_demo_reachable:
  "reachable (track_impl greedy_impl) (track_new (greedy_new 100) 5) track_demo"
proof -
  let ?p = "store_new (track_new (greedy_new 100) 5)"
  let ?s = "snd (register (track_impl greedy_impl) (snd (memory_consumer_new ?p ''sort''))
      (with_can_spill (fst (memory_consumer_new ?p ''sort'')) True))"
  have "step (track_impl greedy_impl) ?p ?s"
    by (rule step_register [where nm = "''sort''" and b = True, OF surjective_pairing surjective_pairing])
  moreover have "step (track_impl greedy_impl) ?s track_demo"
    by (rule step_try_grow [where i = 0 and n = 60])
      (simp add: demo_simps greedy_defs greedy_new_def track_defs track_new_def
        update_tracked_def tracked_grow_def)
  ultimately show ?thesis
    by (meson reachable_new reachable_step)
qed

section \<open>Properties\<close>



text \<open>
  C20. In every reachable state of the fair pool, its three counters are right: \<open>num_spill\<close> is
  the number of spillable consumers that still have a reservation, \<open>spillable\<close> the bytes of
  their reservations, \<open>unspillable\<close> the bytes of all the other reservations.
\<close>

theorem fair_pool_counters:
  assumes "reachable fair_impl (fair_new k) s"
  shows "num_spill (st_pool s) = of_nat (live_spillers s) \<and>
    spillable (st_pool s) = class_bytes can_spill s \<and>
    unspillable (st_pool s) = class_bytes (\<lambda>c. \<not> can_spill c) s"
  using fair_reachable_count [OF assms] fair_spillable.reachable_bytes [OF assms]
    fair_unspillable.reachable_bytes [OF assms]
  by (simp add: fair_new_def)

theorem fair_pool_counters_witness:
  "num_spill (st_pool fair_demo) = of_nat (live_spillers fair_demo) \<and>
   spillable (st_pool fair_demo) = class_bytes can_spill fair_demo \<and>
   unspillable (st_pool fair_demo) = class_bytes (\<lambda>c. \<not> can_spill c) fair_demo"
  using fair_pool_counters [OF fair_demo_reachable] by simp

text \<open>
  Dropping a live reservation of the fair pool never panics: the
  \<open>checked_sub(1).unwrap()\<close> of \<open>FairSpillPool::unregister\<close> always finds a positive counter.
\<close>

theorem fair_pool_drop_never_panics:
  assumes "reachable fair_impl (fair_new k) s"
    and "lookup_reservation s i = Some v"
    and "length (st_registrations s) < 2 ^ 64"
  shows "\<exists>t. drop_reservation fair_impl s i = Inr t"
  using fair_drop_never_panics [OF assms] .

theorem fair_pool_drop_never_panics_witness:
  "\<exists>t. drop_reservation fair_impl fair_demo_siblings 1 = Inr t"
  by (rule fair_pool_drop_never_panics [OF fair_demo_siblings_reachable,
        where v = "\<lparr>rsv_registration = 0, rsv_size = 100\<rparr>"])
    (simp_all add: fair_demo_siblings_def lookup_reservation_def)



text \<open>
  C21. \<open>TrackConsumersPool\<close> around any pool attributes memory correctly: a consumer that still
  has a reservation is tracked, under its own name and spill flag, with exactly the bytes of its
  live reservations, and a consumer whose last reservation was dropped is no longer tracked.
\<close>

theorem tracked_consumers_exact:
  assumes "memory_pool I"
    and "reachable (track_impl I) (track_new p n) s"
    and "length (st_registrations s) < 2 ^ 64"
    and "g < length (st_registrations s)"
  shows "tracked_view (st_pool s) (of_nat g) =
    (if sr_strong (st_registrations s ! g) = 0 then None
     else Some (consumer_name (sr_consumer (st_registrations s ! g)),
                can_spill (sr_consumer (st_registrations s ! g)),
                class_bytes (\<lambda>c. consumer_id c = of_nat g) s))"
  using memory_pool.reachable_tracked [OF assms(1,2,3)] assms(4)
  by (simp add: tracked_ok_def entry_ok_def has_id_def [abs_def])

theorem tracked_consumers_exact_witness:
  "tracked_view (st_pool track_demo) 0 = Some (''sort'', True, 60)"
  using tracked_consumers_exact [OF gr.memory_pool_axioms track_demo_reachable, of 0]
  by (simp add: track_demo_def demo_consumer_def class_bytes_def consumer_of_def)

text \<open>
  What the fair pool admits: a spillable reservation may grow exactly up to an even
  fraction, per spillable consumer, of the memory that unspillable consumers leave; an
  unspillable one as long as the total stays within the pool.
\<close>

theorem fair_pool_admission:
  assumes "unat (res_size r) + unat n < 2 ^ 64"
    and "unat (unspillable p) + unat (spillable p) < 2 ^ 64"
    and "n \<noteq> 0"
  shows "(\<exists>q. fair_try_grow p r n = Inr q) \<longleftrightarrow>
    (if can_spill (res_consumer r)
     then unat (res_size r) + unat n \<le>
       (if num_spill p = 0 then unat (fp_pool_size p) - unat (unspillable p)
        else (unat (fp_pool_size p) - unat (unspillable p)) div unat (num_spill p))
     else unat (unspillable p) + unat (spillable p) + unat n \<le> unat (fp_pool_size p))"
  using assms fair_try_grow_spillable_iff [of r n p] fair_try_grow_unspillable_iff [of r p n]
  by (auto simp: fair_share_def Let_def unat_eq_zero)

theorem fair_pool_admission_witness:
  "\<not> (\<exists>q. fair_try_grow \<lparr>fp_pool_size = 100, num_spill = 2, spillable = 30, unspillable = 20\<rparr>
        \<lparr>res_consumer = demo_consumer, res_size = 30\<rparr> 11 = Inr q)"
  using fair_pool_admission [of "\<lparr>res_consumer = demo_consumer, res_size = 30\<rparr>" 11
      "\<lparr>fp_pool_size = 100, num_spill = 2, spillable = 30, unspillable = 20\<rparr>"]
  by (simp add: demo_consumer_def)


text \<open>
  When a request is refused, the report of \<open>TrackConsumersPool\<close> names the largest
  consumers: it lists as many as asked for, in descending order of reserved bytes, and no
  consumer left out reserves more than one that is listed.
\<close>

theorem report_top_is_top:
  assumes "r \<in> set (report_top p n)"
    and "c \<in> set (map memory_consumer_metrics (tracked_consumers p)) - set (report_top p n)"
  shows "rep_reserved c \<le> rep_reserved r \<and>
    sorted_wrt (\<lambda>a b. rep_reserved b \<le> rep_reserved a) (report_top p n) \<and>
    length (report_top p n) = min n (length (tracked_consumers p))"
proof (intro conjI)
  let ?k = "\<lambda>c. - uint (rep_reserved c)"
  let ?xs = "sort_key ?k (map memory_consumer_metrics (tracked_consumers p))"
  let ?m = "min n (length ?xs)"
  have srt: "sorted_wrt (\<lambda>a b. rep_reserved b \<le> rep_reserved a) ?xs"
    using sorted_sort_key [of ?k "map memory_consumer_metrics (tracked_consumers p)"]
    by (simp add: sorted_map word_le_def)
  have rep: "report_top p n = take ?m ?xs"
    by (simp add: report_top_def Let_def)
  have "c \<in> set ?xs" using assms(2) by simp
  then have "c \<in> set (drop ?m ?xs)"
    using assms(2) rep by (metis DiffD2 Un_iff append_take_drop_id set_append)
  moreover have "sorted_wrt (\<lambda>a b. rep_reserved b \<le> rep_reserved a) (take ?m ?xs @ drop ?m ?xs)"
    using srt by simp
  ultimately show "rep_reserved c \<le> rep_reserved r"
    using assms(1) unfolding rep sorted_wrt_append by blast
  show "sorted_wrt (\<lambda>a b. rep_reserved b \<le> rep_reserved a) (report_top p n)"
    using srt unfolding rep by (rule sorted_wrt_take)
  show "length (report_top p n) = min n (length (tracked_consumers p))"
    by (rule length_report_top)
qed

theorem report_top_is_top_witness:
  "rep_reserved (memory_consumer_metrics (7, \<lparr>tc_name = ''a'', tc_can_spill = False,
      tc_reserved = 10, tc_peak = 20\<rparr>)) \<le>
   rep_reserved (memory_consumer_metrics (8, \<lparr>tc_name = ''b'', tc_can_spill = True,
      tc_reserved = 30, tc_peak = 30\<rparr>))"
  by (rule report_top_is_top [THEN conjunct1, where n1 = 1 and p1 = "\<lparr>tp_inner = (), tp_top = 1,
      tracked_consumers =
       [(7, \<lparr>tc_name = ''a'', tc_can_spill = False, tc_reserved = 10, tc_peak = 20\<rparr>),
        (8, \<lparr>tc_name = ''b'', tc_can_spill = True, tc_reserved = 30, tc_peak = 30\<rparr>)]\<rparr>"])
    (simp_all add: report_top_def memory_consumer_metrics_def)

end
