(* ===== verification/Lru_Queue.thy ===== *)
theory Lru_Queue
  imports Prelude "HOL-Library.AList"
begin

text \<open>
  \<open>LruQueue\<close> of \<open>execution/src/cache/lru_queue.rs\<close>: a hash map from keys to nodes and
  values, and a doubly linked list of weak pointers that keeps the nodes in order of use.
  The nodes live in an explicit heap; an address is allocated while the map holds its strong
  reference.  Upgrading a dangling weak pointer panics in the source, which is the value
  \<open>None\<close> of an operation here.  The abstraction is the list of entries from the most to the
  least recently used one; \<open>lru_contract\<close> states every operation on that list.
\<close>

section \<open>Data\<close>

record 'k lru_node =
  node_key :: 'k
  node_prev :: "nat option"
  node_next :: "nat option"

type_synonym 'k node_heap = "nat \<Rightarrow> 'k lru_node option"

record ('k, 'v) lru_queue =
  lq_data :: "('k \<times> (nat \<times> 'v)) list"
  lq_head :: "nat option"
  lq_tail :: "nat option"
  lq_nodes :: "'k node_heap"
  lq_fresh :: nat

section \<open>Operations\<close>

definition lru_new :: "('k, 'v) lru_queue" where
  "lru_new = \<lparr>lq_data = [], lq_head = None, lq_tail = None, lq_nodes = (\<lambda>_. None), lq_fresh = 0\<rparr>"

text \<open>\<open>link.upgrade().expect(..).lock().prev = l\<close>, and the same for \<open>next\<close>.\<close>

definition set_prev :: "nat \<Rightarrow> nat option \<Rightarrow> 'k node_heap \<Rightarrow> 'k node_heap option" where
  "set_prev a l h =
     (case h a of None \<Rightarrow> None | Some nd \<Rightarrow> Some (h(a \<mapsto> nd\<lparr>node_prev := l\<rparr>)))"

definition set_next :: "nat \<Rightarrow> nat option \<Rightarrow> 'k node_heap \<Rightarrow> 'k node_heap option" where
  "set_next a l h =
     (case h a of None \<Rightarrow> None | Some nd \<Rightarrow> Some (h(a \<mapsto> nd\<lparr>node_next := l\<rparr>)))"

text \<open>Unlinking the node at \<open>a\<close>: the four cases of the \<open>match\<close>, then the node is freed.\<close>

definition unlink :: "nat \<Rightarrow> ('k, 'v) lru_queue \<Rightarrow> ('k, 'v) lru_queue option" where
  "unlink a q =
     (case lq_nodes q a of
        None \<Rightarrow> None
      | Some nd \<Rightarrow>
          (case (node_prev nd, node_next nd) of
             (None, None) \<Rightarrow>
               Some (q\<lparr>lq_head := None, lq_tail := None, lq_nodes := (lq_nodes q)(a := None)\<rparr>)
           | (None, Some n) \<Rightarrow>
               (case set_prev n None (lq_nodes q) of
                  None \<Rightarrow> None
                | Some h \<Rightarrow> Some (q\<lparr>lq_head := Some n, lq_nodes := h(a := None)\<rparr>))
           | (Some p, None) \<Rightarrow>
               (case set_next p None (lq_nodes q) of
                  None \<Rightarrow> None
                | Some h \<Rightarrow> Some (q\<lparr>lq_tail := Some p, lq_nodes := h(a := None)\<rparr>))
           | (Some p, Some n) \<Rightarrow>
               (case set_prev n (Some p) (lq_nodes q) of
                  None \<Rightarrow> None
                | Some h \<Rightarrow>
                    (case set_next p (Some n) h of
                       None \<Rightarrow> None
                     | Some h' \<Rightarrow> Some (q\<lparr>lq_nodes := h'(a := None)\<rparr>)))))"

definition lru_remove ::
  "('k, 'v) lru_queue \<Rightarrow> 'k \<Rightarrow> ('v option \<times> ('k, 'v) lru_queue) option" where
  "lru_remove q key =
     (case map_of (lq_data q) key of
        None \<Rightarrow> Some (None, q)
      | Some (old_node, old_value) \<Rightarrow>
          map_option (Pair (Some old_value))
            (unlink old_node (q\<lparr>lq_data := AList.delete key (lq_data q)\<rparr>)))"

definition lru_put ::
  "('k, 'v) lru_queue \<Rightarrow> 'k \<Rightarrow> 'v \<Rightarrow> ('v option \<times> ('k, 'v) lru_queue) option" where
  "lru_put q key v =
     (case lru_remove q key of
        None \<Rightarrow> None
      | Some (old_value, q1) \<Rightarrow>
          (let a = lq_fresh q1;
               node = \<lparr>node_key = key, node_prev = None, node_next = None\<rparr>;
               h = (lq_nodes q1)(a \<mapsto> node)
           in case lq_head q1 of
                Some old_head \<Rightarrow>
                  (case set_prev old_head (Some a) h of
                     None \<Rightarrow> None
                   | Some h1 \<Rightarrow>
                       Some (old_value,
                         q1\<lparr>lq_head := Some a,
                            lq_nodes := h1(a \<mapsto> node\<lparr>node_next := Some old_head\<rparr>),
                            lq_data := AList.update key (a, v) (lq_data q1),
                            lq_fresh := Suc a\<rparr>))
              | None \<Rightarrow>
                  Some (old_value,
                    q1\<lparr>lq_head := Some a, lq_tail := Some a, lq_nodes := h,
                       lq_data := AList.update key (a, v) (lq_data q1),
                       lq_fresh := Suc a\<rparr>)))"

definition lru_peek :: "('k, 'v) lru_queue \<Rightarrow> 'k \<Rightarrow> 'v option" where
  "lru_peek q key = map_option snd (map_of (lq_data q) key)"

definition lru_contains_key :: "('k, 'v) lru_queue \<Rightarrow> 'k \<Rightarrow> bool" where
  "lru_contains_key q key = (map_of (lq_data q) key \<noteq> None)"

definition lru_get ::
  "('k, 'v) lru_queue \<Rightarrow> 'k \<Rightarrow> ('v option \<times> ('k, 'v) lru_queue) option" where
  "lru_get q key =
     (case lru_remove q key of
        None \<Rightarrow> None
      | Some (None, q1) \<Rightarrow> Some (lru_peek q1 key, q1)
      | Some (Some v, q1) \<Rightarrow>
          (case lru_put q1 key v of
             None \<Rightarrow> None
           | Some (_, q2) \<Rightarrow> Some (lru_peek q2 key, q2)))"

definition lru_pop ::
  "('k, 'v) lru_queue \<Rightarrow> (('k \<times> 'v) option \<times> ('k, 'v) lru_queue) option" where
  "lru_pop q =
     (case lq_tail q of
        None \<Rightarrow> Some (None, q)
      | Some a \<Rightarrow>
          (case lq_nodes q a of
             None \<Rightarrow> None
           | Some nd \<Rightarrow>
               (case lru_remove q (node_key nd) of
                  None \<Rightarrow> None
                | Some (None, _) \<Rightarrow> None
                | Some (Some v, q1) \<Rightarrow> Some (Some (node_key nd, v), q1))))"

definition lru_len :: "('k, 'v) lru_queue \<Rightarrow> nat" where
  "lru_len q = length (lq_data q)"

definition lru_is_empty :: "('k, 'v) lru_queue \<Rightarrow> bool" where
  "lru_is_empty q = (lq_data q = [])"

text \<open>Clearing drops every strong reference.\<close>

definition lru_clear :: "('k, 'v) lru_queue \<Rightarrow> ('k, 'v) lru_queue" where
  "lru_clear q = q\<lparr>lq_head := None, lq_tail := None, lq_data := [], lq_nodes := (\<lambda>_. None)\<rparr>"

definition lru_list_entries :: "('k, 'v) lru_queue \<Rightarrow> ('k \<times> 'v) list" where
  "lru_list_entries q = map (\<lambda>(k, (_, v)). (k, v)) (lq_data q)"

definition lru_keys :: "('k, 'v) lru_queue \<Rightarrow> 'k list" where
  "lru_keys q = map fst (lq_data q)"

section \<open>Doubly linked segments\<close>

type_synonym ('k, 'v) cell = "nat \<times> 'k \<times> 'v"

fun first_addr :: "('k, 'v) cell list \<Rightarrow> nat option \<Rightarrow> nat option" where
  "first_addr [] d = d"
| "first_addr ((a, _) # _) d = Some a"

fun last_addr :: "('k, 'v) cell list \<Rightarrow> nat option \<Rightarrow> nat option" where
  "last_addr [] d = d"
| "last_addr ((a, _) # zs) d = last_addr zs (Some a)"

text \<open>
  \<open>dlseg h p zs n\<close>: the nodes of \<open>zs\<close> are chained in the heap in both directions, between a
  left neighbour \<open>p\<close> and a right neighbour \<open>n\<close>.
\<close>

fun dlseg :: "'k node_heap \<Rightarrow> nat option \<Rightarrow> ('k, 'v) cell list \<Rightarrow> nat option \<Rightarrow> bool" where
  "dlseg h p [] n = True"
| "dlseg h p ((a, k, v) # zs) n =
     (h a = Some \<lparr>node_key = k, node_prev = p, node_next = first_addr zs n\<rparr> \<and>
      dlseg h (Some a) zs n)"

lemma first_addr_append: "first_addr (xs @ ys) n = first_addr xs (first_addr ys n)"
  by (cases xs) auto

lemma last_addr_append: "last_addr (xs @ ys) n = last_addr ys (last_addr xs n)"
  by (induction xs arbitrary: n) auto

lemma last_addr_snoc [simp]: "last_addr (xs @ [(a, k, v)]) n = Some a"
  by (simp add: last_addr_append)

lemma dlseg_append:
  "dlseg h p (xs @ ys) n \<longleftrightarrow> dlseg h p xs (first_addr ys n) \<and> dlseg h (last_addr xs p) ys n"
  by (induction xs arbitrary: p) (auto simp: first_addr_append)

lemma dlseg_frame:
  assumes "a \<notin> fst ` set zs"
  shows "dlseg (h(a := x)) p zs n = dlseg h p zs n"
  using assms by (induction zs arbitrary: p) auto

lemma dlseg_set_first_prev:
  assumes "dlseg h p zs n" and "zs = (a, k, v) # ys" and "a \<notin> fst ` set ys"
  shows "set_prev a q h = Some (h(a \<mapsto> \<lparr>node_key = k, node_prev = q, node_next = first_addr ys n\<rparr>))"
    and "dlseg (h(a \<mapsto> \<lparr>node_key = k, node_prev = q, node_next = first_addr ys n\<rparr>)) q zs n"
  using assms by (auto simp: set_prev_def dlseg_frame)

lemma dlseg_set_last_next:
  assumes "dlseg h p zs n" and "zs = xs @ [(a, k, v)]" and "a \<notin> fst ` set xs"
  shows "set_next a m h =
      Some (h(a \<mapsto> \<lparr>node_key = k, node_prev = last_addr xs p, node_next = m\<rparr>))"
    and "dlseg (h(a \<mapsto> \<lparr>node_key = k, node_prev = last_addr xs p, node_next = m\<rparr>)) p zs m"
  using assms by (auto simp: set_next_def dlseg_frame dlseg_append)

lemma last_addr_cases:
  obtains "xs = []" | ys a k v where "xs = ys @ [(a, k, v)]"
  by (metis prod_cases3 rev_exhaust)

section \<open>Representation\<close>

definition cell_binding :: "('k, 'v) cell \<Rightarrow> 'k \<times> (nat \<times> 'v)" where
  "cell_binding = (\<lambda>(a, k, v). (k, (a, v)))"

definition cell_entry :: "('k, 'v) cell \<Rightarrow> 'k \<times> 'v" where
  "cell_entry = (\<lambda>(a, k, v). (k, v))"

abbreviation cell_key :: "('k, 'v) cell \<Rightarrow> 'k" where
  "cell_key z \<equiv> fst (snd z)"

definition represents :: "('k, 'v) lru_queue \<Rightarrow> ('k, 'v) cell list \<Rightarrow> bool" where
  "represents q zs \<longleftrightarrow>
     dlseg (lq_nodes q) None zs None \<and>
     lq_head q = first_addr zs None \<and> lq_tail q = last_addr zs None \<and>
     distinct (map fst zs) \<and> distinct (map cell_key zs) \<and>
     (\<forall>z \<in> set zs. fst z < lq_fresh q) \<and>
     distinct (map fst (lq_data q)) \<and>
     map_of (lq_data q) = map_of (map cell_binding zs)"


lemma unlink_dlseg:
  assumes seg: "dlseg (lq_nodes q) None (xs @ (a, k, v) # ys) None"
    and dist: "distinct (map fst (xs @ (a, k, v) # ys))"
    and hd: "lq_head q = first_addr (xs @ (a, k, v) # ys) None"
    and tl: "lq_tail q = last_addr (xs @ (a, k, v) # ys) None"
  obtains h where "unlink a q =
      Some (q\<lparr>lq_head := first_addr (xs @ ys) None, lq_tail := last_addr (xs @ ys) None, lq_nodes := h\<rparr>)"
    and "dlseg h None (xs @ ys) None"
proof -
  let ?h = "lq_nodes q"
  have left: "dlseg ?h None xs (Some a)" and right: "dlseg ?h (Some a) ys None"
    and node: "?h a = Some \<lparr>node_key = k, node_prev = last_addr xs None, node_next = first_addr ys None\<rparr>"
    using seg by (auto simp: dlseg_append)
  have axs: "a \<notin> fst ` set xs" and ays: "a \<notin> fst ` set ys"
    and disj: "fst ` set xs \<inter> fst ` set ys = {}"
    using dist by (auto simp: image_iff)
  have q_eta: "q\<lparr>lq_head := lq_head q\<rparr> = q" "q\<lparr>lq_tail := lq_tail q\<rparr> = q" by simp_all
  consider (only) "xs = []" "ys = []"
    | (first) n kn vn ys' where "xs = []" "ys = (n, kn, vn) # ys'"
    | (last) xs' p kp vp where "xs = xs' @ [(p, kp, vp)]" "ys = []"
    | (middle) xs' p kp vp n kn vn ys' where "xs = xs' @ [(p, kp, vp)]" "ys = (n, kn, vn) # ys'"
    by (metis prod_cases3 rev_exhaust neq_Nil_conv)
  then show thesis
  proof cases
    case only
    then show thesis using that node by (simp add: unlink_def)
  next
    case first
    have nys: "n \<notin> fst ` set ys'" using dist first by auto
    note sp = dlseg_set_first_prev [OF right first(2) nys, of None]
    let ?h1 = "?h(n \<mapsto> \<lparr>node_key = kn, node_prev = None, node_next = first_addr ys' None\<rparr>)"
    have "dlseg (?h1(a := None)) None ys None"
      using sp(2) ays by (simp add: dlseg_frame)
    moreover have "lq_tail q = last_addr ys None" using tl first by simp
    ultimately show thesis
      using that [of "?h1(a := None)"] first node sp(1) by (simp add: unlink_def)
  next
    case last
    have pxs: "p \<notin> fst ` set xs'" using dist last by auto
    note sn = dlseg_set_last_next [OF left last(1) pxs, of None]
    let ?h1 = "?h(p \<mapsto> \<lparr>node_key = kp, node_prev = last_addr xs' None, node_next = None\<rparr>)"
    have "dlseg (?h1(a := None)) None xs None"
      using sn(2) axs by (simp add: dlseg_frame)
    moreover have "lq_head q = first_addr xs None" using hd last by (simp add: first_addr_append)
    ultimately show thesis
      using that [of "?h1(a := None)"] last node sn(1) by (simp add: unlink_def)
  next
    case middle
    have nys: "n \<notin> fst ` set ys'" and pxs: "p \<notin> fst ` set xs'" using dist middle by auto
    have pys: "p \<notin> fst ` set ys" and nxs: "n \<notin> fst ` set xs" using disj middle by auto
    note sp = dlseg_set_first_prev [OF right middle(2) nys, of "Some p"]
    let ?h1 = "?h(n \<mapsto> \<lparr>node_key = kn, node_prev = Some p, node_next = first_addr ys' None\<rparr>)"
    have left1: "dlseg ?h1 None xs (Some a)" using left nxs by (simp add: dlseg_frame)
    note sn = dlseg_set_last_next [OF left1 middle(1) pxs, of "Some n"]
    let ?h2 = "?h1(p \<mapsto> \<lparr>node_key = kp, node_prev = last_addr xs' None, node_next = Some n\<rparr>)"
    have "dlseg (?h2(a := None)) None xs (Some n)" using sn(2) axs by (simp add: dlseg_frame)
    moreover have "dlseg (?h2(a := None)) (Some p) ys None" using sp(2) pys ays by (simp add: dlseg_frame)
    ultimately have "dlseg (?h2(a := None)) None (xs @ ys) None"
      using middle by (simp add: dlseg_append)
    moreover have "lq_head q = first_addr (xs @ ys) None" "lq_tail q = last_addr (xs @ ys) None"
      using hd tl middle by (auto simp: first_addr_append last_addr_append)
    ultimately show thesis
      using that [of "?h2(a := None)"] middle node sp(1) sn(1) by (simp add: unlink_def)
  qed
qed


section \<open>Every operation on represented queues\<close>

lemma binding_keys: "map fst (map cell_binding zs) = map cell_key zs"
  by (auto simp: cell_binding_def)

lemma represents_lookup:
  assumes "represents q (xs @ (a, k, v) # ys)"
  shows "map_of (lq_data q) k = Some (a, v)"
proof -
  have "k \<notin> cell_key ` set xs"
    using assms by (auto simp: represents_def image_iff)
  then have "map_of (map cell_binding xs) k = None"
    by (auto simp: map_of_eq_None_iff cell_binding_def image_iff)
  then show ?thesis
    using assms by (simp add: represents_def map_add_def cell_binding_def)
qed

lemma bindings_None_iff: "map_of (map cell_binding zs) k = None \<longleftrightarrow> k \<notin> cell_key ` set zs"
  by (induction zs) (auto simp: cell_binding_def)

lemma represents_data:
  "represents q zs \<Longrightarrow> map_of (lq_data q) k = map_of (map cell_binding zs) k"
  by (simp only: represents_def)

lemma represents_None_iff:
  assumes "represents q zs"
  shows "map_of (lq_data q) k = None \<longleftrightarrow> k \<notin> cell_key ` set zs"
  by (simp only: represents_data [OF assms] bindings_None_iff)

lemma represents_split:
  assumes "represents q zs" and "map_of (lq_data q) k = Some (a, v)"
  obtains xs ys where "zs = xs @ (a, k, v) # ys"
proof -
  have "k \<in> cell_key ` set zs"
    using assms(2) represents_None_iff [OF assms(1), of k] by simp
  then obtain xs a' v' ys where zs: "zs = xs @ (a', k, v') # ys"
    by (metis (no_types, lifting) imageE prod.collapse split_list)
  with represents_lookup [of q xs a' k v' ys] assms have "a' = a" "v' = v" by auto
  with zs that show thesis by blast
qed

text \<open>The entries without a key: what removing it leaves.\<close>

lemma filter_key_split:
  assumes "distinct (map cell_key (xs @ (a, k, v) # ys))"
  shows "filter (\<lambda>z. cell_key z \<noteq> k) (xs @ (a, k, v) # ys) = xs @ ys"
proof -
  have "\<forall>z \<in> set xs \<union> set ys. cell_key z \<noteq> k"
    using assms by (auto simp: image_iff)
  then show ?thesis by (simp add: filter_id_conv)
qed

lemma filter_key_absent:
  "k \<notin> cell_key ` set zs \<Longrightarrow> filter (\<lambda>z. cell_key z \<noteq> k) zs = zs"
  by (auto simp: filter_id_conv)

lemma lru_remove_represents:
  assumes "represents q zs"
  obtains q' where "lru_remove q k = Some (map_option snd (map_of (lq_data q) k), q')"
    and "represents q' (filter (\<lambda>z. cell_key z \<noteq> k) zs)"
proof (cases "map_of (lq_data q) k")
  case None
  then have "k \<notin> cell_key ` set zs"
    using represents_None_iff [OF assms] by simp
  with None assms that [of q] show thesis
    by (simp add: lru_remove_def filter_key_absent)
next
  case (Some av)
  obtain a v where av: "av = (a, v)" by (cases av)
  with Some assms obtain xs ys where zs: "zs = xs @ (a, k, v) # ys"
    by (blast elim: represents_split)
  let ?q = "q\<lparr>lq_data := AList.delete k (lq_data q)\<rparr>"
  obtain h where u: "unlink a ?q = Some (?q\<lparr>lq_head := first_addr (xs @ ys) None,
        lq_tail := last_addr (xs @ ys) None, lq_nodes := h\<rparr>)" (is "_ = Some ?q'")
    and seg: "dlseg h None (xs @ ys) None"
    by (rule unlink_dlseg [of ?q xs a k v ys]) (use assms zs in \<open>auto simp: represents_def\<close>)
  have dk: "distinct (map cell_key zs)" using assms by (simp add: represents_def)
  have "map_of (AList.delete k (lq_data q)) = map_of (map cell_binding (xs @ ys))"
  proof
    fix j
    have "k \<notin> cell_key ` set xs" "k \<notin> cell_key ` set ys" using dk zs by (auto simp: image_iff)
    then have "map_of (map cell_binding xs) k = None" "map_of (map cell_binding ys) k = None"
      by (simp_all only: bindings_None_iff simp_thms)
    then have "map_of (map cell_binding (xs @ ys)) j = (if j = k then None else map_of (map cell_binding zs) j)"
      by (simp add: zs map_add_def cell_binding_def split: option.splits)
    then show "map_of (AList.delete k (lq_data q)) j = map_of (map cell_binding (xs @ ys)) j"
      using represents_data [OF assms, of j] by (simp add: delete_conv')
  qed
  moreover have "distinct (map fst (AList.delete k (lq_data q)))"
    using assms by (simp add: represents_def distinct_delete)
  ultimately have "represents ?q' (xs @ ys)"
    using assms seg zs by (auto simp: represents_def)
  moreover have "xs @ ys = filter (\<lambda>z. cell_key z \<noteq> k) zs"
    using dk zs filter_key_split by metis
  ultimately show thesis
    using that [of ?q'] Some av u by (simp add: lru_remove_def)
qed

lemma represents_fresh:
  assumes "represents q zs" and "lq_fresh q \<le> a"
  shows "a \<notin> fst ` set zs"
  using assms by (auto simp: represents_def)

lemma represents_cons:
  assumes q: "represents q zs" and k: "k \<notin> cell_key ` set zs" and a: "a = lq_fresh q"
    and seg: "dlseg h (Some a) zs None"
    and node: "h a = Some \<lparr>node_key = k, node_prev = None, node_next = first_addr zs None\<rparr>"
  shows "represents (q\<lparr>lq_head := Some a, lq_tail := last_addr zs (Some a), lq_nodes := h,
      lq_data := AList.update k (a, v) (lq_data q), lq_fresh := Suc a\<rparr>) ((a, k, v) # zs)"
proof -
  have "map_of (lq_data q) k = None" using represents_None_iff [OF q] k by simp
  then show ?thesis
    using assms represents_fresh [OF q, of a]
    by (auto simp: represents_def cell_binding_def update_conv' distinct_update less_SucI)
qed

lemma lru_put_represents:
  assumes "represents q zs"
  obtains q' a where "lru_put q k v = Some (map_option snd (map_of (lq_data q) k), q')"
    and "represents q' ((a, k, v) # filter (\<lambda>z. cell_key z \<noteq> k) zs)"
proof -
  let ?zs = "filter (\<lambda>z. cell_key z \<noteq> k) zs"
  obtain q1 where rm: "lru_remove q k = Some (map_option snd (map_of (lq_data q) k), q1)"
    and q1: "represents q1 ?zs"
    using lru_remove_represents [OF assms] by blast
  let ?a = "lq_fresh q1"
  let ?node = "\<lparr>node_key = k, node_prev = None, node_next = None\<rparr>"
  let ?h = "(lq_nodes q1)(?a \<mapsto> ?node)"
  have k: "k \<notin> cell_key ` set ?zs" by auto
  have fresh: "?a \<notin> fst ` set ?zs" using represents_fresh [OF q1] by simp
  have seg: "dlseg ?h None ?zs None"
    using q1 fresh by (simp add: dlseg_frame represents_def)
  show thesis
  proof (cases ?zs)
    case Nil
    then have "lq_head q1 = None" using q1 by (simp add: represents_def)
    then show thesis
      using that [of _ ?a] rm represents_cons [OF q1 k refl, of ?h v] Nil
      by (simp add: lru_put_def Let_def)
  next
    case (Cons z ys)
    obtain b kb vb where z: "z = (b, kb, vb)" by (cases z)
    have b: "b \<notin> fst ` set ys" "b \<noteq> ?a"
      using q1 fresh Cons z by (auto simp: represents_def)
    have hd: "lq_head q1 = Some b" and tl: "last_addr ?zs (Some ?a) = lq_tail q1"
      using q1 Cons z by (auto simp: represents_def)
    note sp = dlseg_set_first_prev [OF seg [unfolded Cons z] refl b(1), of "Some ?a"]
    let ?h1 = "?h(b \<mapsto> \<lparr>node_key = kb, node_prev = Some ?a, node_next = first_addr ys None\<rparr>)"
    let ?h2 = "?h1(?a \<mapsto> ?node\<lparr>node_next := Some b\<rparr>)"
    have "dlseg ?h2 (Some ?a) ?zs None"
      using sp(2) fresh unfolding Cons z by (subst dlseg_frame) auto
    then have "represents (q1\<lparr>lq_head := Some ?a, lq_tail := lq_tail q1, lq_nodes := ?h2,
        lq_data := AList.update k (?a, v) (lq_data q1), lq_fresh := Suc ?a\<rparr>) ((?a, k, v) # ?zs)"
      using represents_cons [OF q1 k refl, of ?h2 v] Cons z tl by simp
    moreover have "lru_put q k v = Some (map_option snd (map_of (lq_data q) k),
        q1\<lparr>lq_head := Some ?a, lq_nodes := ?h2,
          lq_data := AList.update k (?a, v) (lq_data q1), lq_fresh := Suc ?a\<rparr>)"
      using rm hd sp(1) by (simp add: lru_put_def Let_def)
    ultimately show thesis using that [of _ ?a] by simp
  qed
qed

text \<open>The two list functions the abstract queue is specified with.\<close>

definition lru_del :: "'k \<Rightarrow> ('k \<times> 'v) list \<Rightarrow> ('k \<times> 'v) list" where
  "lru_del k es = filter (\<lambda>e. fst e \<noteq> k) es"

definition lru_touch :: "'k \<Rightarrow> ('k \<times> 'v) list \<Rightarrow> ('k \<times> 'v) list" where
  "lru_touch k es = (case map_of es k of None \<Rightarrow> es | Some v \<Rightarrow> (k, v) # lru_del k es)"

lemma entries_del: "lru_del k (map cell_entry zs) = map cell_entry (filter (\<lambda>z. cell_key z \<noteq> k) zs)"
  by (induction zs) (auto simp: lru_del_def cell_entry_def)

lemma lru_peek_represents:
  assumes "represents q zs"
  shows "lru_peek q k = map_of (map cell_entry zs) k"
proof -
  note represents_data [OF assms, of k]
  moreover have "map_option snd (map_of (map cell_binding zs) k) = map_of (map cell_entry zs) k"
    by (induction zs) (auto simp: cell_binding_def cell_entry_def)
  ultimately show ?thesis by (simp add: lru_peek_def)
qed

lemma lru_len_represents:
  assumes "represents q zs"
  shows "lru_len q = length zs"
proof -
  have "fst ` set (lq_data q) = cell_key ` set zs"
    using represents_None_iff [OF assms] by (auto simp: map_of_eq_None_iff)
  then have "card (set (map fst (lq_data q))) = card (set (map cell_key zs))" by simp
  then show ?thesis
    using assms distinct_card [of "map fst (lq_data q)"] distinct_card [of "map cell_key zs"]
    by (simp add: represents_def lru_len_def)
qed

lemma lru_pop_represents:
  assumes "represents q zs"
  obtains q' where "lru_pop q = Some (if zs = [] then None else Some (cell_entry (last zs)), q')"
    and "represents q' (butlast zs)"
proof (cases rule: last_addr_cases [of zs])
  case 1
  then show thesis
    using that [of q] assms by (simp add: represents_def lru_pop_def)
next
  case (2 ys a k v)
  have "lq_tail q = Some a" and nd: "\<exists>p n. lq_nodes q a = Some \<lparr>node_key = k, node_prev = p, node_next = n\<rparr>"
    using assms 2 by (auto simp: represents_def dlseg_append)
  moreover have "map_of (lq_data q) k = Some (a, v)"
    using represents_lookup [of q ys a k v "[]"] assms 2 by simp
  moreover have "filter (\<lambda>z. cell_key z \<noteq> k) zs = butlast zs"
    using filter_key_split [of ys a k v "[]"] assms 2 by (simp add: represents_def)
  moreover obtain q' where "lru_remove q k = Some (map_option snd (map_of (lq_data q) k), q')"
    and "represents q' (filter (\<lambda>z. cell_key z \<noteq> k) zs)"
    by (rule lru_remove_represents [OF assms])
  ultimately show thesis
    using that [of q'] 2 by (auto simp: lru_pop_def cell_entry_def)
qed


lemma lru_get_represents:
  assumes "represents q zs"
  obtains q' zs' where "lru_get q k = Some (map_of (map cell_entry zs) k, q')" and "represents q' zs'"
    and "map cell_entry zs' = lru_touch k (map cell_entry zs)"
proof -
  let ?zs = "filter (\<lambda>z. cell_key z \<noteq> k) zs"
  obtain q1 where rm: "lru_remove q k = Some (lru_peek q k, q1)" and q1: "represents q1 ?zs"
    using lru_remove_represents [OF assms] by (metis lru_peek_def)
  note pk = lru_peek_represents [OF assms, of k]
  show thesis
  proof (cases "lru_peek q k")
    case None
    then have "k \<notin> cell_key ` set zs"
      using represents_None_iff [OF assms, of k] by (simp add: lru_peek_def)
    then have "represents q1 zs" using q1 by (simp add: filter_key_absent)
    then show thesis
      using that [of q1 zs] rm None pk lru_peek_represents [of q1 zs k]
      by (simp add: lru_get_def lru_touch_def)
  next
    case (Some v)
    obtain q2 a where put: "lru_put q1 k v = Some (map_option snd (map_of (lq_data q1) k), q2)"
      and q2: "represents q2 ((a, k, v) # filter (\<lambda>z. cell_key z \<noteq> k) ?zs)"
      using lru_put_represents [OF q1] by blast
    then have q2: "represents q2 ((a, k, v) # ?zs)" by simp
    have "map cell_entry ((a, k, v) # ?zs) = lru_touch k (map cell_entry zs)"
      using Some pk by (simp add: lru_touch_def entries_del) (simp add: cell_entry_def)
    moreover have "lru_peek q2 k = Some v"
      using lru_peek_represents [OF q2, of k] by (simp add: cell_entry_def)
    ultimately show thesis
      using that [OF _ q2] rm put Some pk by (simp add: lru_get_def)
  qed
qed

lemma represents_new: "represents lru_new []"
  by (simp add: represents_def lru_new_def)

lemma represents_clear: "represents (lru_clear q) []"
  by (simp add: represents_def lru_clear_def)

section \<open>Abstraction to the list of entries\<close>

text \<open>
  The list walks from the head along the \<open>next\<close> links; the map bounds its length, so its size
  is fuel enough.
\<close>

fun lru_walk :: "nat \<Rightarrow> ('k, 'v) lru_queue \<Rightarrow> nat option \<Rightarrow> ('k \<times> 'v) list" where
  "lru_walk 0 q l = []"
| "lru_walk (Suc n) q None = []"
| "lru_walk (Suc n) q (Some a) =
     (case lq_nodes q a of
        None \<Rightarrow> []
      | Some nd \<Rightarrow>
          (case lru_peek q (node_key nd) of
             None \<Rightarrow> []
           | Some v \<Rightarrow> (node_key nd, v) # lru_walk n q (node_next nd)))"

definition lru_entries :: "('k, 'v) lru_queue \<Rightarrow> ('k \<times> 'v) list" where
  "lru_entries q = lru_walk (lru_len q) q (lq_head q)"

definition lru_invar :: "('k, 'v) lru_queue \<Rightarrow> bool" where
  "lru_invar q \<longleftrightarrow> (\<exists>zs. represents q zs)"

lemma lru_walk_dlseg:
  assumes "dlseg (lq_nodes q) p zs None" and "\<And>a k v. (a, k, v) \<in> set zs \<Longrightarrow> lru_peek q k = Some v"
  shows "lru_walk (length zs) q (first_addr zs None) = map cell_entry zs"
  using assms
proof (induction zs arbitrary: p)
  case (Cons z zs)
  obtain a k v where z: "z = (a, k, v)" by (cases z)
  then have "lru_walk (length zs) q (first_addr zs None) = map cell_entry zs"
    using Cons.prems by (intro Cons.IH [of "Some a"]) auto
  moreover have "lru_peek q k = Some v" using Cons.prems(2) [of a k v] z by simp
  ultimately show ?case using Cons.prems(1) z by (simp add: cell_entry_def)
qed simp

lemma lru_entries_represents:
  assumes "represents q zs"
  shows "lru_entries q = map cell_entry zs"
proof -
  have "lru_peek q k = Some v" if "(a, k, v) \<in> set zs" for a k v
    using that represents_lookup [of q] assms by (metis lru_peek_def option.map(2) snd_conv split_list)
  then show ?thesis
    using lru_walk_dlseg [of q None zs] assms lru_len_represents [OF assms]
    by (simp add: lru_entries_def represents_def)
qed

section \<open>The contract\<close>

text \<open>
  What a client of the queue relies on, over the entries from the most to the least recently
  used one.  No operation panics on a queue that satisfies the invariant.
\<close>

locale lru_contract =
  fixes invar :: "'q \<Rightarrow> bool"
    and ents :: "'q \<Rightarrow> ('k \<times> 'v) list"
    and new clear :: "'q \<Rightarrow> 'q"
    and put :: "'q \<Rightarrow> 'k \<Rightarrow> 'v \<Rightarrow> ('v option \<times> 'q) option"
    and remove get :: "'q \<Rightarrow> 'k \<Rightarrow> ('v option \<times> 'q) option"
    and pop :: "'q \<Rightarrow> (('k \<times> 'v) option \<times> 'q) option"
    and peek :: "'q \<Rightarrow> 'k \<Rightarrow> 'v option"
    and len :: "'q \<Rightarrow> nat"
    and keys :: "'q \<Rightarrow> 'k list"
    and list_entries :: "'q \<Rightarrow> ('k \<times> 'v) list"
  assumes new: "invar (new q) \<and> ents (new q) = []"
    and clear: "invar (clear q) \<and> ents (clear q) = []"
    and distinct_ents: "invar q \<Longrightarrow> distinct (map fst (ents q))"
    and put: "invar q \<Longrightarrow> \<exists>q'. put q k v = Some (map_of (ents q) k, q') \<and> invar q' \<and>
      ents q' = (k, v) # lru_del k (ents q)"
    and remove: "invar q \<Longrightarrow> \<exists>q'. remove q k = Some (map_of (ents q) k, q') \<and> invar q' \<and>
      ents q' = lru_del k (ents q)"
    and get: "invar q \<Longrightarrow> \<exists>q'. get q k = Some (map_of (ents q) k, q') \<and> invar q' \<and>
      ents q' = lru_touch k (ents q)"
    and pop: "invar q \<Longrightarrow> \<exists>q'. pop q = Some (if ents q = [] then None else Some (last (ents q)), q') \<and>
      invar q' \<and> ents q' = butlast (ents q)"
    and peek: "invar q \<Longrightarrow> peek q k = map_of (ents q) k"
    and len: "invar q \<Longrightarrow> len q = length (ents q)"
    and keys: "invar q \<Longrightarrow> distinct (keys q) \<and> set (keys q) = fst ` set (ents q)"
    and list_entries: "invar q \<Longrightarrow> mset (list_entries q) = mset (ents q)"
begin

text \<open>The weight of a queue, for a client that accounts the size of its entries.\<close>

definition weight :: "('k \<Rightarrow> 'v \<Rightarrow> nat) \<Rightarrow> 'q \<Rightarrow> nat" where
  "weight w q = (\<Sum>(k, v) \<leftarrow> ents q. w k v)"

lemma weight_empty [simp]: "weight w (new q) = 0" "weight w (clear q) = 0"
  by (simp_all add: weight_def new clear)

lemma weight_del:
  fixes w :: "'k \<Rightarrow> 'v \<Rightarrow> nat"
  assumes "distinct (map fst es)"
  shows "(\<Sum>(k, v) \<leftarrow> lru_del k es. w k v) + (case map_of es k of None \<Rightarrow> 0 | Some v \<Rightarrow> w k v) =
    (\<Sum>(k, v) \<leftarrow> es. w k v)"
  using assms
proof (induction es)
  case (Cons e es)
  obtain j v where e: "e = (j, v)" by (cases e)
  have "lru_del j es = es" if "j \<notin> fst ` set es"
    using that by (auto simp: lru_del_def filter_id_conv)
  then show ?case using Cons e by (auto simp: lru_del_def)
qed (simp add: lru_del_def)

lemma weight_remove:
  assumes "invar q" and "remove q k = Some (old, q')"
  shows "weight w q' + (case old of None \<Rightarrow> 0 | Some v \<Rightarrow> w k v) = weight w q"
  using remove [OF assms(1), of k] assms(2) weight_del [OF distinct_ents [OF assms(1)], where k = k and w = w]
  by (auto simp: weight_def)

lemma weight_put:
  assumes "invar q" and "put q k v = Some (old, q')"
  shows "weight w q' + (case old of None \<Rightarrow> 0 | Some u \<Rightarrow> w k u) = weight w q + w k v"
  using put [OF assms(1), of k v] assms(2) weight_del [OF distinct_ents [OF assms(1)], where k = k and w = w]
  by (auto simp: weight_def)

lemma weight_get:
  assumes "invar q" and "get q k = Some (r, q')"
  shows "weight w q' = weight w q"
  using get [OF assms(1), of k] assms(2) weight_del [OF distinct_ents [OF assms(1)], where k = k and w = w]
  by (auto simp: weight_def lru_touch_def split: option.splits)

lemma weight_pop:
  assumes "invar q" and "pop q = Some (Some (k, v), q')"
  shows "weight w q' + w k v = weight w q"
proof -
  have "ents q \<noteq> []" "last (ents q) = (k, v)" "ents q' = butlast (ents q)"
    using pop [OF assms(1)] assms(2) by (auto split: if_splits)
  then show ?thesis
    by (metis (no_types, lifting) weight_def append_butlast_last_id map_append sum_list_append
        list.map sum_list.Cons sum_list.Nil add.right_neutral prod.case)
qed

lemma weight_pop_none:
  assumes "invar q" and "pop q = Some (None, q')"
  shows "weight w q = 0"
  using pop [OF assms(1)] assms(2) by (auto simp: weight_def split: if_splits)

lemma weight_mem:
  assumes "invar q" and "peek q k = Some v"
  shows "w k v \<le> weight w q"
proof -
  have "(k, v) \<in> set (ents q)" using assms peek [OF assms(1), of k] by (simp add: map_of_SomeD)
  then have "w k v \<in> set (map (\<lambda>(k, v). w k v) (ents q))" by (force simp: image_iff)
  then show ?thesis unfolding weight_def by (rule member_le_sum_list) simp
qed

end

lemma lru_invarE:
  assumes "lru_invar q"
  obtains zs where "represents q zs" and "lru_entries q = map cell_entry zs"
  using assms lru_entries_represents by (auto simp: lru_invar_def)

lemma lru_entriesI: "represents q zs \<Longrightarrow> lru_invar q \<and> lru_entries q = map cell_entry zs"
  using lru_entries_represents by (auto simp: lru_invar_def)

lemma lru_list_entries_mset:
  assumes "represents q zs"
  shows "mset (lru_list_entries q) = mset (map cell_entry zs)"
proof -
  have "distinct (map fst (lq_data q))" and d: "distinct (map fst (map cell_binding zs))"
    using assms unfolding binding_keys by (simp_all only: represents_def)
  moreover have "map_of (lq_data q) = map_of (map cell_binding zs)"
    using assms by (simp only: represents_def)
  ultimately have "set (lq_data q) = set (map cell_binding zs)"
    by (metis map_of_inject_set)
  moreover have "distinct (lq_data q)" "distinct (map cell_binding zs)"
    using \<open>distinct (map fst (lq_data q))\<close> d unfolding distinct_map by blast+
  ultimately have "mset (lq_data q) = mset (map cell_binding zs)"
    by (simp only: set_eq_iff_mset_eq_distinct)
  then have "mset (map (\<lambda>(k, (_, v)). (k, v)) (lq_data q)) =
      mset (map (\<lambda>(k, (_, v)). (k, v)) (map cell_binding zs))"
    by (simp only: mset_map)
  moreover have "map (\<lambda>(k, (_, v)). (k, v)) (map cell_binding zs) = map cell_entry zs"
    by (auto simp: cell_binding_def cell_entry_def)
  ultimately show ?thesis by (simp only: lru_list_entries_def)
qed

lemma lru_queue_contract:
  "lru_contract lru_invar lru_entries (\<lambda>_. lru_new) lru_clear lru_put lru_remove lru_get lru_pop
     lru_peek lru_len lru_keys lru_list_entries"
proof (unfold_locales, goal_cases)
  case (1 q) show ?case using lru_entriesI [OF represents_new] by simp
next
  case (2 q) show ?case using lru_entriesI [OF represents_clear] by simp
next
  case (3 q) then show ?case
    by (auto elim!: lru_invarE simp: represents_def cell_entry_def comp_def case_prod_beta)
next
  case (4 q k v)
  then obtain zs where q: "represents q zs" "lru_entries q = map cell_entry zs" by (rule lru_invarE)
  obtain q' a where p: "lru_put q k v = Some (map_option snd (map_of (lq_data q) k), q')"
    and r: "represents q' ((a, k, v) # filter (\<lambda>z. cell_key z \<noteq> k) zs)"
    by (rule lru_put_represents [OF q(1)])
  show ?case
    using p lru_entriesI [OF r] lru_peek_represents [OF q(1), of k] q(2)
    by (simp add: lru_peek_def entries_del) (simp add: cell_entry_def)
next
  case (5 q k)
  then obtain zs where q: "represents q zs" "lru_entries q = map cell_entry zs" by (rule lru_invarE)
  obtain q' where p: "lru_remove q k = Some (map_option snd (map_of (lq_data q) k), q')"
    and r: "represents q' (filter (\<lambda>z. cell_key z \<noteq> k) zs)"
    by (rule lru_remove_represents [OF q(1)])
  show ?case
    using p lru_entriesI [OF r] lru_peek_represents [OF q(1), of k] q(2)
    by (simp add: lru_peek_def entries_del)
next
  case (6 q k)
  then obtain zs where q: "represents q zs" "lru_entries q = map cell_entry zs" by (rule lru_invarE)
  show ?case
    by (rule lru_get_represents [OF q(1), of k]) (use q lru_entriesI in auto)
next
  case (7 q)
  then obtain zs where q: "represents q zs" "lru_entries q = map cell_entry zs" by (rule lru_invarE)
  show ?case
    by (rule lru_pop_represents [OF q(1)]) (use q lru_entriesI in \<open>auto simp: last_map map_butlast\<close>)
next
  case (8 q k) then show ?case by (auto elim!: lru_invarE simp: lru_peek_represents)
next
  case (9 q) then show ?case by (auto elim!: lru_invarE simp: lru_len_represents)
next
  case (10 q)
  then obtain zs where q: "represents q zs" "lru_entries q = map cell_entry zs" by (rule lru_invarE)
  have "fst ` set (lq_data q) = cell_key ` set zs"
    using represents_None_iff [OF q(1)] by (auto simp: map_of_eq_None_iff)
  then show ?case
    using q by (simp add: lru_keys_def represents_def image_image cell_entry_def case_prod_beta)
next
  case (11 q) then show ?case by (auto elim!: lru_invarE simp: lru_list_entries_mset simp del: mset_map)
qed

interpretation lru: lru_contract lru_invar lru_entries "\<lambda>_. lru_new" lru_clear lru_put lru_remove
  lru_get lru_pop lru_peek lru_len lru_keys lru_list_entries
  by (rule lru_queue_contract)

section \<open>Traces\<close>

text \<open>
  A client's sequence of calls, with what each call returns: on the queue, and on the list of
  entries.
\<close>

datatype ('k, 'v) lru_cmd =
  Cmd_put 'k 'v | Cmd_get 'k | Cmd_remove 'k | Cmd_pop | Cmd_peek 'k | Cmd_contains 'k | Cmd_len
| Cmd_is_empty | Cmd_clear

datatype ('k, 'v) lru_out =
  Out_value "'v option" | Out_entry "('k \<times> 'v) option" | Out_len nat | Out_bool bool | Out_unit

fun lru_exec ::
  "('k, 'v) lru_cmd \<Rightarrow> ('k, 'v) lru_queue \<Rightarrow> (('k, 'v) lru_out \<times> ('k, 'v) lru_queue) option" where
  "lru_exec (Cmd_put k v) q = map_option (apfst Out_value) (lru_put q k v)"
| "lru_exec (Cmd_get k) q = map_option (apfst Out_value) (lru_get q k)"
| "lru_exec (Cmd_remove k) q = map_option (apfst Out_value) (lru_remove q k)"
| "lru_exec Cmd_pop q = map_option (apfst Out_entry) (lru_pop q)"
| "lru_exec (Cmd_peek k) q = Some (Out_value (lru_peek q k), q)"
| "lru_exec (Cmd_contains k) q = Some (Out_bool (lru_contains_key q k), q)"
| "lru_exec Cmd_len q = Some (Out_len (lru_len q), q)"
| "lru_exec Cmd_is_empty q = Some (Out_bool (lru_is_empty q), q)"
| "lru_exec Cmd_clear q = Some (Out_unit, lru_clear q)"

fun lru_spec :: "('k, 'v) lru_cmd \<Rightarrow> ('k \<times> 'v) list \<Rightarrow> ('k, 'v) lru_out \<times> ('k \<times> 'v) list" where
  "lru_spec (Cmd_put k v) es = (Out_value (map_of es k), (k, v) # lru_del k es)"
| "lru_spec (Cmd_get k) es = (Out_value (map_of es k), lru_touch k es)"
| "lru_spec (Cmd_remove k) es = (Out_value (map_of es k), lru_del k es)"
| "lru_spec Cmd_pop es = (Out_entry (if es = [] then None else Some (last es)), butlast es)"
| "lru_spec (Cmd_peek k) es = (Out_value (map_of es k), es)"
| "lru_spec (Cmd_contains k) es = (Out_bool (k \<in> fst ` set es), es)"
| "lru_spec Cmd_len es = (Out_len (length es), es)"
| "lru_spec Cmd_is_empty es = (Out_bool (es = []), es)"
| "lru_spec Cmd_clear es = (Out_unit, [])"

fun lru_run :: "('k, 'v) lru_cmd list \<Rightarrow> ('k, 'v) lru_queue \<Rightarrow> ('k, 'v) lru_out list option" where
  "lru_run [] q = Some []"
| "lru_run (c # cs) q =
     (case lru_exec c q of
        None \<Rightarrow> None
      | Some (r, q') \<Rightarrow> map_option ((#) r) (lru_run cs q'))"

fun lru_spec_run :: "('k, 'v) lru_cmd list \<Rightarrow> ('k \<times> 'v) list \<Rightarrow> ('k, 'v) lru_out list" where
  "lru_spec_run [] es = []"
| "lru_spec_run (c # cs) es = (case lru_spec c es of (r, es') \<Rightarrow> r # lru_spec_run cs es')"

lemma lru_contains_entries:
  assumes "lru_invar q"
  shows "lru_contains_key q k \<longleftrightarrow> k \<in> fst ` set (lru_entries q)"
proof -
  have "lru_contains_key q k \<longleftrightarrow> lru_peek q k \<noteq> None"
    by (simp add: lru_contains_key_def lru_peek_def)
  then show ?thesis by (simp add: lru.peek [OF assms] map_of_eq_None_iff)
qed

lemma lru_exec_spec:
  assumes "lru_invar q"
  shows "\<exists>q'. lru_exec c q = Some (fst (lru_spec c (lru_entries q)), q') \<and> lru_invar q' \<and>
    lru_entries q' = snd (lru_spec c (lru_entries q))"
proof (cases c)
  case (Cmd_put k v) then show ?thesis using lru.put [OF assms, of k v] by auto
next
  case (Cmd_get k) then show ?thesis using lru.get [OF assms, of k] by auto
next
  case (Cmd_remove k) then show ?thesis using lru.remove [OF assms, of k] by auto
next
  case Cmd_pop then show ?thesis using lru.pop [OF assms] by (auto split: if_splits)
next
  case (Cmd_contains k)
  then show ?thesis
    using assms lru_contains_entries [OF assms, of k] by simp
next
  case Cmd_is_empty
  then show ?thesis using assms lru.len [OF assms] by (auto simp: lru_is_empty_def lru_len_def)
qed (use assms lru.peek [OF assms] lru.len [OF assms] lru.clear [of q] in auto)

lemma lru_run_spec:
  "lru_invar q \<Longrightarrow> lru_run cs q = Some (lru_spec_run cs (lru_entries q))"
proof (induction cs arbitrary: q)
  case (Cons c cs)
  obtain q' where "lru_exec c q = Some (fst (lru_spec c (lru_entries q)), q')" and "lru_invar q'"
    and "lru_entries q' = snd (lru_spec c (lru_entries q))"
    using lru_exec_spec [OF Cons.prems] by blast
  with Cons.IH [of q'] show ?case by (simp add: case_prod_beta)
qed simp

text \<open>
  C22. A queue that starts empty answers every sequence of calls (insertions, touching lookups,
  removals, evictions, peeks, lengths, clears) exactly as a list ordered by recency of use does,
  and no call of the sequence panics on a dangling link: the doubly linked list, its head and
  tail and the hash map together implement least-recently-used order.
\<close>

theorem lru_queue_refines_recency_list:
  "lru_run cs lru_new = Some (lru_spec_run cs [])"
  by (simp add: lru_run_spec lru.new)

end
