(* ===== verification/Default_Cache.thy ===== *)
theory Default_Cache
  imports Lru_Queue
begin

text \<open>
  \<open>DefaultCache\<close> of \<open>execution/src/cache/default_cache.rs\<close>: an LRU queue of values stamped with
  an expiry, a hit counter per key, and a byte budget in \<open>usize\<close> arithmetic (64-bit words that
  wrap, as in a release build).  The traits of keys and values are a record of functions.
  An instant and a duration are natural numbers of one unit.  The panic of the queue on a
  dangling link is \<open>None\<close>.
\<close>

section \<open>Data\<close>

text \<open>\<open>CacheKey\<close> and \<open>CacheValue\<close>: heap sizes, and the table a key belongs to.\<close>

record ('k, 'v, 't) cache_traits =
  ct_key_size :: "'k \<Rightarrow> usize"
  ct_value_size :: "'v \<Rightarrow> usize"
  ct_table_ref :: "'k \<Rightarrow> 't option"

record 'v value_entry =
  ve_value :: 'v
  ve_expires :: "nat option"

record ('k, 'v) cache_state =
  cs_queue :: "('k, 'v value_entry) lru_queue"
  cs_hits :: "('k \<times> usize) list"
  cs_memory_limit :: usize
  cs_memory_used :: usize
  cs_ttl :: "nat option"

record 'v cache_entry_info =
  cei_value :: 'v
  cei_size_bytes :: usize
  cei_hits :: usize
  cei_expires :: "nat option"

section \<open>Operations\<close>

definition cache_new :: "usize \<Rightarrow> nat option \<Rightarrow> ('k, 'v) cache_state" where
  "cache_new memory_limit ttl =
     \<lparr>cs_queue = lru_new, cs_hits = [], cs_memory_limit = memory_limit, cs_memory_used = 0,
      cs_ttl = ttl\<rparr>"

text \<open>\<open>now > exp\<close> for an entry that has an expiry.\<close>

definition entry_expired :: "nat \<Rightarrow> 'v value_entry \<Rightarrow> bool" where
  "entry_expired now e = (case ve_expires e of None \<Rightarrow> False | Some exp \<Rightarrow> exp < now)"

definition cache_remove ::
  "('k, 'v, 't) cache_traits \<Rightarrow> 'k \<Rightarrow> ('k, 'v) cache_state \<Rightarrow>
   ('v option \<times> ('k, 'v) cache_state) option" where
  "cache_remove ct key c =
     (case lru_remove (cs_queue c) key of
        None \<Rightarrow> None
      | Some (None, q) \<Rightarrow> Some (None, c\<lparr>cs_queue := q\<rparr>)
      | Some (Some entry, q) \<Rightarrow>
          Some (Some (ve_value entry),
            c\<lparr>cs_queue := q,
              cs_memory_used := cs_memory_used c - ct_key_size ct key - ct_value_size ct (ve_value entry),
              cs_hits := AList.delete key (cs_hits c)\<rparr>))"

text \<open>\<open>*self.hits.entry(key).or_insert(0) += 1\<close>\<close>

definition hits_increment :: "'k \<Rightarrow> ('k \<times> usize) list \<Rightarrow> ('k \<times> usize) list" where
  "hits_increment key hits =
     AList.update key ((case map_of hits key of None \<Rightarrow> 0 | Some n \<Rightarrow> n) + 1) hits"

definition cache_get ::
  "('k, 'v, 't) cache_traits \<Rightarrow> 'k \<Rightarrow> nat \<Rightarrow> ('k, 'v) cache_state \<Rightarrow>
   ('v option \<times> ('k, 'v) cache_state) option" where
  "cache_get ct key now c =
     (case lru_get (cs_queue c) key of
        None \<Rightarrow> None
      | Some (None, q) \<Rightarrow> Some (None, c\<lparr>cs_queue := q\<rparr>)
      | Some (Some entry, q) \<Rightarrow>
          (if entry_expired now entry
           then map_option (\<lambda>(_, c'). (None, c')) (cache_remove ct key (c\<lparr>cs_queue := q\<rparr>))
           else Some (Some (ve_value entry),
             c\<lparr>cs_queue := q, cs_hits := hits_increment key (cs_hits c)\<rparr>)))"

definition cache_contains_key ::
  "('k, 'v, 't) cache_traits \<Rightarrow> 'k \<Rightarrow> nat \<Rightarrow> ('k, 'v) cache_state \<Rightarrow>
   (bool \<times> ('k, 'v) cache_state) option" where
  "cache_contains_key ct key now c =
     (case lru_peek (cs_queue c) key of
        None \<Rightarrow> Some (False, c)
      | Some entry \<Rightarrow>
          (if entry_expired now entry
           then map_option (\<lambda>(_, c'). (False, c')) (cache_remove ct key c)
           else Some (True, c)))"

lemma lru_unlink_data: "unlink a q = Some q' \<Longrightarrow> lq_data q' = lq_data q"
  by (auto simp: unlink_def split: option.splits)

lemma lru_pop_shrinks:
  assumes "lru_pop q = Some (Some kv, q')"
  shows "length (lq_data q') < length (lq_data q)"
proof -
  obtain k a v where k: "map_of (lq_data q) k = Some (a, v)"
    and q': "unlink a (q\<lparr>lq_data := AList.delete k (lq_data q)\<rparr>) = Some q'"
    using assms by (auto simp: lru_pop_def lru_remove_def split: option.splits)
  have "length (AList.delete k (lq_data q)) < length (lq_data q)"
    unfolding AList.delete_eq
    by (rule length_filter_less [of "(k, a, v)"]) (use k in \<open>auto simp: map_of_SomeD\<close>)
  then show ?thesis using lru_unlink_data [OF q'] by simp
qed

text \<open>
  The eviction loop.  Every pop shortens the map, so it ends from every state, the inconsistent
  ones that the source logs included.
\<close>

function cache_evict_entries ::
  "('k, 'v, 't) cache_traits \<Rightarrow> ('k, 'v) cache_state \<Rightarrow> ('k, 'v) cache_state option" where
  "cache_evict_entries ct c =
     (if cs_memory_limit c < cs_memory_used c then
        (case lru_pop (cs_queue c) of
           None \<Rightarrow> None
         | Some (None, q) \<Rightarrow> Some (c\<lparr>cs_queue := q, cs_memory_used := 0\<rparr>)
         | Some (Some (evicted_key, evicted), q) \<Rightarrow>
             cache_evict_entries ct
               (c\<lparr>cs_queue := q,
                 cs_memory_used := cs_memory_used c - ct_key_size ct evicted_key
                   - ct_value_size ct (ve_value evicted),
                 cs_hits := AList.delete evicted_key (cs_hits c)\<rparr>))
      else Some c)"
  by pat_completeness auto
termination
  by (relation "measure (\<lambda>(ct, c). length (lq_data (cs_queue c)))") (auto dest: lru_pop_shrinks)

declare cache_evict_entries.simps [simp del]

definition cache_put ::
  "('k, 'v, 't) cache_traits \<Rightarrow> 'k \<Rightarrow> 'v \<Rightarrow> nat \<Rightarrow> ('k, 'v) cache_state \<Rightarrow>
   ('v option \<times> ('k, 'v) cache_state) option" where
  "cache_put ct key v now c =
     (let value_size = ct_value_size ct v; key_size = ct_key_size ct key;
          total_size = key_size + value_size
      in if value_size = 0 then Some (None, c)
         else if cs_memory_limit c < total_size then cache_remove ct key c
         else
           let entry = \<lparr>ve_value = v, ve_expires = map_option (\<lambda>ttl. now + ttl) (cs_ttl c)\<rparr>
           in case lru_put (cs_queue c) key entry of
                None \<Rightarrow> None
              | Some (old, q) \<Rightarrow>
                  let used = cs_memory_used c + total_size;
                      used' = (case old of None \<Rightarrow> used
                               | Some old_entry \<Rightarrow>
                                   used - key_size - ct_value_size ct (ve_value old_entry))
                  in map_option (Pair (map_option ve_value old))
                       (cache_evict_entries ct
                          (c\<lparr>cs_queue := q, cs_memory_used := used',
                             cs_hits := AList.update key 0 (cs_hits c)\<rparr>)))"

definition cache_clear :: "('k, 'v) cache_state \<Rightarrow> ('k, 'v) cache_state" where
  "cache_clear c = c\<lparr>cs_queue := lru_clear (cs_queue c), cs_hits := [], cs_memory_used := 0\<rparr>"

definition cache_len :: "('k, 'v) cache_state \<Rightarrow> nat" where
  "cache_len c = lru_len (cs_queue c)"

definition cache_update_limit ::
  "('k, 'v, 't) cache_traits \<Rightarrow> usize \<Rightarrow> ('k, 'v) cache_state \<Rightarrow> ('k, 'v) cache_state option" where
  "cache_update_limit ct limit c = cache_evict_entries ct (c\<lparr>cs_memory_limit := limit\<rparr>)"

definition cache_update_ttl :: "nat option \<Rightarrow> ('k, 'v) cache_state \<Rightarrow> ('k, 'v) cache_state" where
  "cache_update_ttl ttl c = c\<lparr>cs_ttl := ttl\<rparr>"

fun cache_remove_all ::
  "('k, 'v, 't) cache_traits \<Rightarrow> 'k list \<Rightarrow> ('k, 'v) cache_state \<Rightarrow> ('k, 'v) cache_state option" where
  "cache_remove_all ct [] c = Some c"
| "cache_remove_all ct (k # ks) c =
     (case cache_remove ct k c of None \<Rightarrow> None | Some (_, c') \<Rightarrow> cache_remove_all ct ks c')"

definition cache_drop_table_entries ::
  "('k, 'v, 't) cache_traits \<Rightarrow> 't \<Rightarrow> ('k, 'v) cache_state \<Rightarrow> ('k, 'v) cache_state option" where
  "cache_drop_table_entries ct table c =
     cache_remove_all ct
       (filter (\<lambda>k. ct_table_ref ct k = Some table) (lru_keys (cs_queue c))) c"

definition cache_list_entries ::
  "('k, 'v, 't) cache_traits \<Rightarrow> ('k, 'v) cache_state \<Rightarrow> ('k \<times> 'v cache_entry_info) list" where
  "cache_list_entries ct c =
     map (\<lambda>(k, entry).
         (k, \<lparr>cei_value = ve_value entry,
              cei_size_bytes = ct_value_size ct (ve_value entry),
              cei_hits = (case map_of (cs_hits c) k of None \<Rightarrow> 0 | Some n \<Rightarrow> n),
              cei_expires = ve_expires entry\<rparr>))
       (lru_list_entries (cs_queue c))"

section \<open>The accounting invariant\<close>

abbreviation cache_entries :: "('k, 'v) cache_state \<Rightarrow> ('k \<times> 'v value_entry) list" where
  "cache_entries c \<equiv> lru_entries (cs_queue c)"

definition entry_bytes :: "('k, 'v, 't) cache_traits \<Rightarrow> 'k \<Rightarrow> 'v value_entry \<Rightarrow> nat" where
  "entry_bytes ct k e = unat (ct_key_size ct k) + unat (ct_value_size ct (ve_value e))"

definition entries_bytes :: "('k, 'v, 't) cache_traits \<Rightarrow> ('k \<times> 'v value_entry) list \<Rightarrow> nat" where
  "entries_bytes ct es = (\<Sum>(k, e) \<leftarrow> es. entry_bytes ct k e)"

lemma entries_bytes_simps [simp]:
  "entries_bytes ct [] = 0"
  "entries_bytes ct ((k, e) # es) = entry_bytes ct k e + entries_bytes ct es"
  "entries_bytes ct (es @ fs) = entries_bytes ct es + entries_bytes ct fs"
  by (simp_all add: entries_bytes_def)

lemma entries_bytes_weight: "entries_bytes ct (lru_entries q) = lru.weight (entry_bytes ct) q"
  by (simp add: entries_bytes_def lru.weight_def)

text \<open>
  \<open>cache_acc\<close> holds inside every operation; between operations the budget is kept as well.
  Budgets of at least \<open>2^63\<close> bytes would let the sum in \<open>put\<close> wrap.
\<close>

definition cache_acc :: "('k, 'v, 't) cache_traits \<Rightarrow> ('k, 'v) cache_state \<Rightarrow> bool" where
  "cache_acc ct c \<longleftrightarrow>
     lru_invar (cs_queue c) \<and> unat (cs_memory_used c) = entries_bytes ct (cache_entries c) \<and>
     distinct (map fst (cs_hits c)) \<and> fst ` set (cs_hits c) = fst ` set (cache_entries c)"

definition cache_ok :: "('k, 'v, 't) cache_traits \<Rightarrow> ('k, 'v) cache_state \<Rightarrow> bool" where
  "cache_ok ct c \<longleftrightarrow>
     cache_acc ct c \<and> cs_memory_used c \<le> cs_memory_limit c \<and> unat (cs_memory_limit c) < 2 ^ 63"

lemma cache_accD:
  assumes "cache_acc ct c"
  shows "lru_invar (cs_queue c)" "unat (cs_memory_used c) = entries_bytes ct (cache_entries c)"
    "distinct (map fst (cs_hits c))" "fst ` set (cs_hits c) = fst ` set (cache_entries c)"
  using assms by (auto simp: cache_acc_def)

lemma cache_okD:
  assumes "cache_ok ct c"
  shows "cache_acc ct c" "cs_memory_used c \<le> cs_memory_limit c" "unat (cs_memory_limit c) < 2 ^ 63"
    "lru_invar (cs_queue c)"
  using assms by (auto simp: cache_ok_def cache_acc_def)

lemma unat_sub_twice:
  fixes u a b :: usize
  assumes "unat a + unat b \<le> unat u"
  shows "unat (u - a - b) = unat u - unat a - unat b"
  using assms by (simp add: usize_simps)

lemma lru_del_keys: "fst ` set (lru_del k es) = fst ` set es - {k}"
  by (auto simp: lru_del_def)

lemma lru_touch_keys: "fst ` set (lru_touch k es) = fst ` set es"
  by (auto simp: lru_touch_def lru_del_keys split: option.splits)
    (auto dest!: map_of_SomeD intro: rev_image_eqI)

lemma lru_del_last: "distinct (map fst (es @ [(k, e)])) \<Longrightarrow> lru_del k (es @ [(k, e)]) = es"
  by (auto simp: lru_del_def filter_id_conv image_iff)

lemma hits_delete:
  assumes "distinct (map fst hits)"
  shows "distinct (map fst (AList.delete k hits))"
    and "fst ` set (AList.delete k hits) = fst ` set hits - {k}"
  using assms by (auto simp: delete_keys distinct_removeAll simp flip: set_map)

section \<open>What every operation does to the entries\<close>

lemma cache_remove_acc:
  assumes "cache_acc ct c"
  shows "\<exists>c'. cache_remove ct k c = Some (map_option ve_value (map_of (cache_entries c) k), c') \<and>
    cache_acc ct c' \<and> cache_entries c' = lru_del k (cache_entries c) \<and>
    cs_memory_used c' \<le> cs_memory_used c \<and> cs_memory_limit c' = cs_memory_limit c \<and> cs_ttl c' = cs_ttl c"
proof -
  note inv = cache_accD [OF assms]
  obtain q where q: "lru_remove (cs_queue c) k = Some (map_of (cache_entries c) k, q)"
    "lru_invar q" "lru_entries q = lru_del k (cache_entries c)"
    using lru.remove [OF inv(1)] by blast
  have w: "entries_bytes ct (lru_entries q) +
      (case map_of (cache_entries c) k of None \<Rightarrow> 0 | Some v \<Rightarrow> entry_bytes ct k v) =
      unat (cs_memory_used c)"
    using lru.weight_remove [OF inv(1) q(1), of "entry_bytes ct"] inv(2)
    by (simp add: entries_bytes_weight)
  show ?thesis
  proof (cases "map_of (cache_entries c) k")
    case None
    then have "k \<notin> fst ` set (cache_entries c)" by (simp add: map_of_eq_None_iff)
    then show ?thesis using None q w inv by (auto simp: cache_remove_def cache_acc_def lru_del_keys)
  next
    case (Some e)
    have "unat (cs_memory_used c - ct_key_size ct k - ct_value_size ct (ve_value e)) =
        entries_bytes ct (lru_entries q)"
      using w Some by (simp add: entry_bytes_def unat_sub_twice)
    then show ?thesis
      using Some q w inv
      by (simp add: cache_remove_def cache_acc_def lru_del_keys hits_delete word_le_nat_alt
          del: delete_keys)
  qed
qed

lemma cache_evict_acc:
  assumes "cache_acc ct c"
  shows "\<exists>c' n. cache_evict_entries ct c = Some c' \<and> cache_acc ct c' \<and>
    cache_entries c' = take n (cache_entries c) \<and> n \<le> length (cache_entries c) \<and>
    cs_memory_used c' \<le> cs_memory_limit c \<and>
    (\<forall>m. n < m \<and> m \<le> length (cache_entries c) \<longrightarrow>
       unat (cs_memory_limit c) < entries_bytes ct (take m (cache_entries c))) \<and>
    cs_memory_limit c' = cs_memory_limit c \<and> cs_ttl c' = cs_ttl c"
  using assms
proof (induction ct c rule: cache_evict_entries.induct)
  case (1 ct c)
  note inv = cache_accD [OF 1(2)]
  show ?case
  proof (cases "cs_memory_limit c < cs_memory_used c")
    case False
    then show ?thesis
      using 1(2) by (intro exI [of _ c] exI [of _ "length (cache_entries c)"])
        (simp add: cache_evict_entries.simps [of ct c])
  next
    case True
    then have pos: "unat (cs_memory_limit c) < entries_bytes ct (cache_entries c)"
      using inv(2) by (simp add: word_less_nat_alt)
    then have ne: "cache_entries c \<noteq> []" by auto
    obtain k e where ke: "last (cache_entries c) = (k, e)" by fastforce
    obtain q where q: "lru_pop (cs_queue c) = Some (Some (k, e), q)" "lru_invar q"
      "lru_entries q = butlast (cache_entries c)"
      using lru.pop [OF inv(1)] ne ke by auto
    let ?c = "c\<lparr>cs_queue := q,
                 cs_memory_used := cs_memory_used c - ct_key_size ct k - ct_value_size ct (ve_value e),
                 cs_hits := AList.delete k (cs_hits c)\<rparr>"
    have es: "cache_entries c = butlast (cache_entries c) @ [(k, e)]"
      using ne ke by (metis append_butlast_last_id)
    have w: "entries_bytes ct (lru_entries q) + entry_bytes ct k e = unat (cs_memory_used c)"
      using inv(2) es q(3) by (metis entries_bytes_simps add.right_neutral)
    have "lru_del k (cache_entries c) = lru_entries q"
      using lru.distinct_ents [OF inv(1)] es q(3) lru_del_last by metis
    then have "fst ` set (lru_entries q) = fst ` set (cache_entries c) - {k}"
      by (metis lru_del_keys)
    moreover have "unat (cs_memory_used ?c) = entries_bytes ct (lru_entries q)"
      using w by (simp add: entry_bytes_def unat_sub_twice)
    ultimately have "cache_acc ct ?c"
      using inv q hits_delete [OF inv(3), of k] by (simp add: cache_acc_def del: delete_keys)
    from 1(1) [OF True q(1) refl refl refl this] obtain c' n where
      c': "cache_evict_entries ct ?c = Some c'" "cache_acc ct c'" and
      n: "cache_entries c' = take n (lru_entries q)" "n \<le> length (lru_entries q)" and
      m: "\<forall>m. n < m \<and> m \<le> length (lru_entries q) \<longrightarrow>
        unat (cs_memory_limit c) < entries_bytes ct (take m (lru_entries q))" and
      rest: "cs_memory_used c' \<le> cs_memory_limit c" "cs_memory_limit c' = cs_memory_limit c"
        "cs_ttl c' = cs_ttl c"
      by auto
    have "unat (cs_memory_limit c) < entries_bytes ct (take j (cache_entries c))"
      if "n < j" "j \<le> length (cache_entries c)" for j
      using m that pos q(3)
      by (cases "j = length (cache_entries c)") (auto simp: take_butlast)
    moreover have "n < length (cache_entries c)"
      using n(2) q(3) ne by (metis One_nat_def diff_less le_less_trans length_butlast length_greater_0_conv zero_less_one)
    then have "cache_entries c' = take n (cache_entries c)" "n \<le> length (cache_entries c)"
      using n(1) q(3) by (simp_all add: take_butlast)
    moreover have "cache_evict_entries ct c = Some c'"
      using True q(1) c'(1) by (simp add: cache_evict_entries.simps [of ct c])
    ultimately show ?thesis using c'(2) rest by blast
  qed
qed

lemma cache_get_acc:
  assumes "cache_acc ct c"
  shows "\<exists>r c'. cache_get ct k now c = Some (r, c') \<and> cache_acc ct c' \<and>
    (case map_of (cache_entries c) k of
       None \<Rightarrow> r = None \<and> cache_entries c' = cache_entries c
     | Some e \<Rightarrow>
         if entry_expired now e then r = None \<and> cache_entries c' = lru_del k (cache_entries c)
         else r = Some (ve_value e) \<and> cache_entries c' = (k, e) # lru_del k (cache_entries c)) \<and>
    cs_memory_used c' \<le> cs_memory_used c \<and> cs_memory_limit c' = cs_memory_limit c \<and> cs_ttl c' = cs_ttl c"
proof -
  note inv = cache_accD [OF assms]
  obtain q where q: "lru_get (cs_queue c) k = Some (map_of (cache_entries c) k, q)"
    "lru_invar q" "lru_entries q = lru_touch k (cache_entries c)"
    using lru.get [OF inv(1)] by blast
  let ?c = "c\<lparr>cs_queue := q\<rparr>"
  have acc: "cache_acc ct ?c"
    using inv q lru.weight_get [OF inv(1) q(1), of "entry_bytes ct"]
    by (simp add: cache_acc_def lru_touch_keys entries_bytes_weight [symmetric])
  show ?thesis
  proof (cases "map_of (cache_entries c) k")
    case None
    then show ?thesis using q acc by (simp add: cache_get_def lru_touch_def)
  next
    case (Some e)
    have es: "lru_entries q = (k, e) # lru_del k (cache_entries c)"
      using Some q(3) by (simp add: lru_touch_def)
    have del: "lru_del k (lru_entries q) = lru_del k (cache_entries c)"
      using es by (simp add: lru_del_def)
    have "k \<in> fst ` set (cs_hits c)"
      using inv(4) Some by (metis map_of_eq_None_iff option.distinct(1))
    then have "cache_acc ct (c\<lparr>cs_queue := q, cs_hits := hits_increment k (cs_hits c)\<rparr>)"
      using acc
      by (auto simp: cache_acc_def hits_increment_def distinct_update dom_update insert_absorb)
    then show ?thesis
      using Some q(1) es del cache_remove_acc [OF acc, of k] by (auto simp: cache_get_def)
  qed
qed

lemma cache_contains_acc:
  assumes "cache_acc ct c"
  shows "\<exists>c'. cache_contains_key ct k now c =
      Some (case map_of (cache_entries c) k of None \<Rightarrow> False | Some e \<Rightarrow> \<not> entry_expired now e, c') \<and>
    cache_acc ct c' \<and> cs_memory_used c' \<le> cs_memory_used c \<and>
    cs_memory_limit c' = cs_memory_limit c \<and> cs_ttl c' = cs_ttl c"
  using assms lru.peek [OF cache_accD(1) [OF assms], of k] cache_remove_acc [OF assms, of k]
  by (auto simp: cache_contains_key_def split: option.splits)

text \<open>What an accepted \<open>put\<close> leaves: the new entry in front, cut to the budget.\<close>

definition put_entry :: "'v \<Rightarrow> nat \<Rightarrow> ('k, 'v) cache_state \<Rightarrow> 'v value_entry" where
  "put_entry v now c = \<lparr>ve_value = v, ve_expires = map_option (\<lambda>ttl. now + ttl) (cs_ttl c)\<rparr>"

definition put_accepted :: "('k, 'v, 't) cache_traits \<Rightarrow> 'k \<Rightarrow> 'v \<Rightarrow> ('k, 'v) cache_state \<Rightarrow> bool" where
  "put_accepted ct k v c \<longleftrightarrow>
     ct_value_size ct v \<noteq> 0 \<and> ct_key_size ct k + ct_value_size ct v \<le> cs_memory_limit c"

lemma cache_put_accepted:
  fixes now :: nat
  assumes ok: "cache_ok ct c" and acc: "put_accepted ct k v c"
    and nowrap: "unat (ct_key_size ct k) + unat (ct_value_size ct v) < 2 ^ 64"
  defines "es \<equiv> (k, put_entry v now c) # lru_del k (cache_entries c)"
  shows "\<exists>c' n. cache_put ct k v now c = Some (map_option ve_value (map_of (cache_entries c) k), c') \<and>
    cache_ok ct c' \<and> cache_entries c' = take n es \<and> 0 < n \<and> n \<le> length es \<and>
    (\<forall>m. n < m \<and> m \<le> length es \<longrightarrow> unat (cs_memory_limit c) < entries_bytes ct (take m es)) \<and>
    cs_memory_limit c' = cs_memory_limit c \<and> cs_ttl c' = cs_ttl c"
proof -
  note inv = cache_okD [OF ok]
  note inv' = cache_accD [OF inv(1)]
  let ?e = "put_entry v now c"
  define t where "t = ct_key_size ct k + ct_value_size ct v"
  obtain q where q: "lru_put (cs_queue c) k ?e = Some (map_of (cache_entries c) k, q)"
    "lru_invar q" "lru_entries q = es"
    using lru.put [OF inv(4)] unfolding es_def by blast
  have ub: "unat t = entry_bytes ct k ?e"
    using nowrap by (simp add: entry_bytes_def put_entry_def t_def usize_simps)
  have sum: "unat (cs_memory_used c + t) = unat (cs_memory_used c) + unat t"
    using inv(2,3) acc by (intro unat_add_no_overflow) (auto simp: put_accepted_def t_def word_le_nat_alt)
  have w: "entries_bytes ct es +
      (case map_of (cache_entries c) k of None \<Rightarrow> 0 | Some v \<Rightarrow> entry_bytes ct k v) =
      unat (cs_memory_used c + t)"
    using lru.weight_put [OF inv(4) q(1), of "entry_bytes ct"] inv'(2) sum ub q(3)
    by (simp add: entries_bytes_weight [symmetric])
  define used where "used = (case map_of (cache_entries c) k of None \<Rightarrow> cs_memory_used c + t
      | Some old \<Rightarrow> cs_memory_used c + t - ct_key_size ct k - ct_value_size ct (ve_value old))"
  have used: "unat used = entries_bytes ct es"
    using w by (auto simp: used_def entry_bytes_def unat_sub_twice split: option.splits)
  let ?c = "c\<lparr>cs_queue := q, cs_memory_used := used, cs_hits := AList.update k 0 (cs_hits c)\<rparr>"
  have "cache_acc ct ?c"
    using inv' q used by (auto simp: cache_acc_def distinct_update dom_update es_def lru_del_keys)
  from cache_evict_acc [OF this] obtain c' n where
    ev: "cache_evict_entries ct ?c = Some c'" "cache_acc ct c'" "cs_memory_used c' \<le> cs_memory_limit c"
      "cs_memory_limit c' = cs_memory_limit c" "cs_ttl c' = cs_ttl c"
    and n: "cache_entries c' = take n es" "n \<le> length es"
    and m: "\<forall>m. n < m \<and> m \<le> length es \<longrightarrow> unat (cs_memory_limit c) < entries_bytes ct (take m es)"
    using q(3) by auto
  have "\<not> unat (cs_memory_limit c) < entries_bytes ct (take 1 es)"
    using acc ub by (simp add: put_accepted_def t_def es_def word_le_nat_alt)
  with m have "0 < n" by (metis One_nat_def Suc_leI es_def length_Cons not_gr_zero zero_less_Suc)
  moreover have "cache_put ct k v now c = Some (map_option ve_value (map_of (cache_entries c) k), c')"
    using acc q(1) ev(1) unfolding used_def put_entry_def put_accepted_def
    by (simp add: cache_put_def Let_def leD flip: t_def)
  moreover have "cache_ok ct c'" using ev inv(3) by (simp add: cache_ok_def)
  ultimately show ?thesis using ev(4,5) n m by blast
qed

lemma cache_put_rejected:
  assumes "\<not> put_accepted ct k v c"
  shows "cache_put ct k v now c = (if ct_value_size ct v = 0 then Some (None, c) else cache_remove ct k c)"
  using assms by (auto simp: cache_put_def put_accepted_def Let_def)

lemma cache_remove_all_acc:
  assumes "cache_acc ct c"
  shows "\<exists>c'. cache_remove_all ct ks c = Some c' \<and> cache_acc ct c' \<and>
    cache_entries c' = filter (\<lambda>e. fst e \<notin> set ks) (cache_entries c) \<and>
    cs_memory_used c' \<le> cs_memory_used c \<and> cs_memory_limit c' = cs_memory_limit c \<and> cs_ttl c' = cs_ttl c"
  using assms
proof (induction ks arbitrary: c)
  case (Cons k ks)
  obtain c1 where c1: "cache_remove ct k c = Some (map_option ve_value (map_of (cache_entries c) k), c1)"
    "cache_acc ct c1" "cache_entries c1 = lru_del k (cache_entries c)"
    "cs_memory_used c1 \<le> cs_memory_used c" "cs_memory_limit c1 = cs_memory_limit c" "cs_ttl c1 = cs_ttl c"
    using cache_remove_acc [OF Cons.prems, of k] by blast
  have "filter (\<lambda>e. fst e \<notin> set ks) (lru_del k (cache_entries c)) =
      filter (\<lambda>e. fst e \<notin> set (k # ks)) (cache_entries c)"
    by (auto simp: lru_del_def intro: filter_cong)
  then show ?case using Cons.IH [OF c1(2)] c1 by (auto intro: order_trans)
qed simp

lemma cache_drop_acc:
  assumes "cache_acc ct c"
  shows "\<exists>c'. cache_drop_table_entries ct t c = Some c' \<and> cache_acc ct c' \<and>
    cache_entries c' = filter (\<lambda>(k, _). ct_table_ref ct k \<noteq> Some t) (cache_entries c) \<and>
    cs_memory_used c' \<le> cs_memory_used c \<and> cs_memory_limit c' = cs_memory_limit c \<and> cs_ttl c' = cs_ttl c"
proof -
  have "set (lru_keys (cs_queue c)) = fst ` set (cache_entries c)"
    using lru.keys [OF cache_accD(1) [OF assms]] by simp
  then have "filter (\<lambda>e. fst e \<notin> set (filter (\<lambda>k. ct_table_ref ct k = Some t) (lru_keys (cs_queue c))))
      (cache_entries c) = filter (\<lambda>(k, _). ct_table_ref ct k \<noteq> Some t) (cache_entries c)"
    by (intro filter_cong) auto
  then show ?thesis
    using cache_remove_all_acc [OF assms] by (metis cache_drop_table_entries_def)
qed

section \<open>Every cache that the public operations build\<close>

inductive cache_reachable :: "('k, 'v, 't) cache_traits \<Rightarrow> ('k, 'v) cache_state \<Rightarrow> bool"
  for ct :: "('k, 'v, 't) cache_traits" where
  new: "unat limit < 2 ^ 63 \<Longrightarrow> cache_reachable ct (cache_new limit ttl)"
| get: "cache_reachable ct c \<Longrightarrow> cache_get ct k now c = Some (r, c') \<Longrightarrow> cache_reachable ct c'"
| contains_key: "cache_reachable ct c \<Longrightarrow> cache_contains_key ct k now c = Some (b, c') \<Longrightarrow>
    cache_reachable ct c'"
| put: "cache_reachable ct c \<Longrightarrow> cache_put ct k v now c = Some (r, c') \<Longrightarrow>
    unat (ct_key_size ct k) + unat (ct_value_size ct v) < 2 ^ 64 \<Longrightarrow> cache_reachable ct c'"
| remove: "cache_reachable ct c \<Longrightarrow> cache_remove ct k c = Some (r, c') \<Longrightarrow> cache_reachable ct c'"
| clear: "cache_reachable ct c \<Longrightarrow> cache_reachable ct (cache_clear c)"
| update_limit: "cache_reachable ct c \<Longrightarrow> cache_update_limit ct limit c = Some c' \<Longrightarrow>
    unat limit < 2 ^ 63 \<Longrightarrow> cache_reachable ct c'"
| update_ttl: "cache_reachable ct c \<Longrightarrow> cache_reachable ct (cache_update_ttl ttl c)"
| drop_table: "cache_reachable ct c \<Longrightarrow> cache_drop_table_entries ct t c = Some c' \<Longrightarrow>
    cache_reachable ct c'"

lemma cache_ok_mono:
  assumes "cache_ok ct c" "cache_acc ct c'" "cs_memory_used c' \<le> cs_memory_used c"
    "cs_memory_limit c' = cs_memory_limit c"
  shows "cache_ok ct c'"
  using assms by (auto simp: cache_ok_def)

lemma cache_reachable_ok: "cache_reachable ct c \<Longrightarrow> cache_ok ct c"
proof (induction rule: cache_reachable.induct)
  case (new limit ttl)
  then show ?case by (simp add: cache_ok_def cache_acc_def cache_new_def lru.new)
next
  case (get c k now r c')
  then have "cache_acc ct c' \<and> cs_memory_used c' \<le> cs_memory_used c \<and> cs_memory_limit c' = cs_memory_limit c"
    using cache_get_acc [OF cache_okD(1) [OF get.IH], of k now] by auto
  then show ?case using cache_ok_mono [OF get.IH] by blast
next
  case (contains_key c k now b c')
  then have "cache_acc ct c' \<and> cs_memory_used c' \<le> cs_memory_used c \<and> cs_memory_limit c' = cs_memory_limit c"
    using cache_contains_acc [OF cache_okD(1) [OF contains_key.IH], of k now] by auto
  then show ?case using cache_ok_mono [OF contains_key.IH] by blast
next
  case (put c k v now r c')
  show ?case
  proof (cases "put_accepted ct k v c")
    case True
    then show ?thesis using cache_put_accepted [OF put.IH True put.hyps(3), of now] put.hyps(2) by auto
  next
    case False
    obtain c1 where "cache_remove ct k c = Some (map_option ve_value (map_of (cache_entries c) k), c1)"
      and "cache_ok ct c1"
      using cache_remove_acc [OF cache_okD(1) [OF put.IH], of k] cache_ok_mono [OF put.IH] by blast
    then show ?thesis
      using cache_put_rejected [OF False, of now] put.hyps(2) put.IH by (auto split: if_splits)
  qed
next
  case (remove c k r c')
  then have "cache_acc ct c' \<and> cs_memory_used c' \<le> cs_memory_used c \<and> cs_memory_limit c' = cs_memory_limit c"
    using cache_remove_acc [OF cache_okD(1) [OF remove.IH], of k] by auto
  then show ?case using cache_ok_mono [OF remove.IH] by blast
next
  case (clear c)
  then show ?case by (simp add: cache_ok_def cache_acc_def cache_clear_def lru.clear)
next
  case (update_limit c limit c')
  then have "cache_acc ct (c\<lparr>cs_memory_limit := limit\<rparr>)" by (simp add: cache_ok_def cache_acc_def)
  from cache_evict_acc [OF this] show ?case
    using update_limit by (auto simp: cache_update_limit_def cache_ok_def)
next
  case (update_ttl c ttl)
  then show ?case by (simp add: cache_ok_def cache_acc_def cache_update_ttl_def)
next
  case (drop_table c t c')
  then have "cache_acc ct c' \<and> cs_memory_used c' \<le> cs_memory_used c \<and> cs_memory_limit c' = cs_memory_limit c"
    using cache_drop_acc [OF cache_okD(1) [OF drop_table.IH], of t] by auto
  then show ?case using cache_ok_mono [OF drop_table.IH] by blast
qed

section \<open>Properties\<close>

text \<open>A concrete cache: string keys and values that weigh their length, tables by first letter.\<close>

definition demo_traits :: "(string, string, char) cache_traits" where
  "demo_traits = \<lparr>ct_key_size = (\<lambda>k. of_nat (length k)), ct_value_size = (\<lambda>v. of_nat (length v)),
     ct_table_ref = (\<lambda>k. case k of [] \<Rightarrow> None | ch # _ \<Rightarrow> Some ch)\<rparr>"

definition demo_cache :: "(string, string) cache_state" where
  "demo_cache = cache_new 8 (Some 10)"

lemma demo_reachable: "cache_reachable demo_traits demo_cache"
  by (simp add: demo_cache_def cache_reachable.new)

text \<open>
  C23. In every cache that the public operations build, \<open>memory_used\<close> is exactly the sum of the
  sizes of the cached keys and values (no operation wraps it around), it is within the memory
  limit, and the hit counters are kept for exactly the cached keys.
\<close>

theorem cache_accounting:
  assumes "cache_reachable ct c"
  shows "unat (cs_memory_used c) = (\<Sum>(k, e) \<leftarrow> lru_entries (cs_queue c). entry_bytes ct k e) \<and>
    cs_memory_used c \<le> cs_memory_limit c \<and>
    set (map fst (cs_hits c)) = set (map fst (lru_entries (cs_queue c))) \<and>
    cache_len c = length (lru_entries (cs_queue c))"
proof -
  note inv = cache_okD [OF cache_reachable_ok [OF assms]]
  show ?thesis
    using cache_accD [OF inv(1)] inv(2) lru.len [OF inv(4)]
    by (simp add: entries_bytes_def cache_len_def)
qed

theorem cache_accounting_witness:
  "cs_memory_used demo_cache \<le> cs_memory_limit demo_cache \<and> cache_len demo_cache = 0"
  using cache_accounting [OF demo_reachable] by (simp add: demo_cache_def cache_new_def cache_len_def lru_len_def lru_new_def)

text \<open>
  C24. An accepted \<open>put\<close> (non-empty value, entry within the limit) never panics and returns the
  replaced value; afterwards the cache holds the longest prefix, in order of recency, of the
  new entry followed by the old entries of the other keys that fits in the memory limit.  The
  new entry always survives: eviction takes only from the least recently used end and stops as
  soon as the rest fits.
\<close>

theorem cache_put_evicts_least_recent:
  assumes "cache_reachable ct c" and "put_accepted ct k v c"
    and "unat (ct_key_size ct k) + unat (ct_value_size ct v) < 2 ^ 64"
  shows "\<exists>c' n. cache_put ct k v now c =
      Some (map_option ve_value (map_of (lru_entries (cs_queue c)) k), c') \<and>
    (let es = (k, put_entry v now c) # lru_del k (lru_entries (cs_queue c)) in
      0 < n \<and> n \<le> length es \<and> lru_entries (cs_queue c') = take n es \<and>
      entries_bytes ct (take n es) \<le> unat (cs_memory_limit c) \<and>
      (\<forall>m. n < m \<and> m \<le> length es \<longrightarrow> unat (cs_memory_limit c) < entries_bytes ct (take m es)))"
proof -
  let ?es = "(k, put_entry v now c) # lru_del k (lru_entries (cs_queue c))"
  obtain c' n where r: "cache_put ct k v now c =
      Some (map_option ve_value (map_of (lru_entries (cs_queue c)) k), c')" "cache_ok ct c'"
    "cs_memory_limit c' = cs_memory_limit c"
    "lru_entries (cs_queue c') = take n ?es" "0 < n" "n \<le> length ?es"
    "\<forall>m. n < m \<and> m \<le> length ?es \<longrightarrow> unat (cs_memory_limit c) < entries_bytes ct (take m ?es)"
    using cache_put_accepted [OF cache_reachable_ok [OF assms(1)] assms(2,3), of now] by blast
  have "unat (cs_memory_used c') \<le> unat (cs_memory_limit c)"
    using cache_okD(2) [OF r(2)] r(3) by (simp add: word_le_nat_alt)
  then have "entries_bytes ct (take n ?es) \<le> unat (cs_memory_limit c)"
    using cache_accD(2) [OF cache_okD(1) [OF r(2)]] r(4) by simp
  then show ?thesis using r unfolding Let_def by blast
qed

theorem cache_put_evicts_least_recent_witness:
  "\<exists>c' n. cache_put demo_traits ''ab'' ''xyz'' 0 demo_cache =
      Some (map_option ve_value (map_of (lru_entries (cs_queue demo_cache)) ''ab''), c') \<and>
    0 < n \<and> lru_entries (cs_queue c') =
      take n ((''ab'', put_entry ''xyz'' 0 demo_cache) # lru_del ''ab'' (lru_entries (cs_queue demo_cache)))"
proof -
  have acc: "put_accepted demo_traits ''ab'' ''xyz'' demo_cache"
    and nowrap: "unat (ct_key_size demo_traits ''ab'') + unat (ct_value_size demo_traits ''xyz'') < 2 ^ 64"
    by (simp_all add: put_accepted_def demo_traits_def demo_cache_def cache_new_def)
  show ?thesis
    using cache_put_evicts_least_recent [OF demo_reachable acc nowrap, of 0] unfolding Let_def by blast
qed

text \<open>
  C25. A value that \<open>put\<close> accepts at instant \<open>t\<close> is what \<open>get\<close> of the same key returns at every
  instant up to its expiry \<open>t + ttl\<close> (at every instant when the cache has no time to live); at
  every later instant \<open>get\<close> returns nothing and drops the entry.
\<close>

theorem cache_put_then_get:
  assumes "cache_reachable ct c" and "put_accepted ct k v c"
    and "unat (ct_key_size ct k) + unat (ct_value_size ct v) < 2 ^ 64"
  shows "\<exists>old c1 c2. cache_put ct k v t c = Some (old, c1) \<and>
    cache_get ct k now c1 =
      Some (if (case cs_ttl c of None \<Rightarrow> True | Some ttl \<Rightarrow> now \<le> t + ttl) then Some v else None, c2) \<and>
    (k \<in> fst ` set (lru_entries (cs_queue c2)) \<longleftrightarrow>
      (case cs_ttl c of None \<Rightarrow> True | Some ttl \<Rightarrow> now \<le> t + ttl))"
proof -
  let ?e = "put_entry v t c"
  obtain old c1 n where c1: "cache_put ct k v t c = Some (old, c1)" "cache_ok ct c1"
    "lru_entries (cs_queue c1) = take n ((k, ?e) # lru_del k (lru_entries (cs_queue c)))" "0 < n"
    using cache_put_accepted [OF cache_reachable_ok [OF assms(1)] assms(2,3), of t] by blast
  then have e: "map_of (lru_entries (cs_queue c1)) k = Some ?e" by (cases n) auto
  have exp: "entry_expired now ?e \<longleftrightarrow> \<not> (case cs_ttl c of None \<Rightarrow> True | Some ttl \<Rightarrow> now \<le> t + ttl)"
    by (auto simp: entry_expired_def put_entry_def split: option.splits)
  obtain r c2 where "cache_get ct k now c1 = Some (r, c2)"
    "if entry_expired now ?e then r = None \<and> lru_entries (cs_queue c2) = lru_del k (lru_entries (cs_queue c1))
     else r = Some v \<and> lru_entries (cs_queue c2) = (k, ?e) # lru_del k (lru_entries (cs_queue c1))"
    using cache_get_acc [OF cache_okD(1) [OF c1(2)], of k now] e by (auto simp: put_entry_def)
  then show ?thesis using c1(1) exp by (auto simp: lru_del_keys split: if_splits)
qed

theorem cache_put_then_get_witness:
  "\<exists>old c1 c2. cache_put demo_traits ''ab'' ''xyz'' 5 demo_cache = Some (old, c1) \<and>
    cache_get demo_traits ''ab'' 15 c1 = Some (Some ''xyz'', c2)"
proof -
  have acc: "put_accepted demo_traits ''ab'' ''xyz'' demo_cache"
    and nowrap: "unat (ct_key_size demo_traits ''ab'') + unat (ct_value_size demo_traits ''xyz'') < 2 ^ 64"
    and ttl: "cs_ttl demo_cache = Some 10"
    by (simp_all add: put_accepted_def demo_traits_def demo_cache_def cache_new_def)
  show ?thesis
    using cache_put_then_get [OF demo_reachable acc nowrap, of 5 15] unfolding ttl by auto
qed

text \<open>
  Dropping a table removes exactly the entries whose key belongs to that table, keeps the
  order of the others, and never panics.
\<close>

theorem cache_drop_table_exact:
  assumes "cache_reachable ct c"
  shows "\<exists>c'. cache_drop_table_entries ct t c = Some c' \<and>
    lru_entries (cs_queue c') =
      filter (\<lambda>(k, _). ct_table_ref ct k \<noteq> Some t) (lru_entries (cs_queue c)) \<and>
    unat (cs_memory_used c') = entries_bytes ct (lru_entries (cs_queue c'))"
  using cache_drop_acc [OF cache_okD(1) [OF cache_reachable_ok [OF assms]], of t] cache_accD(2) by blast

theorem cache_drop_table_exact_witness:
  "\<exists>c'. cache_drop_table_entries demo_traits CHR ''a'' demo_cache = Some c' \<and>
    unat (cs_memory_used c') = entries_bytes demo_traits (lru_entries (cs_queue c'))"
  using cache_drop_table_exact [OF demo_reachable] by blast

end
