(* ===== verification/Sort_Cursor.thy ===== *)
theory Sort_Cursor
  imports Prelude
begin

text \<open>
  The cursors of \<open>physical-plan/src/sorts/cursor.rs\<close>: the trait \<open>CursorValues\<close> as a record of
  functions, \<open>Cursor\<close>, and its implementations for primitive columns (which cache the current
  and the previous value), byte arrays, row-encoded keys (which cache the current row) and
  nullable arrays with sort options.  An access out of range and a failed \<open>assert!\<close> panic,
  which is \<open>None\<close>.  \<open>cursor_contract\<close> states what the merge relies on; every implementation
  satisfies it, so the caches are never read out of step.
\<close>

section \<open>The trait\<close>

record ('v, 's) cursor_values =
  cv_len :: "'v \<Rightarrow> nat"
  cv_eq :: "'v \<Rightarrow> nat \<Rightarrow> 'v \<Rightarrow> nat \<Rightarrow> bool option"
  cv_eq_to_previous :: "'v \<Rightarrow> nat \<Rightarrow> bool option"
  cv_compare :: "'v \<Rightarrow> nat \<Rightarrow> 'v \<Rightarrow> nat \<Rightarrow> ordering option"
  cv_get_value :: "'v \<Rightarrow> nat \<Rightarrow> 's option"
  cv_eq_to_single_row_value :: "'v \<Rightarrow> nat \<Rightarrow> 's \<Rightarrow> bool option"
  cv_set_offset :: "'v \<Rightarrow> nat \<Rightarrow> 'v option"

section \<open>Cursors\<close>

record 'v cursor =
  cur_offset :: nat
  cur_values :: 'v

definition cursor_new :: "'v \<Rightarrow> 'v cursor" where
  "cursor_new values = \<lparr>cur_offset = 0, cur_values = values\<rparr>"

definition is_finished :: "('v, 's) cursor_values \<Rightarrow> 'v cursor \<Rightarrow> bool" where
  "is_finished CV c \<longleftrightarrow> cur_offset c = cv_len CV (cur_values c)"

definition advance :: "('v, 's) cursor_values \<Rightarrow> 'v cursor \<Rightarrow> (nat \<times> 'v cursor) option" where
  "advance CV c =
     (let t = cur_offset c; c' = c\<lparr>cur_offset := t + 1\<rparr>
      in if cur_offset c' < cv_len CV (cur_values c')
         then map_option (\<lambda>v. (t, c'\<lparr>cur_values := v\<rparr>)) (cv_set_offset CV (cur_values c') (cur_offset c'))
         else Some (t, c'))"

definition is_eq_to_prev_row :: "('v, 's) cursor_values \<Rightarrow> 'v cursor \<Rightarrow> bool option" where
  "is_eq_to_prev_row CV c = cv_eq_to_previous CV (cur_values c) (cur_offset c)"

definition is_eq_to_prev_one :: "('v, 's) cursor_values \<Rightarrow> 'v cursor \<Rightarrow> 's option \<Rightarrow> bool option" where
  "is_eq_to_prev_one CV c prev_value =
     (if 0 < cur_offset c then is_eq_to_prev_row CV c
      else case prev_value of
        Some p \<Rightarrow> cv_eq_to_single_row_value CV (cur_values c) (cur_offset c) p
      | None \<Rightarrow> Some False)"

text \<open>\<open>len() - 1\<close> wraps to an index out of range when the values are empty.\<close>

definition last_value :: "('v, 's) cursor_values \<Rightarrow> 'v cursor \<Rightarrow> 's option" where
  "last_value CV c =
     (if cv_len CV (cur_values c) = 0 then None
      else cv_get_value CV (cur_values c) (cv_len CV (cur_values c) - 1))"

definition cursor_eq :: "('v, 's) cursor_values \<Rightarrow> 'v cursor \<Rightarrow> 'v cursor \<Rightarrow> bool option" where
  "cursor_eq CV a b = cv_eq CV (cur_values a) (cur_offset a) (cur_values b) (cur_offset b)"

definition cursor_cmp :: "('v, 's) cursor_values \<Rightarrow> 'v cursor \<Rightarrow> 'v cursor \<Rightarrow> ordering option" where
  "cursor_cmp CV a b = cv_compare CV (cur_values a) (cur_offset a) (cur_values b) (cur_offset b)"

section \<open>Primitive columns\<close>

text \<open>
  What the code uses of \<open>ArrowNativeTypeOp\<close> of the arrow crate: the default value, equality and
  the total comparison.
\<close>

record 'n native_ops =
  nt_default :: 'n
  nt_is_eq :: "'n \<Rightarrow> 'n \<Rightarrow> bool"
  nt_compare :: "'n \<Rightarrow> 'n \<Rightarrow> ordering"

record 'n primitive_values =
  pv_values :: "'n list"
  pv_current :: 'n
  pv_previous :: 'n
  pv_offset :: nat

definition primitive_new :: "'n native_ops \<Rightarrow> 'n list \<Rightarrow> 'n primitive_values" where
  "primitive_new N values =
     (let first = (case values of [] \<Rightarrow> nt_default N | v # _ \<Rightarrow> v)
      in \<lparr>pv_values = values, pv_current = first, pv_previous = first, pv_offset = 0\<rparr>)"

definition primitive_eq_at :: "'n native_ops \<Rightarrow> 'n primitive_values \<Rightarrow> nat \<Rightarrow> 'n primitive_values \<Rightarrow> nat \<Rightarrow> bool option" where
  "primitive_eq_at N l l_idx r r_idx = do {
     a \<leftarrow> vec_get (pv_values l) l_idx;
     b \<leftarrow> vec_get (pv_values r) r_idx;
     Some (nt_is_eq N a b) }"

definition primitive_eq_to_previous :: "'n native_ops \<Rightarrow> 'n primitive_values \<Rightarrow> nat \<Rightarrow> bool option" where
  "primitive_eq_to_previous N v idx =
     (if idx = 0 then None else Some (nt_is_eq N (pv_current v) (pv_previous v)))"

definition primitive_compare ::
  "'n native_ops \<Rightarrow> 'n primitive_values \<Rightarrow> nat \<Rightarrow> 'n primitive_values \<Rightarrow> nat \<Rightarrow> ordering option" where
  "primitive_compare N l l_idx r r_idx = Some (nt_compare N (pv_current l) (pv_current r))"

definition primitive_set_offset :: "'n primitive_values \<Rightarrow> nat \<Rightarrow> 'n primitive_values option" where
  "primitive_set_offset v offset = do {
     c \<leftarrow> vec_get (pv_values v) offset;
     Some (v\<lparr>pv_previous := pv_current v, pv_current := c, pv_offset := offset\<rparr>) }"

definition primitive_eq_to_single ::
  "'n native_ops \<Rightarrow> 'n primitive_values \<Rightarrow> nat \<Rightarrow> 'n \<Rightarrow> bool option" where
  "primitive_eq_to_single N l l_idx r = do {
     a \<leftarrow> vec_get (pv_values l) l_idx;
     Some (nt_is_eq N a r) }"

definition primitive_impl :: "'n native_ops \<Rightarrow> ('n primitive_values, 'n) cursor_values" where
  "primitive_impl N =
     \<lparr>cv_len = (\<lambda>v. length (pv_values v)),
      cv_eq = primitive_eq_at N,
      cv_eq_to_previous = primitive_eq_to_previous N,
      cv_compare = primitive_compare N,
      cv_get_value = (\<lambda>v. vec_get (pv_values v)),
      cv_eq_to_single_row_value = primitive_eq_to_single N,
      cv_set_offset = primitive_set_offset\<rparr>"

section \<open>Byte arrays\<close>

type_synonym byte = "8 word"

record byte_array_values =
  ba_offsets :: "nat list"
  ba_values :: "byte list"

definition byte_array_len :: "byte_array_values \<Rightarrow> nat" where
  "byte_array_len v = length (ba_offsets v) - 1"

definition byte_array_value :: "byte_array_values \<Rightarrow> nat \<Rightarrow> byte list option" where
  "byte_array_value v idx =
     (if idx < byte_array_len v then
        (let start = ba_offsets v ! idx; end' = ba_offsets v ! (idx + 1)
         in Some (take (end' - start) (drop start (ba_values v))))
      else None)"

definition byte_array_eq :: "byte_array_values \<Rightarrow> nat \<Rightarrow> byte_array_values \<Rightarrow> nat \<Rightarrow> bool option" where
  "byte_array_eq l l_idx r r_idx = do {
     a \<leftarrow> byte_array_value l l_idx;
     b \<leftarrow> byte_array_value r r_idx;
     Some (a = b) }"

definition byte_array_eq_to_previous :: "byte_array_values \<Rightarrow> nat \<Rightarrow> bool option" where
  "byte_array_eq_to_previous v idx =
     (if idx = 0 then None else byte_array_eq v idx v (idx - 1))"

definition byte_array_compare ::
  "byte_array_values \<Rightarrow> nat \<Rightarrow> byte_array_values \<Rightarrow> nat \<Rightarrow> ordering option" where
  "byte_array_compare l l_idx r r_idx = do {
     a \<leftarrow> byte_array_value l l_idx;
     b \<leftarrow> byte_array_value r r_idx;
     Some (slice_cmp a b) }"

definition byte_array_eq_to_single :: "byte_array_values \<Rightarrow> nat \<Rightarrow> byte list \<Rightarrow> bool option" where
  "byte_array_eq_to_single l l_idx r = map_option (\<lambda>a. a = r) (byte_array_value l l_idx)"

definition byte_array_impl :: "(byte_array_values, byte list) cursor_values" where
  "byte_array_impl =
     \<lparr>cv_len = byte_array_len,
      cv_eq = byte_array_eq,
      cv_eq_to_previous = byte_array_eq_to_previous,
      cv_compare = byte_array_compare,
      cv_get_value = byte_array_value,
      cv_eq_to_single_row_value = byte_array_eq_to_single,
      cv_set_offset = (\<lambda>v _. Some v)\<rparr>"

section \<open>Row-encoded keys\<close>

text \<open>
  \<open>Rows\<close> of the arrow crate is a list of encoded rows.  The cached pointer and length are the
  byte slice they denote.  The reservation matters only for the assertion of the constructor.
\<close>

record row_values =
  rv_rows :: "byte list list"
  rv_len :: nat
  rv_current :: "byte list"

definition row_values_new :: "byte list list \<Rightarrow> usize \<Rightarrow> usize \<Rightarrow> row_values option" where
  "row_values_new rows rows_size reservation_size =
     (if \<not> (reservation_size = 0 \<or> reservation_size = rows_size) then None
      else if length rows = 0 then None
      else do {
        row \<leftarrow> vec_get rows 0;
        Some \<lparr>rv_rows = rows, rv_len = length rows, rv_current = row\<rparr> })"

definition row_values_eq :: "row_values \<Rightarrow> nat \<Rightarrow> row_values \<Rightarrow> nat \<Rightarrow> bool option" where
  "row_values_eq l l_idx r r_idx = do {
     a \<leftarrow> vec_get (rv_rows l) l_idx;
     b \<leftarrow> vec_get (rv_rows r) r_idx;
     Some (a = b) }"

definition row_values_eq_to_previous :: "row_values \<Rightarrow> nat \<Rightarrow> bool option" where
  "row_values_eq_to_previous v idx =
     (if idx = 0 then None else row_values_eq v idx v (idx - 1))"

definition row_values_compare :: "row_values \<Rightarrow> nat \<Rightarrow> row_values \<Rightarrow> nat \<Rightarrow> ordering option" where
  "row_values_compare l l_idx r r_idx = Some (slice_cmp (rv_current l) (rv_current r))"

definition row_values_set_offset :: "row_values \<Rightarrow> nat \<Rightarrow> row_values option" where
  "row_values_set_offset v offset = do {
     row \<leftarrow> vec_get (rv_rows v) offset;
     Some (v\<lparr>rv_current := row\<rparr>) }"

definition row_values_eq_to_single :: "row_values \<Rightarrow> nat \<Rightarrow> byte list \<Rightarrow> bool option" where
  "row_values_eq_to_single l l_idx r = map_option (\<lambda>a. a = r) (vec_get (rv_rows l) l_idx)"

definition row_values_impl :: "(row_values, byte list) cursor_values" where
  "row_values_impl =
     \<lparr>cv_len = rv_len,
      cv_eq = row_values_eq,
      cv_eq_to_previous = row_values_eq_to_previous,
      cv_compare = row_values_compare,
      cv_get_value = (\<lambda>v. vec_get (rv_rows v)),
      cv_eq_to_single_row_value = row_values_eq_to_single,
      cv_set_offset = row_values_set_offset\<rparr>"

section \<open>Nullable arrays with sort options\<close>

record sort_options =
  descending :: bool
  nulls_first :: bool

record 'v array_values =
  av_values :: 'v
  av_null_threshold :: nat
  av_options :: sort_options
  av_has_nulls :: bool

text \<open>
  The constructor reads of the array its length, its null count and its values; it asserts that
  the array is not empty.
\<close>

definition array_values_new :: "sort_options \<Rightarrow> nat \<Rightarrow> nat \<Rightarrow> 'v \<Rightarrow> 'v array_values option" where
  "array_values_new options len null_count values =
     (if len = 0 then None
      else Some \<lparr>av_values = values,
                 av_null_threshold = (if nulls_first options then null_count else len - null_count),
                 av_options = options,
                 av_has_nulls = (null_count > 0)\<rparr>)"

definition array_is_null :: "'v array_values \<Rightarrow> nat \<Rightarrow> bool" where
  "array_is_null v idx \<longleftrightarrow> (idx < av_null_threshold v) = nulls_first (av_options v)"

definition array_eq ::
  "('v, 's) cursor_values \<Rightarrow> 'v array_values \<Rightarrow> nat \<Rightarrow> 'v array_values \<Rightarrow> nat \<Rightarrow> bool option" where
  "array_eq CV l l_idx r r_idx =
     (if \<not> av_has_nulls l \<and> \<not> av_has_nulls r then cv_eq CV (av_values l) l_idx (av_values r) r_idx
      else case (array_is_null l l_idx, array_is_null r r_idx) of
        (True, True) \<Rightarrow> Some True
      | (False, False) \<Rightarrow> cv_eq CV (av_values l) l_idx (av_values r) r_idx
      | _ \<Rightarrow> Some False)"

definition array_eq_to_previous :: "('v, 's) cursor_values \<Rightarrow> 'v array_values \<Rightarrow> nat \<Rightarrow> bool option" where
  "array_eq_to_previous CV v idx =
     (if idx = 0 then None
      else if \<not> av_has_nulls v then cv_eq_to_previous CV (av_values v) idx
      else case (array_is_null v idx, array_is_null v (idx - 1)) of
        (True, True) \<Rightarrow> Some True
      | (False, False) \<Rightarrow> cv_eq_to_previous CV (av_values v) idx
      | _ \<Rightarrow> Some False)"

definition array_compare_values ::
  "('v, 's) cursor_values \<Rightarrow> 'v array_values \<Rightarrow> nat \<Rightarrow> 'v array_values \<Rightarrow> nat \<Rightarrow> ordering option" where
  "array_compare_values CV l l_idx r r_idx =
     (if descending (av_options l) then cv_compare CV (av_values r) r_idx (av_values l) l_idx
      else cv_compare CV (av_values l) l_idx (av_values r) r_idx)"

definition array_compare ::
  "('v, 's) cursor_values \<Rightarrow> 'v array_values \<Rightarrow> nat \<Rightarrow> 'v array_values \<Rightarrow> nat \<Rightarrow> ordering option" where
  "array_compare CV l l_idx r r_idx =
     (if \<not> av_has_nulls l \<and> \<not> av_has_nulls r then array_compare_values CV l l_idx r r_idx
      else case (array_is_null l l_idx, array_is_null r r_idx) of
        (True, True) \<Rightarrow> Some Equal
      | (True, False) \<Rightarrow> Some (if nulls_first (av_options l) then Less else Greater)
      | (False, True) \<Rightarrow> Some (if nulls_first (av_options l) then Greater else Less)
      | (False, False) \<Rightarrow> array_compare_values CV l l_idx r r_idx)"

definition array_set_offset :: "('v, 's) cursor_values \<Rightarrow> 'v array_values \<Rightarrow> nat \<Rightarrow> 'v array_values option" where
  "array_set_offset CV v offset =
     map_option (\<lambda>u. v\<lparr>av_values := u\<rparr>) (cv_set_offset CV (av_values v) offset)"

definition array_get_value :: "('v, 's) cursor_values \<Rightarrow> 'v array_values \<Rightarrow> nat \<Rightarrow> 's option option" where
  "array_get_value CV v idx =
     (if array_is_null v idx then Some None
      else map_option Some (cv_get_value CV (av_values v) idx))"

definition array_eq_to_single ::
  "('v, 's) cursor_values \<Rightarrow> 'v array_values \<Rightarrow> nat \<Rightarrow> 's option \<Rightarrow> bool option" where
  "array_eq_to_single CV l l_idx r =
     (case (array_is_null l l_idx, r) of
        (True, None) \<Rightarrow> Some True
      | (False, Some v) \<Rightarrow> cv_eq_to_single_row_value CV (av_values l) l_idx v
      | _ \<Rightarrow> Some False)"

definition array_impl :: "('v, 's) cursor_values \<Rightarrow> ('v array_values, 's option) cursor_values" where
  "array_impl CV =
     \<lparr>cv_len = (\<lambda>v. cv_len CV (av_values v)),
      cv_eq = array_eq CV,
      cv_eq_to_previous = array_eq_to_previous CV,
      cv_compare = array_compare CV,
      cv_get_value = array_get_value CV,
      cv_eq_to_single_row_value = array_eq_to_single CV,
      cv_set_offset = array_set_offset CV\<rparr>"

section \<open>The contract of the trait\<close>

text \<open>
  The values denote a list of keys with a total comparison; \<open>pos v i\<close> says that the values are
  positioned at row \<open>i\<close>, where the caching implementations may be read.
\<close>

locale cursor_contract = total_cmp kcmp
  for kcmp :: "'k \<Rightarrow> 'k \<Rightarrow> ordering" +
  fixes CV :: "('v, 's) cursor_values"
    and keys :: "'v \<Rightarrow> 'k list"
    and pos :: "'v \<Rightarrow> nat \<Rightarrow> bool"
    and skey :: "'s \<Rightarrow> 'k"
  assumes pos_bound: "pos v i \<Longrightarrow> i < length (keys v)"
    and len: "pos v i \<Longrightarrow> cv_len CV v = length (keys v)"
    and compare: "pos l i \<Longrightarrow> pos r j \<Longrightarrow> cv_compare CV l i r j = Some (kcmp (keys l ! i) (keys r ! j))"
    and eq: "pos l i \<Longrightarrow> pos r j \<Longrightarrow> cv_eq CV l i r j = Some (kcmp (keys l ! i) (keys r ! j) = Equal)"
    and eq_to_previous: "pos v i \<Longrightarrow> 0 < i \<Longrightarrow>
      cv_eq_to_previous CV v i = Some (kcmp (keys v ! i) (keys v ! (i - 1)) = Equal)"
    and get_value: "pos v i \<Longrightarrow> j < length (keys v) \<Longrightarrow>
      \<exists>x. cv_get_value CV v j = Some x \<and> skey x = keys v ! j"
    and eq_to_single: "pos v i \<Longrightarrow>
      cv_eq_to_single_row_value CV v i x = Some (kcmp (keys v ! i) (skey x) = Equal)"
    and set_offset: "pos v i \<Longrightarrow> Suc i < length (keys v) \<Longrightarrow>
      \<exists>v'. cv_set_offset CV v (Suc i) = Some v' \<and> pos v' (Suc i) \<and> keys v' = keys v"
begin

definition cursor_ok :: "'v cursor \<Rightarrow> bool" where
  "cursor_ok c \<longleftrightarrow> pos (cur_values c) (cur_offset c)"

definition cursor_rest :: "'v cursor \<Rightarrow> 'k list" where
  "cursor_rest c = drop (cur_offset c) (keys (cur_values c))"

definition cursor_key :: "'v cursor \<Rightarrow> 'k" where
  "cursor_key c = keys (cur_values c) ! cur_offset c"

lemma cursor_rest_Cons: "cursor_ok c \<Longrightarrow> cursor_rest c = cursor_key c # tl (cursor_rest c)"
  using pos_bound by (auto simp: cursor_ok_def cursor_rest_def cursor_key_def simp flip: Cons_nth_drop_Suc)

lemma cursor_rest_tl: "tl (cursor_rest c) = drop (Suc (cur_offset c)) (keys (cur_values c))"
  by (simp add: cursor_rest_def drop_Suc tl_drop)

lemma cursor_new_ok: "pos v 0 \<Longrightarrow> cursor_ok (cursor_new v) \<and> cursor_rest (cursor_new v) = keys v"
  by (simp add: cursor_ok_def cursor_new_def cursor_rest_def)

lemma cursor_cmp_key:
  "cursor_ok a \<Longrightarrow> cursor_ok b \<Longrightarrow> cursor_cmp CV a b = Some (kcmp (cursor_key a) (cursor_key b))"
  by (simp add: cursor_ok_def cursor_cmp_def cursor_key_def compare)

lemma advance_live:
  assumes "cursor_ok c" and "tl (cursor_rest c) \<noteq> []"
  shows "\<exists>c'. advance CV c = Some (cur_offset c, c') \<and> cursor_ok c' \<and> \<not> is_finished CV c' \<and>
    cursor_rest c' = tl (cursor_rest c)"
proof -
  let ?v = "cur_values c" and ?i = "cur_offset c"
  have p: "pos ?v ?i" using assms by (simp add: cursor_ok_def)
  have lt: "Suc ?i < length (keys ?v)"
    using assms(2) by (simp add: cursor_rest_tl)
  obtain v' where v': "cv_set_offset CV ?v (Suc ?i) = Some v'" "pos v' (Suc ?i)" "keys v' = keys ?v"
    using set_offset [OF p lt] by blast
  have "advance CV c = Some (?i, \<lparr>cur_offset = Suc ?i, cur_values = v'\<rparr>)"
    using v'(1) lt len [OF p] by (simp add: advance_def Let_def)
  moreover note cursor_rest_tl [of c]
  ultimately show ?thesis
    using v' lt len [OF v'(2)] by (auto simp: cursor_ok_def cursor_rest_def is_finished_def)
qed

lemma advance_finished:
  assumes "cursor_ok c" and "tl (cursor_rest c) = []"
  shows "\<exists>c' x. advance CV c = Some (cur_offset c, c') \<and> is_finished CV c' \<and>
    last_value CV c' = Some x \<and> skey x = cursor_key c"
proof -
  let ?v = "cur_values c" and ?i = "cur_offset c"
  have p: "pos ?v ?i" using assms by (simp add: cursor_ok_def)
  have l: "length (keys ?v) = Suc ?i"
    using assms(2) pos_bound [OF p] by (simp add: cursor_rest_tl)
  obtain x where "cv_get_value CV ?v ?i = Some x" "skey x = keys ?v ! ?i"
    using get_value [OF p, of ?i] l by auto
  then show ?thesis
    using l len [OF p]
    by (auto simp: advance_def Let_def is_finished_def last_value_def cursor_key_def)
qed

lemma is_eq_to_prev_one_total: "cursor_ok c \<Longrightarrow> is_eq_to_prev_one CV c p \<noteq> None"
  by (auto simp: is_eq_to_prev_one_def is_eq_to_prev_row_def cursor_ok_def eq_to_previous eq_to_single
      split: option.splits)

end

section \<open>The implementations satisfy it\<close>

text \<open>Primitive columns, for every native type whose comparison is total.\<close>

locale native_type = total_cmp "nt_compare N" for N :: "'n native_ops" +
  assumes is_eq: "nt_is_eq N a b \<longleftrightarrow> nt_compare N a b = Equal"

definition primitive_pos :: "'n primitive_values \<Rightarrow> nat \<Rightarrow> bool" where
  "primitive_pos v i \<longleftrightarrow>
     i < length (pv_values v) \<and> pv_offset v = i \<and> pv_current v = pv_values v ! i \<and>
     (0 < i \<longrightarrow> pv_previous v = pv_values v ! (i - 1))"

sublocale native_type \<subseteq> prim: cursor_contract "nt_compare N" "primitive_impl N" pv_values primitive_pos "\<lambda>x. x"
proof (unfold_locales, goal_cases)
  case (8 v i)
  then show ?case by (auto simp: primitive_impl_def primitive_pos_def primitive_set_offset_def)
qed (auto simp: primitive_impl_def primitive_pos_def primitive_compare_def primitive_eq_at_def
    primitive_eq_to_previous_def primitive_eq_to_single_def is_eq)

lemma primitive_new_values [simp]: "pv_values (primitive_new N values) = values"
  by (simp add: primitive_new_def Let_def)

lemma primitive_new_pos: "values \<noteq> [] \<Longrightarrow> primitive_pos (primitive_new N values) 0"
  by (cases "values") (auto simp: primitive_pos_def primitive_new_def)

text \<open>Two's complement integers of any width, and naturals for the unsigned ones.\<close>

definition signed_native :: "'a::len word native_ops" where
  "signed_native = \<lparr>nt_default = 0, nt_is_eq = (=), nt_compare = (\<lambda>a b. ord_cmp (sint a) (sint b))\<rparr>"

definition unsigned_native :: "'a::len word native_ops" where
  "unsigned_native = \<lparr>nt_default = 0, nt_is_eq = (=), nt_compare = ord_cmp\<rparr>"

interpretation signed_int: native_type "signed_native :: 'a::len word native_ops"
  by unfold_locales (auto simp: signed_native_def ord_cmp_def signed_word_eqI split: if_splits)

interpretation unsigned_int: native_type "unsigned_native :: 'a::len word native_ops"
  by unfold_locales (auto simp: unsigned_native_def ord_cmp_def split: if_splits)

text \<open>Byte arrays.\<close>

definition byte_array_keys :: "byte_array_values \<Rightarrow> byte list list" where
  "byte_array_keys v = map (\<lambda>i. the (byte_array_value v i)) [0..<byte_array_len v]"

interpretation bytes: cursor_contract slice_cmp byte_array_impl byte_array_keys
  "\<lambda>v i. i < byte_array_len v" "\<lambda>x. x"
  by unfold_locales
    (auto simp: byte_array_impl_def byte_array_keys_def byte_array_value_def byte_array_eq_def
      byte_array_compare_def byte_array_eq_to_previous_def byte_array_eq_to_single_def Let_def)

text \<open>Row-encoded keys.\<close>

definition row_values_pos :: "row_values \<Rightarrow> nat \<Rightarrow> bool" where
  "row_values_pos v i \<longleftrightarrow>
     i < length (rv_rows v) \<and> rv_len v = length (rv_rows v) \<and> rv_current v = rv_rows v ! i"

interpretation rows: cursor_contract slice_cmp row_values_impl rv_rows row_values_pos "\<lambda>x. x"
  by unfold_locales
    (auto simp: row_values_impl_def row_values_pos_def row_values_eq_def row_values_compare_def
      row_values_eq_to_previous_def row_values_eq_to_single_def row_values_set_offset_def)

lemma row_values_new_pos:
  assumes "rows \<noteq> []" and "res = 0 \<or> res = rows_size"
  shows "\<exists>v. row_values_new rows rows_size res = Some v \<and> row_values_pos v 0 \<and> rv_rows v = rows"
  using assms by (auto simp: row_values_new_def row_values_pos_def)

text \<open>Nullable arrays over any implementation, with one choice of sort options.\<close>

definition nullable_cmp ::
  "sort_options \<Rightarrow> ('k \<Rightarrow> 'k \<Rightarrow> ordering) \<Rightarrow> 'k option \<Rightarrow> 'k option \<Rightarrow> ordering" where
  "nullable_cmp opts kcmp a b =
     (case (a, b) of
        (None, None) \<Rightarrow> Equal
      | (None, Some _) \<Rightarrow> if nulls_first opts then Less else Greater
      | (Some _, None) \<Rightarrow> if nulls_first opts then Greater else Less
      | (Some x, Some y) \<Rightarrow> if descending opts then kcmp y x else kcmp x y)"

lemma nullable_total_cmp:
  assumes "total_cmp kcmp"
  shows "total_cmp (nullable_cmp opts kcmp)"
proof
  fix a b c
  show "nullable_cmp opts kcmp a a = Equal"
    using total_cmp.kcmp_refl [OF assms] by (auto simp: nullable_cmp_def split: option.splits)
  show "nullable_cmp opts kcmp b a = rev_ordering (nullable_cmp opts kcmp a b)"
    using total_cmp.kcmp_rev [OF assms, of "the a" "the b"] total_cmp.kcmp_rev [OF assms, of "the b" "the a"]
    by (auto simp: nullable_cmp_def split: option.splits)
  assume "nullable_cmp opts kcmp a b \<noteq> Greater" "nullable_cmp opts kcmp b c \<noteq> Greater"
  then show "nullable_cmp opts kcmp a c \<noteq> Greater"
    using total_cmp.kcmp_trans [OF assms, of "the a" "the b" "the c"]
      total_cmp.kcmp_trans [OF assms, of "the c" "the b" "the a"]
    by (auto simp: nullable_cmp_def split: option.splits if_splits)
qed

definition array_keys :: "('v \<Rightarrow> 'k list) \<Rightarrow> 'v array_values \<Rightarrow> 'k option list" where
  "array_keys keys v =
     map (\<lambda>i. if array_is_null v i then None else Some (keys (av_values v) ! i))
       [0..<length (keys (av_values v))]"

definition array_pos ::
  "sort_options \<Rightarrow> ('v \<Rightarrow> 'k list) \<Rightarrow> ('v \<Rightarrow> nat \<Rightarrow> bool) \<Rightarrow> 'v array_values \<Rightarrow> nat \<Rightarrow> bool" where
  "array_pos opts keys pos v i \<longleftrightarrow>
     pos (av_values v) i \<and> av_options v = opts \<and>
     (av_has_nulls v \<or> (\<forall>j < length (keys (av_values v)). \<not> array_is_null v j))"

context cursor_contract
begin

lemma array_contract:
  "cursor_contract (nullable_cmp opts kcmp) (array_impl CV) (array_keys keys)
     (array_pos opts keys pos) (map_option skey)"
proof -
  have "total_cmp (nullable_cmp opts kcmp)" by (rule nullable_total_cmp) unfold_locales
  moreover have "cursor_contract_axioms (nullable_cmp opts kcmp) (array_impl CV) (array_keys keys)
     (array_pos opts keys pos) (map_option skey)"
  proof (unfold_locales, goal_cases)
    case (1 v i)
    then show ?case using pos_bound by (auto simp: array_pos_def array_keys_def)
  next
    case (2 v i)
    then show ?case using len by (auto simp: array_pos_def array_keys_def array_impl_def)
  next
    case (3 l i r j)
    then show ?case using pos_bound compare
      by (auto simp: array_pos_def array_keys_def array_impl_def array_compare_def
          array_compare_values_def nullable_cmp_def split: bool.splits)
  next
    case (4 l i r j)
    then show ?case using pos_bound eq
      by (auto simp: array_pos_def array_keys_def array_impl_def array_eq_def nullable_cmp_def
          kcmp_Equal_iff split: bool.splits)
  next
    case (5 v i)
    then show ?case using pos_bound [of "av_values v" i] eq_to_previous
      by (auto simp: array_pos_def array_keys_def array_impl_def array_eq_to_previous_def
          nullable_cmp_def kcmp_Equal_iff split: bool.splits)
  next
    case (6 v i j)
    then show ?case using get_value [of "av_values v" i j]
      by (auto simp: array_pos_def array_keys_def array_impl_def array_get_value_def)
  next
    case (7 v i x)
    then show ?case using pos_bound eq_to_single
      by (auto simp: array_pos_def array_keys_def array_impl_def array_eq_to_single_def
          nullable_cmp_def kcmp_Equal_iff split: bool.splits option.splits)
  next
    case (8 v i)
    then obtain v' where "cv_set_offset CV (av_values v) (Suc i) = Some v'" "pos v' (Suc i)"
      "keys v' = keys (av_values v)"
      using set_offset [of "av_values v" i] by (auto simp: array_pos_def array_keys_def)
    then show ?case using 8
      by (auto simp: array_pos_def array_keys_def array_impl_def array_set_offset_def array_is_null_def)
  qed
  ultimately show ?thesis by (rule cursor_contract.intro)
qed

end

interpretation i64_array: cursor_contract
  "nullable_cmp opts (nt_compare (signed_native :: 64 word native_ops))"
  "array_impl (primitive_impl signed_native)" "array_keys pv_values"
  "array_pos opts pv_values primitive_pos" "map_option (\<lambda>x. x)"
  by (rule signed_int.prim.array_contract)

interpretation bytes_array: cursor_contract "nullable_cmp opts slice_cmp" "array_impl byte_array_impl"
  "array_keys byte_array_keys" "array_pos opts byte_array_keys (\<lambda>v i. i < byte_array_len v)"
  "map_option (\<lambda>x. x)"
  by (rule bytes.array_contract)

section \<open>Properties\<close>

text \<open>A column as it arrives: nullable values, sorted by the options.\<close>

definition sorted_column :: "('k \<Rightarrow> 'k \<Rightarrow> ordering) \<Rightarrow> sort_options \<Rightarrow> 'k option list \<Rightarrow> bool" where
  "sorted_column kcmp opts xs \<longleftrightarrow> sorted_wrt (\<lambda>a b. nullable_cmp opts kcmp a b \<noteq> Greater) xs"

text \<open>The buffer behind a nullable column: a null slot holds an arbitrary value.\<close>

definition column_buffer :: "'n \<Rightarrow> 'n option list \<Rightarrow> 'n list" where
  "column_buffer d xs = map (\<lambda>x. case x of None \<Rightarrow> d | Some v \<Rightarrow> v) xs"

definition column_values ::
  "'n native_ops \<Rightarrow> sort_options \<Rightarrow> 'n \<Rightarrow> 'n option list \<Rightarrow> 'n primitive_values array_values option" where
  "column_values N opts d xs =
     array_values_new opts (length xs) (length (filter (\<lambda>x. x = None) xs))
       (primitive_new N (column_buffer d xs))"

fun advance_n :: "('v, 's) cursor_values \<Rightarrow> nat \<Rightarrow> 'v cursor \<Rightarrow> 'v cursor option" where
  "advance_n CV 0 c = Some c"
| "advance_n CV (Suc n) c = do { (_, c') \<leftarrow> advance CV c; advance_n CV n c' }"

context cursor_contract
begin

lemma advance_n_rest:
  assumes "cursor_ok c" and "n < length (cursor_rest c)"
  shows "\<exists>c'. advance_n CV n c = Some c' \<and> cursor_ok c' \<and> cursor_rest c' = drop n (cursor_rest c)"
  using assms
proof (induction n arbitrary: c)
  case (Suc n)
  then have "tl (cursor_rest c) \<noteq> []" by (cases "cursor_rest c") auto
  then obtain c1 where c1: "advance CV c = Some (cur_offset c, c1)" "cursor_ok c1"
    "cursor_rest c1 = tl (cursor_rest c)"
    using advance_live [OF Suc.prems(1)] by blast
  then show ?case using Suc.IH [of c1] Suc.prems by (simp add: drop_Suc)
qed simp

lemma compare_after_advancing:
  assumes "pos v 0" "pos w 0" "i < length (keys v)" "j < length (keys w)"
  shows "do { a \<leftarrow> advance_n CV i (cursor_new v); b \<leftarrow> advance_n CV j (cursor_new w); cursor_cmp CV a b }
    = Some (kcmp (keys v ! i) (keys w ! j))"
proof -
  obtain a where a: "advance_n CV i (cursor_new v) = Some a" "cursor_ok a" "cursor_rest a = drop i (keys v)"
    using advance_n_rest [of "cursor_new v" i] cursor_new_ok [OF assms(1)] assms(3) by auto
  obtain b where b: "advance_n CV j (cursor_new w) = Some b" "cursor_ok b" "cursor_rest b = drop j (keys w)"
    using advance_n_rest [of "cursor_new w" j] cursor_new_ok [OF assms(2)] assms(4) by auto
  have "cursor_key a = keys v ! i" "cursor_key b = keys w ! j"
    using cursor_rest_Cons [OF a(2)] cursor_rest_Cons [OF b(2)] a(3) b(3) assms(3,4)
    by (metis Cons_nth_drop_Suc list.inject)+
  then show ?thesis using a b cursor_cmp_key by simp
qed

end

context native_type
begin

lemma column_contract:
  "cursor_contract (nullable_cmp opts (nt_compare N)) (array_impl (primitive_impl N))
     (array_keys pv_values) (array_pos opts pv_values primitive_pos) (map_option (\<lambda>x. x))"
  by (rule prim.array_contract)

end

text \<open>Nulls are together at the end that the options name.\<close>

lemma sorted_column_nulls:
  assumes "sorted_column kcmp opts xs" and "i < length xs"
  shows "xs ! i = None \<longleftrightarrow>
    (i < (if nulls_first opts then length (filter (\<lambda>x. x = None) xs)
          else length xs - length (filter (\<lambda>x. x = None) xs))) = nulls_first opts"
  using assms
proof (induction xs arbitrary: i)
  case (Cons x xs)
  let ?c = "length (filter (\<lambda>x. x = None) xs)"
  have c: "?c \<le> length xs" by (rule length_filter_le)
  have all: "nullable_cmp opts kcmp x y \<noteq> Greater" if "y \<in> set xs" for y
    using Cons.prems(1) that by (simp add: sorted_column_def)
  have sorted: "sorted_column kcmp opts xs" using Cons.prems(1) by (simp add: sorted_column_def)
  have last: "?c = length xs" if "x = None" "\<not> nulls_first opts"
  proof -
    have "y = None" if "y \<in> set xs" for y
      using all [OF that] \<open>x = None\<close> \<open>\<not> nulls_first opts\<close> by (cases y) (auto simp: nullable_cmp_def)
    then have "filter (\<lambda>x. x = None) xs = xs" by (simp add: filter_id_conv)
    then show ?thesis by simp
  qed
  have first: "?c = 0" if "x \<noteq> None" "nulls_first opts"
  proof -
    have "y \<noteq> None" if "y \<in> set xs" for y
      using all [OF that] \<open>x \<noteq> None\<close> \<open>nulls_first opts\<close> by (cases y) (auto simp: nullable_cmp_def)
    then show ?thesis by (simp add: filter_empty_conv)
  qed
  show ?case
  proof (cases i)
    case 0
    then show ?thesis using c last first by (cases "x = None") (auto simp: less_Suc_eq_le)
  next
    case (Suc j)
    have "xs ! j = None \<longleftrightarrow> (j < (if nulls_first opts then ?c else length xs - ?c)) = nulls_first opts"
      using Cons.IH [OF sorted, of j] Cons.prems(2) Suc by simp
    then show ?thesis
      using Suc c Cons.prems(2) last first by (cases "x = None") (auto simp: Suc_diff_le)
  qed
qed simp

lemma column_values_keys:
  assumes "sorted_column (nt_compare N) opts xs" and "xs \<noteq> []"
  shows "\<exists>v. column_values N opts d xs = Some v \<and> array_pos opts pv_values primitive_pos v 0 \<and>
    array_keys pv_values v = xs"
proof -
  let ?c = "length (filter (\<lambda>x. x = None) xs)"
  let ?v = "\<lparr>av_values = primitive_new N (column_buffer d xs),
             av_null_threshold = (if nulls_first opts then ?c else length xs - ?c),
             av_options = opts, av_has_nulls = (?c > 0)\<rparr>"
  have len: "length (pv_values (primitive_new N (column_buffer d xs))) = length xs"
    by (simp add: column_buffer_def)
  have null: "array_is_null ?v i \<longleftrightarrow> xs ! i = None" if "i < length xs" for i
    using sorted_column_nulls [OF assms(1) that] by (auto simp: array_is_null_def)
  have "array_keys pv_values ?v = xs"
  proof (rule nth_equalityI)
    fix i
    assume "i < length (array_keys pv_values ?v)"
    then have "i < length xs" using len by (simp add: array_keys_def)
    then show "array_keys pv_values ?v ! i = xs ! i"
      using null [of i] by (cases "xs ! i") (simp_all add: array_keys_def column_buffer_def)
  qed (simp add: array_keys_def column_buffer_def)
  moreover have "?c > 0 \<or> (\<forall>j < length xs. xs ! j \<noteq> None)"
    by (auto simp: filter_empty_conv) (metis not_None_eq nth_mem)
  then have "array_pos opts pv_values primitive_pos ?v 0"
    using null len primitive_new_pos [of "column_buffer d xs" N] assms(2)
    by (auto simp: array_pos_def column_buffer_def)
  moreover have "column_values N opts d xs = Some ?v"
    using assms(2) by (simp add: column_values_def array_values_new_def)
  ultimately show ?thesis by blast
qed

text \<open>
  C26. Comparing two cursors over nullable columns that arrive sorted by the options compares the
  rows they stand on, nulls placed first or last and the direction reversed as the options say,
  after any number of advances.  The null bitmap is never consulted: the position relative to
  the null threshold decides; and the cached current value of the primitive column is always
  the one of the cursor's row.
\<close>

theorem cursor_compares_rows:
  assumes "native_type N" and "sorted_column (nt_compare N) opts xs" and "sorted_column (nt_compare N) opts ys"
    and "i < length xs" and "j < length ys"
  shows "do { v \<leftarrow> column_values N opts d xs;
              w \<leftarrow> column_values N opts e ys;
              a \<leftarrow> advance_n (array_impl (primitive_impl N)) i (cursor_new v);
              b \<leftarrow> advance_n (array_impl (primitive_impl N)) j (cursor_new w);
              cursor_cmp (array_impl (primitive_impl N)) a b }
    = Some (nullable_cmp opts (nt_compare N) (xs ! i) (ys ! j))"
proof -
  have ne: "xs \<noteq> []" "ys \<noteq> []" using assms(4,5) by auto
  obtain v where v: "column_values N opts d xs = Some v" "array_pos opts pv_values primitive_pos v 0"
    "array_keys pv_values v = xs"
    using column_values_keys [OF assms(2) ne(1)] by blast
  obtain w where w: "column_values N opts e ys = Some w" "array_pos opts pv_values primitive_pos w 0"
    "array_keys pv_values w = ys"
    using column_values_keys [OF assms(3) ne(2)] by blast
  show ?thesis
    using cursor_contract.compare_after_advancing [OF native_type.column_contract [OF assms(1)] v(2) w(2)]
      assms(4,5) v w by simp
qed

definition demo_options :: sort_options where
  "demo_options = \<lparr>descending = True, nulls_first = False\<rparr>"

theorem cursor_compares_rows_witness:
  "do { v \<leftarrow> column_values signed_native demo_options 0 [Some (7 :: 64 word), Some (- 2), None];
        w \<leftarrow> column_values signed_native demo_options 1 [Some 5, Some 3];
        a \<leftarrow> advance_n (array_impl (primitive_impl signed_native)) 1 (cursor_new v);
        b \<leftarrow> advance_n (array_impl (primitive_impl signed_native)) 0 (cursor_new w);
        cursor_cmp (array_impl (primitive_impl signed_native)) a b } = Some Greater"
proof -
  have xs: "sorted_column (nt_compare signed_native) demo_options [Some (7 :: 64 word), Some (- 2), None]"
    and ys: "sorted_column (nt_compare signed_native) demo_options [Some (5 :: 64 word), Some 3]"
    by (simp_all add: sorted_column_def nullable_cmp_def demo_options_def signed_native_def ord_cmp_def)
  show ?thesis
    using cursor_compares_rows [OF signed_int.native_type_axioms xs ys, of 1 0 0 1]
    by (simp add: nullable_cmp_def demo_options_def signed_native_def ord_cmp_def)
qed

end
