(* ===== verification/Tournament.thy ===== *)
theory Tournament
  imports Prelude
begin

text \<open>
  The combinatorics of the loser tree of \<open>physical-plan/src/sorts/merge.rs\<close>.  With \<open>n\<close> streams the
  nodes are numbered from the root \<open>1\<close>; the inner nodes are \<open>1 .. n - 1\<close>, stream \<open>i\<close> is the leaf
  \<open>n + i\<close>, and the parent of a node is its half.  A ghost function \<open>W\<close> gives the winner of every
  subtree; the array stores the losers, and the overall winner in slot \<open>0\<close>.  The relation
  \<open>R k a b\<close> says that \<open>a\<close> may win against \<open>b\<close> at node \<open>k\<close>.
\<close>

section \<open>Ancestors\<close>

definition anc :: "nat \<Rightarrow> nat \<Rightarrow> bool" where
  "anc k j \<longleftrightarrow> (\<exists>d. k = j div 2 ^ d)"

definition sib :: "nat \<Rightarrow> nat" where
  "sib k = (if even k then k + 1 else k - 1)"

lemma div_pow_Suc: "j div 2 ^ Suc e = j div 2 ^ e div (2::nat)"
  by (metis div_mult2_eq power_Suc2)

lemma div_pow_add: "j div 2 ^ (a + b) = j div 2 ^ a div (2::nat) ^ b"
  by (simp add: power_add div_mult2_eq)

lemma anc_refl [simp]: "anc j j"
  unfolding anc_def by (rule exI [of _ 0]) simp

lemma anc_half: "anc k j \<Longrightarrow> anc (k div 2) j"
  unfolding anc_def by (metis div_mult2_eq power_Suc2)

lemma anc_le: "anc k j \<Longrightarrow> k \<le> j"
  unfolding anc_def by auto

lemma anc_of_half: "anc k (j div 2) \<Longrightarrow> anc k j"
  unfolding anc_def by (metis div_mult2_eq power_Suc)

lemma anc_proper:
  assumes "anc k j" "k \<noteq> j"
  shows "anc k (j div 2)"
proof -
  obtain d where d: "k = j div 2 ^ d" using assms(1) by (auto simp: anc_def)
  with assms(2) obtain e where "d = Suc e" by (cases d) auto
  with d show ?thesis unfolding anc_def by (metis div_mult2_eq power_Suc)
qed

lemma anc_zero [simp]: "anc k 0 \<longleftrightarrow> k = 0"
  by (auto simp: anc_def)

lemma anc_one: "1 \<le> j \<Longrightarrow> anc 1 j"
proof (induction j rule: less_induct)
  case (less j)
  show ?case
  proof (cases "j = 1")
    case False
    then show ?thesis using less anc_of_half [of 1 "j div 2"] anc_of_half [of 1 j] by simp
  qed simp
qed

lemma anc_child:
  assumes "anc k j" "k < j" "1 \<le> k"
  shows "anc (2 * k) j \<or> anc (2 * k + 1) j"
proof -
  obtain d where d: "k = j div 2 ^ d" using assms(1) by (auto simp: anc_def)
  with assms(2) obtain e where e: "d = Suc e" by (cases d) auto
  have "k = (j div 2 ^ e) div 2" using d e by (simp only: div_pow_Suc)
  then have "j div 2 ^ e = 2 * k \<or> j div 2 ^ e = 2 * k + 1" by linarith
  then show ?thesis unfolding anc_def by metis
qed

lemma anc_children_disjoint:
  assumes "anc (2 * k) j" "anc (2 * k + 1) j" "1 \<le> k"
  shows False
proof -
  obtain a b where a: "2 * k = j div 2 ^ a" and b: "2 * k + 1 = j div 2 ^ b"
    using assms(1,2) by (auto simp: anc_def)
  consider "a = b" | e where "b = a + Suc e" | e where "a = b + Suc e"
    by (metis add_Suc_right less_iff_Suc_add linorder_neqE_nat)
  then show False
  proof cases
    case 1
    then show False using a b by simp
  next
    case (2 e)
    then have "2 * k + 1 = (2 * k) div 2 ^ Suc e" using a b by (metis div_pow_add)
    also have "\<dots> \<le> k" by (simp add: div_mult2_eq [of _ 2])
    finally show False by simp
  next
    case (3 e)
    then have "2 * k = (2 * k + 1) div 2 ^ Suc e" using a b by (metis div_pow_add)
    also have "\<dots> \<le> k" by (simp add: div_mult2_eq [of _ 2])
    finally show False using assms(3) by simp
  qed
qed

lemma sib_cases:
  assumes "2 \<le> k"
  obtains p where "k = 2 * p" "sib k = 2 * p + 1" "1 \<le> p"
    | p where "k = 2 * p + 1" "sib k = 2 * p" "1 \<le> p"
  using assms that by (cases "even k") (auto simp: sib_def elim!: evenE oddE)

lemma sib_half: "2 \<le> k \<Longrightarrow> sib k div 2 = k div 2"
  by (erule sib_cases) auto

lemma sib_ge: "2 \<le> k \<Longrightarrow> 2 \<le> sib k"
  by (erule sib_cases) auto

lemma sib_disjoint:
  assumes "2 \<le> k" "anc k j" "anc (sib k) j"
  shows False
  using assms(1) by (rule sib_cases) (use assms(2,3) anc_children_disjoint in auto)

lemma sib_neq_anc: "2 \<le> k \<Longrightarrow> anc k c \<Longrightarrow> sib k \<noteq> c"
  using sib_disjoint [of k c] by auto

section \<open>The invariant of the tree\<close>

definition node_ok :: "(nat \<Rightarrow> nat \<Rightarrow> nat \<Rightarrow> bool) \<Rightarrow> (nat \<Rightarrow> nat) \<Rightarrow> nat list \<Rightarrow> nat \<Rightarrow> bool" where
  "node_ok R W L k \<longleftrightarrow> {W k, L ! k} = {W (2 * k), W (2 * k + 1)} \<and> R k (W k) (L ! k)"

definition tree_ok :: "(nat \<Rightarrow> nat \<Rightarrow> nat \<Rightarrow> bool) \<Rightarrow> nat \<Rightarrow> (nat \<Rightarrow> nat) \<Rightarrow> nat list \<Rightarrow> bool" where
  "tree_ok R n W L \<longleftrightarrow>
     length L = n \<and> 0 < n \<and> (\<forall>i < n. W (n + i) = i) \<and>
     (\<forall>k. 1 \<le> k \<and> k < n \<longrightarrow> node_ok R W L k) \<and> L ! 0 = W 1"

lemma node_ok_cong:
  assumes "W' k = W k" "W' (2 * k) = W (2 * k)" "W' (2 * k + 1) = W (2 * k + 1)" "L' ! k = L ! k"
  shows "node_ok R W' L' k = node_ok R W L k"
  using assms by (simp add: node_ok_def)

lemma node_ok_children:
  assumes "node_ok R W L (k div 2)" "2 \<le> k"
  shows "{W (k div 2), L ! (k div 2)} = {W k, W (sib k)}"
  using assms(2)
proof (rule sib_cases)
  fix p
  assume "k = 2 * p" "sib k = 2 * p + 1"
  then show ?thesis using assms(1) by (simp add: node_ok_def)
next
  fix p
  assume "k = 2 * p + 1" "sib k = 2 * p"
  then show ?thesis using assms(1) by (simp add: node_ok_def insert_commute)
qed

lemma tree_node: "tree_ok R n W L \<Longrightarrow> 2 \<le> k \<Longrightarrow> k < 2 * n \<Longrightarrow> node_ok R W L (k div 2)"
  by (simp add: tree_ok_def div_le_mono [of 2 k 2, simplified] less_mult_imp_div_less mult.commute)

text \<open>The winner of a subtree is one of its streams.\<close>

lemma winner_under:
  assumes "tree_ok R n W L" "1 \<le> k" "k < 2 * n"
  shows "W k < n \<and> anc k (n + W k)"
  using assms(2,3)
proof (induction "2 * n - k" arbitrary: k rule: less_induct)
  case less
  show ?case
  proof (cases "k < n")
    case True
    then have "W k \<in> {W (2 * k), W (2 * k + 1)}"
      using assms(1) less.prems by (auto simp: tree_ok_def node_ok_def doubleton_eq_iff)
    moreover have "W c < n \<and> anc k (n + W c)" if "c = 2 * k \<or> c = 2 * k + 1" for c
    proof -
      have "W c < n \<and> anc c (n + W c)" using less.hyps [of c] less.prems True that by auto
      moreover have "c div 2 = k" using that by auto
      ultimately show ?thesis using anc_half by metis
    qed
    ultimately show ?thesis by fastforce
  next
    case False
    then obtain i where "k = n + i" using le_Suc_ex not_less by blast
    then show ?thesis using assms(1) less.prems by (simp add: tree_ok_def)
  qed
qed

lemma loser_under:
  assumes "tree_ok R n W L" "1 \<le> k" "k < n"
  shows "L ! k < n \<and> anc k (n + L ! k)"
proof -
  have "L ! k = W (2 * k) \<or> L ! k = W (2 * k + 1)"
    using assms by (auto simp: tree_ok_def node_ok_def doubleton_eq_iff)
  moreover have "W c < n \<and> anc k (n + W c)" if "c = 2 * k \<or> c = 2 * k + 1" for c
  proof -
    have "W c < n \<and> anc c (n + W c)" using winner_under [OF assms(1), of c] assms that by auto
    moreover have "c div 2 = k" using that by auto
    ultimately show ?thesis using anc_half by metis
  qed
  ultimately show ?thesis by fastforce
qed

lemma root_lt: "tree_ok R n W L \<Longrightarrow> L ! 0 < n"
  using winner_under [of R n W L 1] by (simp add: tree_ok_def)

text \<open>The winner of the tree won every match on its path.\<close>

lemma winner_path:
  assumes "tree_ok R n W L" "1 \<le> k" "anc k (n + L ! 0)"
  shows "W k = L ! 0"
  using assms(2,3)
proof (induction k rule: less_induct)
  case (less k)
  show ?case
  proof (cases "k = 1")
    case True
    then show ?thesis using assms(1) by (simp add: tree_ok_def)
  next
    case False
    let ?p = "k div 2"
    have k2: "2 \<le> k" using False less.prems by simp
    have kn: "k < 2 * n" using anc_le [OF less.prems(2)] root_lt [OF assms(1)] by simp
    have "W ?p = L ! 0" using less.IH [of ?p] less.prems anc_half k2 by simp
    moreover have "W ?p = W k \<or> W ?p = W (sib k)"
    proof -
      have "1 \<le> ?p" "?p < n" using k2 kn by linarith+
      then have "node_ok R W L ?p" using assms(1) by (simp add: tree_ok_def)
      then show ?thesis using node_ok_children [OF _ k2] by (metis doubleton_eq_iff)
    qed
    moreover have "W (sib k) \<noteq> L ! 0"
    proof
      assume eq: "W (sib k) = L ! 0"
      have "sib k < 2 * n" "1 \<le> sib k" using kn sib_ge [OF k2] by (auto simp: sib_def)
      then have "anc (sib k) (n + L ! 0)" using winner_under [OF assms(1), of "sib k"] eq by simp
      then show False using sib_disjoint [OF k2 less.prems(2)] by blast
    qed
    ultimately show ?thesis by simp
  qed
qed

text \<open>The root holds a minimal stream for every preorder that the matches respect.\<close>

lemma tree_min:
  assumes tree: "tree_ok R n W L" and i: "i < n"
    and refl: "\<And>a. le a a" and trans: "\<And>a b c. le a b \<Longrightarrow> le b c \<Longrightarrow> le a c"
    and R: "\<And>k a b. R k a b \<Longrightarrow> le a b"
  shows "le (L ! 0) i"
proof -
  have "le (W ((n + i) div 2 ^ d)) i" if "1 \<le> (n + i) div 2 ^ d" for d
    using that
  proof (induction d)
    case 0
    then show ?case using tree i refl by (simp add: tree_ok_def)
  next
    case (Suc d)
    let ?c = "(n + i) div 2 ^ d"
    have half: "(n + i) div 2 ^ Suc d = ?c div 2" by (rule div_pow_Suc)
    then have c: "2 \<le> ?c" using Suc.prems by linarith
    have "?c \<le> n + i" by (rule div_le_dividend)
    then have cn: "?c < 2 * n" using i by linarith
    then have "1 \<le> ?c div 2" "?c div 2 < n" using c by linarith+
    then have "node_ok R W L (?c div 2)" using tree by (simp add: tree_ok_def)
    then have "W ?c = W (?c div 2) \<or> W ?c = L ! (?c div 2) \<and> le (W (?c div 2)) (L ! (?c div 2))"
      using node_ok_children [OF _ c] R unfolding node_ok_def by (metis doubleton_eq_iff)
    moreover have "le (W ?c) i" using Suc.IH c by simp
    ultimately show ?case using half trans by metis
  qed
  moreover obtain d where "1 = (n + i) div 2 ^ d"
    using anc_one [of "n + i"] tree by (auto simp: anc_def tree_ok_def)
  ultimately have "le (W 1) i" by (metis order_refl)
  then show ?thesis using tree by (simp add: tree_ok_def)
qed

section \<open>Replaying the path of one stream\<close>

text \<open>
  The tree is right except on the path from node \<open>j\<close> to the root, where \<open>x\<close> is about to play;
  the slots of that path still hold the winners of the other sides.
\<close>

definition climb_ok ::
  "(nat \<Rightarrow> nat \<Rightarrow> nat \<Rightarrow> bool) \<Rightarrow> nat \<Rightarrow> (nat \<Rightarrow> nat) \<Rightarrow> nat list \<Rightarrow> nat \<Rightarrow> nat \<Rightarrow> bool" where
  "climb_ok R n W L x j \<longleftrightarrow>
     length L = n \<and> 0 < n \<and> 1 \<le> j \<and> j < 2 * n \<and> W j = x \<and> (\<forall>i < n. W (n + i) = i) \<and>
     (\<forall>k. 1 \<le> k \<and> k < 2 * n \<and> (\<not> anc k j \<or> k = j) \<longrightarrow> W k < n) \<and>
     (\<forall>k. 1 \<le> k \<and> k < n \<and> \<not> anc k (j div 2) \<longrightarrow> node_ok R W L k) \<and>
     (\<forall>k. 2 \<le> k \<and> anc k j \<longrightarrow> L ! (k div 2) = W (sib k))"

lemma climb_start:
  assumes tree: "tree_ok R n W L"
    and R: "\<And>k a b. R k a b \<Longrightarrow> a \<noteq> L ! 0 \<Longrightarrow> b \<noteq> L ! 0 \<Longrightarrow> R' k a b"
  shows "climb_ok R' n W L (L ! 0) (n + L ! 0)"
proof -
  let ?w = "L ! 0" and ?j = "n + L ! 0"
  have w: "?w < n" by (rule root_lt [OF tree])
  have "node_ok R' W L k" if k: "1 \<le> k" "k < n" "\<not> anc k (?j div 2)" for k
  proof -
    have nk: "\<not> anc k ?j" using k anc_proper by auto
    have "W k \<noteq> ?w" using nk winner_under [OF tree, of k] k by auto
    moreover have "L ! k \<noteq> ?w" using nk loser_under [OF tree, of k] k by auto
    moreover have "node_ok R W L k" using tree k by (simp add: tree_ok_def)
    ultimately show ?thesis using R by (auto simp: node_ok_def)
  qed
  moreover have "L ! (k div 2) = W (sib k)" if k: "2 \<le> k" "anc k ?j" for k
  proof -
    have "k < 2 * n" using anc_le [OF k(2)] w by simp
    then have "node_ok R W L (k div 2)" using tree_node [OF tree] k(1) by blast
    then have "{W (k div 2), L ! (k div 2)} = {W k, W (sib k)}" using node_ok_children k(1) by blast
    moreover have "W k = ?w" "W (k div 2) = ?w"
      using winner_path [OF tree] k anc_half [OF k(2)] by auto
    ultimately show ?thesis by (metis doubleton_eq_iff)
  qed
  ultimately show ?thesis
    using tree w winner_under [OF tree] by (auto simp: climb_ok_def tree_ok_def)
qed

lemma climb_challenger:
  assumes "climb_ok R n W L x j" "2 \<le> j"
  shows "L ! (j div 2) < n" "x < n" "1 \<le> j div 2" "j div 2 < n"
proof -
  have "sib j < 2 * n" "1 \<le> sib j" "\<not> anc (sib j) j"
    using assms sib_ge [OF assms(2)] sib_disjoint [OF assms(2) anc_refl]
    by (auto simp: climb_ok_def sib_def)
  then show "L ! (j div 2) < n" using assms by (auto simp: climb_ok_def)
  show "x < n" using assms by (auto simp: climb_ok_def)
  show "1 \<le> j div 2" "j div 2 < n" using assms by (auto simp: climb_ok_def)
qed

lemma climb_step:
  assumes climb: "climb_ok R n W L x j" and j: "2 \<le> j"
    and xz: "x' = x \<and> z = L ! (j div 2) \<or> x' = L ! (j div 2) \<and> z = x"
    and R: "R (j div 2) x' z"
  shows "climb_ok R n (W(j div 2 := x')) (L[j div 2 := z]) x' (j div 2)"
proof -
  let ?c = "j div 2" and ?W = "W(j div 2 := x')" and ?L = "L[j div 2 := z]"
  have c: "1 \<le> ?c" "?c < n" and xn: "x < n" "L ! ?c < n"
    using climb_challenger [OF climb j] by auto
  have y: "L ! ?c = W (sib j)" "W j = x" using climb j by (auto simp: climb_ok_def)
  have "node_ok R ?W ?L k" if k: "1 \<le> k" "k < n" "\<not> anc k (?c div 2)" for k
  proof (cases "k = ?c")
    case True
    have "{x', z} = {W j, W (sib j)}" using xz y by auto
    moreover have "{W j, W (sib j)} = {W (2 * ?c), W (2 * ?c + 1)}"
      using j by (rule sib_cases) auto
    ultimately show ?thesis using True R c climb by (simp add: node_ok_def climb_ok_def)
  next
    case False
    then have "\<not> anc k ?c" using k anc_proper by auto
    then have "node_ok R W L k" using climb k by (simp add: climb_ok_def)
    moreover have "?c div 2 \<noteq> k" using k(3) by auto
    then have "2 * k \<noteq> ?c" "2 * k + 1 \<noteq> ?c" by presburger+
    ultimately show ?thesis using False node_ok_cong [of ?W k W ?L L R] by simp
  qed
  moreover have "?L ! (k div 2) = ?W (sib k)" if k: "2 \<le> k" "anc k ?c" for k
  proof -
    have "k div 2 < k" "k \<le> ?c" using k anc_le by auto
    moreover have "sib k \<noteq> ?c" using sib_neq_anc k by blast
    moreover have "L ! (k div 2) = W (sib k)" using climb k(1) anc_of_half [OF k(2)] by (simp add: climb_ok_def)
    ultimately show ?thesis by simp
  qed
  moreover have "?W k < n" if "1 \<le> k" "k < 2 * n" "\<not> anc k ?c \<or> k = ?c" for k
  proof (cases "k = ?c")
    case False
    then have "\<not> anc k j \<or> k = j" using that(3) anc_proper by blast
    then show ?thesis using False that climb by (auto simp: climb_ok_def)
  qed (use xz xn in auto)
  ultimately show ?thesis using climb c by (auto simp: climb_ok_def)
qed

lemma climb_end:
  assumes "climb_ok R n W L x 1"
  shows "tree_ok R n W (L[0 := x])"
proof -
  have "node_ok R W (L[0 := x]) k" if "1 \<le> k" "k < n" for k
    using assms that node_ok_cong [of W k W "L[0 := x]" L R] by (simp add: climb_ok_def)
  then show ?thesis using assms by (auto simp: climb_ok_def tree_ok_def)
qed

section \<open>Filling the tree\<close>

text \<open>
  Streams enter one by one.  A node is done when all the streams below it have entered; a slot
  is empty while no child is done, keeps the winner of the first child that is, and the loser of
  the match once both are.
\<close>

definition done_node :: "nat \<Rightarrow> nat set \<Rightarrow> nat \<Rightarrow> bool" where
  "done_node n I k \<longleftrightarrow> (\<forall>i < n. anc k (n + i) \<longrightarrow> i \<in> I)"

definition slot_ok ::
  "(nat \<Rightarrow> nat \<Rightarrow> nat \<Rightarrow> bool) \<Rightarrow> nat \<Rightarrow> (nat \<Rightarrow> nat) \<Rightarrow> nat list \<Rightarrow> nat set \<Rightarrow> nat \<Rightarrow> bool" where
  "slot_ok R n W L I k \<longleftrightarrow>
     (if done_node n I (2 * k) then
        if done_node n I (2 * k + 1) then node_ok R W L k else L ! k = W (2 * k)
      else if done_node n I (2 * k + 1) then L ! k = W (2 * k + 1) else L ! k = USIZE_MAX)"

definition init_ok ::
  "(nat \<Rightarrow> nat \<Rightarrow> nat \<Rightarrow> bool) \<Rightarrow> nat \<Rightarrow> (nat \<Rightarrow> nat) \<Rightarrow> nat list \<Rightarrow> nat set \<Rightarrow> bool" where
  "init_ok R n W L I \<longleftrightarrow>
     length L = n \<and> 0 < n \<and> (\<forall>i < n. W (n + i) = i) \<and>
     (\<forall>k. 1 \<le> k \<and> k < 2 * n \<and> done_node n I k \<longrightarrow> W k < n) \<and>
     (\<forall>k. 1 \<le> k \<and> k < n \<longrightarrow> slot_ok R n W L I k) \<and>
     (done_node n I 1 \<longrightarrow> L ! 0 = W 1)"

definition insert_ok ::
  "(nat \<Rightarrow> nat \<Rightarrow> nat \<Rightarrow> bool) \<Rightarrow> nat \<Rightarrow> (nat \<Rightarrow> nat) \<Rightarrow> nat list \<Rightarrow> nat set \<Rightarrow> nat \<Rightarrow> nat \<Rightarrow> nat \<Rightarrow> bool" where
  "insert_ok R n W L I i x j \<longleftrightarrow>
     length L = n \<and> i < n \<and> i \<notin> I \<and> 1 \<le> j \<and> j < 2 * n \<and> anc j (n + i) \<and> W j = x \<and>
     (\<forall>i < n. W (n + i) = i) \<and> done_node n (insert i I) j \<and>
     (\<forall>k. 1 \<le> k \<and> k < 2 * n \<and> done_node n (insert i I) k \<and> (anc k j \<longrightarrow> k = j) \<longrightarrow> W k < n) \<and>
     (\<forall>k. 1 \<le> k \<and> k < n \<longrightarrow> slot_ok R n W L (if anc k (j div 2) then I else insert i I) k)"

lemma anc_trans: "anc a b \<Longrightarrow> anc b c \<Longrightarrow> anc a c"
  unfolding anc_def by (metis div_pow_add)

lemma done_below: "done_node n I k \<Longrightarrow> anc k k' \<Longrightarrow> done_node n I k'"
  by (auto simp: done_node_def intro: anc_trans)

lemma anc_double: "anc k (2 * k)" "anc k (2 * k + 1)"
  using anc_half [OF anc_refl, of "2 * k"] anc_half [OF anc_refl, of "2 * k + 1"] by simp_all

lemma done_inner:
  assumes "1 \<le> k" "k < n"
  shows "done_node n I k \<longleftrightarrow> done_node n I (2 * k) \<and> done_node n I (2 * k + 1)"
proof
  assume "done_node n I k"
  then show "done_node n I (2 * k) \<and> done_node n I (2 * k + 1)" using done_below anc_double by blast
next
  assume "done_node n I (2 * k) \<and> done_node n I (2 * k + 1)"
  then show "done_node n I k"
    using anc_child assms unfolding done_node_def by (metis trans_less_add1)
qed

lemma done_insert_off: "\<not> anc k (n + i) \<Longrightarrow> done_node n (insert i I) k = done_node n I k"
  by (auto simp: done_node_def)

lemma not_done_path: "anc k (n + i) \<Longrightarrow> i < n \<Longrightarrow> i \<notin> I \<Longrightarrow> \<not> done_node n I k"
  by (auto simp: done_node_def)

lemma leaf_below: "1 \<le> k \<Longrightarrow> k < 2 * n \<Longrightarrow> \<exists>i < n. anc k (n + i)"
proof (induction "2 * n - k" arbitrary: k rule: less_induct)
  case less
  show ?case
  proof (cases "k < n")
    case True
    then have "2 * n - 2 * k < 2 * n - k" using less.prems by linarith
    then obtain i where "i < n" "anc (2 * k) (n + i)"
      using less.hyps [of "2 * k"] less.prems True by auto
    then show ?thesis using anc_trans anc_double by blast
  next
    case False
    then show ?thesis using less.prems by (intro exI [of _ "k - n"]) auto
  qed
qed

lemma done_leaf:
  assumes "i < n"
  shows "done_node n I (n + i) \<longleftrightarrow> i \<in> I"
proof -
  have "i' = i" if "i' < n" "anc (n + i) (n + i')" for i'
    using anc_proper [OF that(2)] anc_le [of "n + i" "(n + i') div 2"] that(1) by fastforce
  then show ?thesis using assms by (auto simp: done_node_def)
qed

lemma slot_insert_off:
  assumes "1 \<le> k" "k < n" "\<not> anc k (n + i)"
  shows "slot_ok R n W L (insert i I) k = slot_ok R n W L I k"
proof -
  have "\<not> anc (2 * k) (n + i)" "\<not> anc (2 * k + 1) (n + i)"
    using assms(3) anc_trans anc_double by blast+
  then show ?thesis by (simp add: slot_ok_def done_insert_off)
qed

lemma init_empty:
  assumes "0 < n"
  shows "init_ok R n (\<lambda>k. k - n) (replicate n USIZE_MAX) {}"
proof -
  have nd: "\<not> done_node n {} k" if "1 \<le> k" "k < 2 * n" for k
    using leaf_below [OF that] by (auto simp: done_node_def)
  then have "slot_ok R n (\<lambda>k. k - n) (replicate n USIZE_MAX) {} k" if "1 \<le> k" "k < n" for k
    using that by (auto simp: slot_ok_def)
  then show ?thesis using nd assms nd [of 1] by (auto simp: init_ok_def)
qed

lemma init_complete:
  assumes "init_ok R n W L {..<n}"
  shows "tree_ok R n W L"
proof -
  have "done_node n {..<n} k" for k by (simp add: done_node_def)
  then show ?thesis using assms by (auto simp: init_ok_def tree_ok_def slot_ok_def)
qed

lemma insert_start:
  assumes "init_ok R n W L I" "i < n" "i \<notin> I"
  shows "insert_ok R n W L I i i (n + i)"
proof -
  have "slot_ok R n W L (insert i I) k" if k: "1 \<le> k" "k < n" "\<not> anc k ((n + i) div 2)" for k
  proof -
    have "\<not> anc k (n + i)" using anc_proper [of k "n + i"] k by auto
    then show ?thesis using slot_insert_off [OF k(1,2)] assms(1) k by (simp add: init_ok_def)
  qed
  moreover have "W k < n" if "1 \<le> k" "k < 2 * n" "done_node n (insert i I) k" "anc k (n + i) \<longrightarrow> k = n + i" for k
    using that assms done_insert_off [of k n i I] by (auto simp: init_ok_def)
  ultimately show ?thesis using assms by (auto simp: insert_ok_def init_ok_def done_leaf)
qed

lemma insert_slot:
  assumes ins: "insert_ok R n W L I i x j" and j: "2 \<le> j"
  shows "1 \<le> j div 2" "j div 2 < n" "x < n"
    and "L ! (j div 2) = (if done_node n I (sib j) then W (sib j) else USIZE_MAX)"
    and "done_node n I (sib j) \<Longrightarrow> W (sib j) < n"
    and "done_node n (insert i I) (sib j) = done_node n I (sib j)"
proof -
  have jn: "j < 2 * n" and i: "i < n" "i \<notin> I" "anc j (n + i)" using ins by (auto simp: insert_ok_def)
  show c: "1 \<le> j div 2" "j div 2 < n" using j jn by auto
  show "x < n" using ins by (auto simp: insert_ok_def)
  have off: "\<not> anc (sib j) (n + i)" using sib_disjoint [OF j i(3)] by blast
  then show "done_node n (insert i I) (sib j) = done_node n I (sib j)" by (rule done_insert_off)
  have nd: "\<not> done_node n I j" using not_done_path i by blast
  have slot: "slot_ok R n W L I (j div 2)"
    using ins c by (auto simp: insert_ok_def split: if_splits)
  show "L ! (j div 2) = (if done_node n I (sib j) then W (sib j) else USIZE_MAX)"
    using j by (rule sib_cases) (use slot nd in \<open>auto simp: slot_ok_def\<close>)
  have "\<not> anc (sib j) j" using sib_disjoint [OF j anc_refl] by blast
  moreover have "1 \<le> sib j" "sib j < 2 * n" using sib_ge [OF j] jn by (auto simp: sib_def)
  ultimately show "W (sib j) < n" if "done_node n I (sib j)"
    using ins that done_insert_off [OF off, of I] by (auto simp: insert_ok_def)
qed

lemma slot_cong:
  assumes "done_node n I k \<Longrightarrow> W' k = W k"
    and "done_node n I (2 * k) \<Longrightarrow> W' (2 * k) = W (2 * k)"
    and "done_node n I (2 * k + 1) \<Longrightarrow> W' (2 * k + 1) = W (2 * k + 1)"
    and "L' ! k = L ! k" "1 \<le> k" "k < n"
  shows "slot_ok R n W' L' I k = slot_ok R n W L I k"
  using assms done_inner [of k n I] by (auto simp: slot_ok_def node_ok_def)

lemma insert_step:
  assumes ins: "insert_ok R n W L I i x j" and j: "2 \<le> j" and sd: "done_node n I (sib j)"
    and xz: "x' = x \<and> z = L ! (j div 2) \<or> x' = L ! (j div 2) \<and> z = x"
    and R: "R (j div 2) x' z"
  shows "insert_ok R n (W(j div 2 := x')) (L[j div 2 := z]) I i x' (j div 2)"
proof -
  define c where "c = j div 2"
  note sl = insert_slot [OF ins j, folded c_def]
  let ?W = "W(c := x')" and ?L = "L[c := z]" and ?I = "insert i I"
  have lens: "length L = n" "i < n" "i \<notin> I" "anc j (n + i)" "W j = x" "done_node n ?I j"
    using ins by (auto simp: insert_ok_def)
  have canc: "anc c (n + i)" using anc_half lens(4) c_def by blast
  have kids: "{W j, W (sib j)} = {W (2 * c), W (2 * c + 1)}" "done_node n ?I (2 * c)" "done_node n ?I (2 * c + 1)"
    using j by (rule sib_cases; use c_def sd sl(6) lens(6) in auto)+
  have doneC: "done_node n ?I c" using done_inner [of c n ?I] sl(1,2) kids by simp
  have "slot_ok R n ?W ?L (if anc k (c div 2) then I else ?I) k" if k: "1 \<le> k" "k < n" for k
  proof (cases "k = c")
    case True
    have "{x', z} = {W j, W (sib j)}" using xz sl(4) sd lens(5) c_def by auto
    then have "node_ok R ?W ?L k" using True kids(1) R lens(1) k c_def by (simp add: node_ok_def)
    moreover have "\<not> anc k (c div 2)" using True anc_le [of c "c div 2"] sl(1) by fastforce
    ultimately show ?thesis using True kids by (simp add: slot_ok_def)
  next
    case False
    have half: "anc k (c div 2) \<longleftrightarrow> anc k c" using False anc_proper anc_of_half by metis
    have old: "slot_ok R n W L (if anc k c then I else ?I) k"
      using ins k c_def by (auto simp: insert_ok_def)
    have "2 * k = c \<or> 2 * k + 1 = c \<Longrightarrow> anc k c" using anc_double by blast
    moreover have "\<not> done_node n I c" using not_done_path canc lens by blast
    ultimately have "slot_ok R n ?W ?L (if anc k c then I else ?I) k =
        slot_ok R n W L (if anc k c then I else ?I) k"
      using False k by (intro slot_cong) (auto split: if_splits)
    then show ?thesis using old half by simp
  qed
  moreover have "?W k < n" if "1 \<le> k" "k < 2 * n" "done_node n ?I k" "anc k c \<longrightarrow> k = c" for k
  proof (cases "k = c")
    case False
    then have "anc k j \<longrightarrow> k = j" using that(4) anc_proper c_def by blast
    then show ?thesis using False that ins by (simp add: insert_ok_def)
  qed (use xz sl sd c_def in auto)
  ultimately show ?thesis
    using ins sl(1,2) canc doneC unfolding c_def [symmetric] by (auto simp: insert_ok_def)
qed

lemma insert_stop:
  assumes ins: "insert_ok R n W L I i x j" and j: "2 \<le> j" and sd: "\<not> done_node n I (sib j)"
  shows "init_ok R n W (L[j div 2 := x]) (insert i I)"
proof -
  define c where "c = j div 2"
  note sl = insert_slot [OF ins j, folded c_def]
  let ?L = "L[c := x]" and ?I = "insert i I"
  have lens: "length L = n" "i < n" "i \<notin> I" "anc j (n + i)" "W j = x" "done_node n ?I j"
    using ins by (auto simp: insert_ok_def)
  have canc: "anc c (n + i)" using anc_half lens(4) c_def by blast
  have "anc c (sib j)" using sib_half [OF j] anc_half [OF anc_refl, of "sib j"] c_def by simp
  then have undone: "\<not> done_node n ?I k" if "anc k c" for k
    using that done_below sd sl(6) anc_trans by blast
  have "slot_ok R n W ?L ?I k" if k: "1 \<le> k" "k < n" for k
  proof (cases "k = c")
    case True
    then show ?thesis
      using j by (auto elim!: sib_cases simp: slot_ok_def lens c_def) (use sd sl(6) lens k c_def in auto)
  next
    case False
    have old: "slot_ok R n W L (if anc k c then I else ?I) k" using ins k c_def by (auto simp: insert_ok_def)
    have "slot_ok R n W L ?I k"
    proof (cases "anc k c")
      case True
      have "done_node n ?I m = done_node n I m" if "m = 2 * k \<or> m = 2 * k + 1" for m
      proof (cases "anc m (n + i)")
        case True
        have "anc (2 * k) c \<or> anc (2 * k + 1) c"
          using anc_child [OF \<open>anc k c\<close>] anc_le [OF \<open>anc k c\<close>] False k(1) by auto
        then have "anc m c"
          using that True anc_trans [OF _ canc] anc_children_disjoint [of k "n + i"] k(1) by metis
        then show ?thesis using undone not_done_path True lens by blast
      qed (rule done_insert_off)
      then show ?thesis using old True by (simp add: slot_ok_def)
    qed (use old in simp)
    then show ?thesis using False slot_cong [of n ?I k W W ?L L R] k by simp
  qed
  moreover have "W k < n" if "1 \<le> k" "k < 2 * n" "done_node n ?I k" for k
    using that ins undone [of k] anc_proper [of k j] unfolding insert_ok_def c_def by blast
  moreover have "\<not> done_node n ?I 1" using undone anc_one sl(1) by blast
  ultimately show ?thesis using lens ins unfolding c_def [symmetric] by (auto simp: init_ok_def insert_ok_def)
qed

lemma insert_top:
  assumes ins: "insert_ok R n W L I i x 1"
  shows "init_ok R n W (L[0 := x]) (insert i I)"
proof -
  have "slot_ok R n W (L[0 := x]) (insert i I) k" if "1 \<le> k" "k < n" for k
    using ins that slot_cong [of n "insert i I" k W W "L[0 := x]" L R] by (simp add: insert_ok_def)
  moreover have "W k < n" if "1 \<le> k" "k < 2 * n" "done_node n (insert i I) k" for k
    using ins that anc_le [of k 1] by (auto simp: insert_ok_def)
  ultimately show ?thesis using ins by (auto simp: init_ok_def insert_ok_def)
qed

end
