(* ===== verification/Loser_Tree.thy ===== *)
theory Loser_Tree
  imports Sort_Cursor Tournament
begin

text \<open>
  The loser tree of \<open>SortPreservingMergeStream\<close> (\<open>physical-plan/src/sorts/merge.rs\<close>): its
  initialisation, its replay after the winner moved, and the round-robin tie breaker that
  balances polling among equal streams.  An index out of range and a failed \<open>expect\<close> panic, which
  is \<open>None\<close>.  \<open>loser_tree_ok\<close> is the invariant, stated with the ghost winners of \<open>Tournament\<close>.
\<close>

section \<open>State\<close>

text \<open>The fields of the stream that the tree uses; the merge extends the record.\<close>

record ('v, 's) tree_state =
  loser_tree :: "nat list"
  cursors :: "'v cursor option list"
  round_robin_tie_breaker_mode :: bool
  num_of_polled_with_same_value :: "nat list"
  poll_reset_epochs :: "nat list"
  current_reset_epoch :: nat
  prev_cursors :: "'s option list option"

section \<open>Operations\<close>

definition poll_count :: "('v, 's, 'z) tree_state_scheme \<Rightarrow> nat \<Rightarrow> nat option" where
  "poll_count s partition_idx = do {
     e \<leftarrow> vec_get (poll_reset_epochs s) partition_idx;
     if e = current_reset_epoch s then vec_get (num_of_polled_with_same_value s) partition_idx
     else Some 0 }"

definition update_poll_count_on_the_same_value ::
  "('v, 's) cursor_values \<Rightarrow> ('v, 's, 'z) tree_state_scheme \<Rightarrow> nat \<Rightarrow> ('v, 's, 'z) tree_state_scheme option" where
  "update_poll_count_on_the_same_value CV s partition_idx = do {
     cursor \<leftarrow> vec_get (cursors s) partition_idx;
     e \<leftarrow> vec_get (poll_reset_epochs s) partition_idx;
     s \<leftarrow> (if e \<noteq> current_reset_epoch s then do {
             es \<leftarrow> vec_set (poll_reset_epochs s) partition_idx (current_reset_epoch s);
             ns \<leftarrow> vec_set (num_of_polled_with_same_value s) partition_idx 0;
             Some (s\<lparr>poll_reset_epochs := es, num_of_polled_with_same_value := ns\<rparr>) }
           else Some s);
     case cursor of
       None \<Rightarrow> Some s
     | Some c \<Rightarrow> do {
         prevs \<leftarrow> prev_cursors s;
         prev_cursor \<leftarrow> vec_get prevs partition_idx;
         eq \<leftarrow> is_eq_to_prev_one CV c prev_cursor;
         n \<leftarrow> vec_get (num_of_polled_with_same_value s) partition_idx;
         ns \<leftarrow> vec_set (num_of_polled_with_same_value s) partition_idx (if eq then n + 1 else 0);
         Some (s\<lparr>num_of_polled_with_same_value := ns\<rparr>) } }"

definition round_robin_tie_breaker_enabled :: "('v, 's, 'z) tree_state_scheme \<Rightarrow> bool" where
  "round_robin_tie_breaker_enabled s \<longleftrightarrow> prev_cursors s \<noteq> None"

definition is_gt :: "('v, 's) cursor_values \<Rightarrow> ('v, 's, 'z) tree_state_scheme \<Rightarrow> nat \<Rightarrow> nat \<Rightarrow> bool option" where
  "is_gt CV s a b = do {
     ca \<leftarrow> vec_get (cursors s) a;
     cb \<leftarrow> vec_get (cursors s) b;
     case (ca, cb) of
       (None, _) \<Rightarrow> Some True
     | (_, None) \<Rightarrow> Some False
     | (Some ac, Some bc) \<Rightarrow> do {
         ord \<leftarrow> cursor_cmp CV ac bc;
         Some (then_with ord (ord_cmp a b) = Greater) } }"

definition is_poll_count_gt :: "('v, 's, 'z) tree_state_scheme \<Rightarrow> nat \<Rightarrow> nat \<Rightarrow> bool option" where
  "is_poll_count_gt s a b = do {
     pa \<leftarrow> poll_count s a;
     pb \<leftarrow> poll_count s b;
     Some (then_with (ord_cmp pa pb) (ord_cmp a b) = Greater) }"

definition update_winner ::
  "('v, 's, 'z) tree_state_scheme \<Rightarrow> nat \<Rightarrow> nat \<Rightarrow> nat \<Rightarrow> (('v, 's, 'z) tree_state_scheme \<times> nat) option" where
  "update_winner s cmp_node winner challenger = do {
     t \<leftarrow> vec_set (loser_tree s) cmp_node winner;
     Some (s\<lparr>loser_tree := t\<rparr>, challenger) }"

text \<open>\<open>usize::midpoint\<close> does not overflow.\<close>

definition lt_leaf_node_index :: "('v, 's, 'z) tree_state_scheme \<Rightarrow> nat \<Rightarrow> nat" where
  "lt_leaf_node_index s cursor_index = (length (cursors s) + cursor_index) div 2"

definition lt_parent_node_index :: "nat \<Rightarrow> nat" where
  "lt_parent_node_index node_idx = node_idx div 2"

text \<open>The inner loop of \<open>init_loser_tree\<close>: a stream climbs until it meets an empty slot.\<close>

function init_climb ::
  "('v, 's) cursor_values \<Rightarrow> ('v, 's, 'z) tree_state_scheme \<Rightarrow> nat \<Rightarrow> nat \<Rightarrow>
   (('v, 's, 'z) tree_state_scheme \<times> nat \<times> nat) option" where
  "init_climb CV s winner cmp_node =
     (if cmp_node = 0 then Some (s, winner, cmp_node)
      else do {
        challenger \<leftarrow> vec_get (loser_tree s) cmp_node;
        if challenger = USIZE_MAX then Some (s, winner, cmp_node)
        else do {
          gt \<leftarrow> is_gt CV s winner challenger;
          if gt then do {
            t \<leftarrow> vec_set (loser_tree s) cmp_node winner;
            init_climb CV (s\<lparr>loser_tree := t\<rparr>) challenger (lt_parent_node_index cmp_node) }
          else init_climb CV s winner (lt_parent_node_index cmp_node) } })"
  by pat_completeness auto
termination
  by (relation "measure (\<lambda>(CV, s, winner, cmp_node). cmp_node)") (auto simp: lt_parent_node_index_def)

definition init_stream ::
  "('v, 's) cursor_values \<Rightarrow> ('v, 's, 'z) tree_state_scheme \<Rightarrow> nat \<Rightarrow> ('v, 's, 'z) tree_state_scheme option" where
  "init_stream CV s i = do {
     (s, winner, cmp_node) \<leftarrow> init_climb CV s i (lt_leaf_node_index s i);
     t \<leftarrow> vec_set (loser_tree s) cmp_node winner;
     Some (s\<lparr>loser_tree := t\<rparr>) }"

fun init_streams ::
  "('v, 's) cursor_values \<Rightarrow> ('v, 's, 'z) tree_state_scheme \<Rightarrow> nat list \<Rightarrow> ('v, 's, 'z) tree_state_scheme option" where
  "init_streams CV s [] = Some s"
| "init_streams CV s (i # is) = do { s' \<leftarrow> init_stream CV s i; init_streams CV s' is }"

definition init_loser_tree ::
  "('v, 's) cursor_values \<Rightarrow> ('v, 's, 'z) tree_state_scheme \<Rightarrow> ('v, 's, 'z) tree_state_scheme option" where
  "init_loser_tree CV s =
     init_streams CV (s\<lparr>loser_tree := replicate (length (cursors s)) USIZE_MAX\<rparr>) [0..<length (cursors s)]"

definition reset_poll_counts :: "('v, 's, 'z) tree_state_scheme \<Rightarrow> ('v, 's, 'z) tree_state_scheme" where
  "reset_poll_counts s = s\<lparr>current_reset_epoch := current_reset_epoch s + 1\<rparr>"

definition handle_tie ::
  "('v, 's) cursor_values \<Rightarrow> ('v, 's, 'z) tree_state_scheme \<Rightarrow> nat \<Rightarrow> nat \<Rightarrow> nat \<Rightarrow>
   (('v, 's, 'z) tree_state_scheme \<times> nat) option" where
  "handle_tie CV s cmp_node winner challenger = do {
     let s = (if \<not> round_robin_tie_breaker_mode s
              then reset_poll_counts (s\<lparr>round_robin_tie_breaker_mode := True\<rparr>) else s);
     top_winner \<leftarrow> vec_get (loser_tree s) 0;
     if winner = top_winner then do {
       s \<leftarrow> update_poll_count_on_the_same_value CV s winner;
       gt \<leftarrow> is_poll_count_gt s winner challenger;
       if gt then update_winner s cmp_node winner challenger else Some (s, winner) }
     else if challenger < winner then update_winner s cmp_node winner challenger
     else Some (s, winner) }"

text \<open>The loop of \<open>update_loser_tree\<close> below the root.\<close>

function update_climb ::
  "('v, 's) cursor_values \<Rightarrow> ('v, 's, 'z) tree_state_scheme \<Rightarrow> nat \<Rightarrow> nat \<Rightarrow>
   (('v, 's, 'z) tree_state_scheme \<times> nat \<times> nat) option" where
  "update_climb CV s winner cmp_node =
     (if cmp_node > 1 then do {
        challenger \<leftarrow> vec_get (loser_tree s) cmp_node;
        gt \<leftarrow> is_gt CV s winner challenger;
        (s, winner) \<leftarrow> (if gt then update_winner s cmp_node winner challenger else Some (s, winner));
        update_climb CV s winner (lt_parent_node_index cmp_node) }
      else Some (s, winner, cmp_node))"
  by pat_completeness auto
termination
  by (relation "measure (\<lambda>(CV, s, winner, cmp_node). cmp_node)") (auto simp: lt_parent_node_index_def)

text \<open>The match at the root, where the tie breaker applies.\<close>

definition final_match ::
  "('v, 's) cursor_values \<Rightarrow> ('v, 's, 'z) tree_state_scheme \<Rightarrow> nat \<Rightarrow> nat \<Rightarrow>
   (('v, 's, 'z) tree_state_scheme \<times> nat) option" where
  "final_match CV s cmp_node winner = do {
     challenger \<leftarrow> vec_get (loser_tree s) 1;
     if round_robin_tie_breaker_enabled s then do {
       ca \<leftarrow> vec_get (cursors s) winner;
       cb \<leftarrow> vec_get (cursors s) challenger;
       case (ca, cb) of
         (Some ac, Some bc) \<Rightarrow> do {
           ord \<leftarrow> cursor_cmp CV ac bc;
           case ord of
             Equal \<Rightarrow> handle_tie CV s cmp_node winner challenger
           | Greater \<Rightarrow> update_winner (s\<lparr>round_robin_tie_breaker_mode := False\<rparr>) cmp_node winner challenger
           | Less \<Rightarrow> Some (s\<lparr>round_robin_tie_breaker_mode := False\<rparr>, winner) }
       | (None, _) \<Rightarrow> update_winner (s\<lparr>round_robin_tie_breaker_mode := False\<rparr>) cmp_node winner challenger
       | (_, None) \<Rightarrow> Some (s\<lparr>round_robin_tie_breaker_mode := False\<rparr>, winner) }
     else do {
       gt \<leftarrow> is_gt CV s winner challenger;
       if gt then update_winner s cmp_node winner challenger else Some (s, winner) } }"

definition update_loser_tree ::
  "('v, 's) cursor_values \<Rightarrow> ('v, 's, 'z) tree_state_scheme \<Rightarrow> ('v, 's, 'z) tree_state_scheme option" where
  "update_loser_tree CV s = do {
     winner \<leftarrow> vec_get (loser_tree s) 0;
     (s, winner, cmp_node) \<leftarrow> update_climb CV s winner (lt_leaf_node_index s winner);
     (s, winner) \<leftarrow> (if cmp_node = 1 then final_match CV s cmp_node winner else Some (s, winner));
     t \<leftarrow> vec_set (loser_tree s) 0 winner;
     Some (s\<lparr>loser_tree := t\<rparr>) }"

definition is_exhausted :: "('v, 's, 'z) tree_state_scheme \<Rightarrow> bool option" where
  "is_exhausted s = do {
     winner \<leftarrow> vec_get (loser_tree s) 0;
     c \<leftarrow> vec_get (cursors s) winner;
     Some (c = None) }"

text \<open>
  Advancing the winner: a finished cursor is taken out, its last value remembered when the tie
  breaker is on.
\<close>

definition advance_cursors ::
  "('v, 's) cursor_values \<Rightarrow> ('v, 's, 'z) tree_state_scheme \<Rightarrow> nat \<Rightarrow>
   (bool \<times> ('v, 's, 'z) tree_state_scheme) option" where
  "advance_cursors CV s stream_idx = do {
     c \<leftarrow> vec_get (cursors s) stream_idx;
     case c of
       None \<Rightarrow> Some (True, s)
     | Some cursor \<Rightarrow> do {
         (_, cursor) \<leftarrow> advance CV cursor;
         if is_finished CV cursor then do {
           s \<leftarrow> (case prev_cursors s of
                   None \<Rightarrow> Some s
                 | Some prevs \<Rightarrow> do {
                     v \<leftarrow> last_value CV cursor;
                     prevs \<leftarrow> vec_set prevs stream_idx (Some v);
                     Some (s\<lparr>prev_cursors := Some prevs\<rparr>) });
           cs \<leftarrow> vec_set (cursors s) stream_idx None;
           Some (True, s\<lparr>cursors := cs\<rparr>) }
         else do {
           cs \<leftarrow> vec_set (cursors s) stream_idx (Some cursor);
           Some (False, s\<lparr>cursors := cs\<rparr>) } } }"

declare init_climb.simps [simp del] update_climb.simps [simp del]

section \<open>The invariant\<close>

text \<open>An operation of the tree keeps the cursors, the remembered values and the sizes.\<close>

definition same_frame :: "('v, 's, 'z) tree_state_scheme \<Rightarrow> ('v, 's, 'z) tree_state_scheme \<Rightarrow> bool" where
  "same_frame s s' \<longleftrightarrow>
     cursors s' = cursors s \<and> prev_cursors s' = prev_cursors s \<and>
     length (num_of_polled_with_same_value s') = length (num_of_polled_with_same_value s) \<and>
     length (poll_reset_epochs s') = length (poll_reset_epochs s) \<and>
     tree_state.more s' = tree_state.more s"

definition polls_ok :: "('v, 's, 'z) tree_state_scheme \<Rightarrow> bool" where
  "polls_ok s \<longleftrightarrow>
     length (num_of_polled_with_same_value s) = length (cursors s) \<and>
     length (poll_reset_epochs s) = length (cursors s) \<and>
     (\<forall>p. prev_cursors s = Some p \<longrightarrow> length p = length (cursors s))"

lemma same_frame_refl [simp]: "same_frame s s"
  by (simp add: same_frame_def)

lemma same_frame_trans: "same_frame s t \<Longrightarrow> same_frame t u \<Longrightarrow> same_frame s u"
  by (simp add: same_frame_def)

lemma same_frame_tree [simp]: "same_frame s (s\<lparr>loser_tree := t\<rparr>)"
  by (simp add: same_frame_def)

lemma same_frame_polls: "same_frame s s' \<Longrightarrow> polls_ok s' = polls_ok s"
  by (simp add: same_frame_def polls_ok_def)

context cursor_contract
begin

definition live_ok :: "'v cursor option list \<Rightarrow> bool" where
  "live_ok cs \<longleftrightarrow> (\<forall>c. Some c \<in> set cs \<longrightarrow> cursor_ok c)"

definition stream_key :: "'v cursor option list \<Rightarrow> nat \<Rightarrow> 'k option" where
  "stream_key cs i = map_option cursor_key (cs ! i)"

text \<open>An exhausted stream is greater than every other one.\<close>

fun key_le :: "'k option \<Rightarrow> 'k option \<Rightarrow> bool" where
  "key_le _ None = True"
| "key_le None (Some _) = False"
| "key_le (Some x) (Some y) = kle x y"

text \<open>
  What the winner of a match satisfies: its key is not greater; on equal keys its index is the
  smaller one, except at the root when the tie breaker is on.
\<close>

definition match_rel :: "bool \<Rightarrow> 'v cursor option list \<Rightarrow> nat \<Rightarrow> nat \<Rightarrow> nat \<Rightarrow> bool" where
  "match_rel tb cs k a b \<longleftrightarrow>
     key_le (stream_key cs a) (stream_key cs b) \<and>
     ((2 \<le> k \<or> \<not> tb) \<and> stream_key cs a \<noteq> None \<and> key_le (stream_key cs b) (stream_key cs a) \<longrightarrow> a \<le> b)"

definition loser_tree_ok :: "('v, 's, 'z) tree_state_scheme \<Rightarrow> bool" where
  "loser_tree_ok s \<longleftrightarrow>
     (\<exists>W. tree_ok (match_rel (round_robin_tie_breaker_enabled s) (cursors s)) (length (cursors s)) W
        (loser_tree s))"

lemma key_le_refl [simp]: "key_le a a"
  by (cases a) auto

lemma key_le_trans: "key_le a b \<Longrightarrow> key_le b c \<Longrightarrow> key_le a c"
  by (cases a; cases b; cases c) (auto intro: kle_trans)

lemma live_cursor: "live_ok cs \<Longrightarrow> i < length cs \<Longrightarrow> cs ! i = Some c \<Longrightarrow> cursor_ok c"
  by (metis live_ok_def nth_mem)

lemma is_gt_match:
  assumes "live_ok (cursors s)" "a < length (cursors s)" "b < length (cursors s)"
  shows "\<exists>g. is_gt CV s a b = Some g \<and>
    (if g then match_rel tb (cursors s) k b a else match_rel tb (cursors s) k a b)"
proof (cases "cursors s ! a")
  case None
  then have "is_gt CV s a b = Some True" using assms(2,3) by (simp add: is_gt_def)
  moreover have "match_rel tb (cursors s) k b a"
    using None by (cases "cursors s ! b") (simp_all add: match_rel_def stream_key_def)
  ultimately show ?thesis by (intro exI [of _ True]) simp
next
  case (Some ac)
  note a = this
  show ?thesis
  proof (cases "cursors s ! b")
    case None
    then have "is_gt CV s a b = Some False" using assms(2,3) a by (simp add: is_gt_def)
    moreover have "match_rel tb (cursors s) k a b" using None a by (simp add: match_rel_def stream_key_def)
    ultimately show ?thesis by (intro exI [of _ False]) simp
  next
    case (Some bc)
    let ?o = "kcmp (cursor_key ac) (cursor_key bc)"
    have "cursor_cmp CV ac bc = Some ?o"
      using cursor_cmp_key live_cursor assms a Some by blast
    then have gt: "is_gt CV s a b = Some (then_with ?o (ord_cmp a b) = Greater)"
      using assms(2,3) a Some by (simp add: is_gt_def)
    have rel: "match_rel tb (cursors s) k b a" if "then_with ?o (ord_cmp a b) = Greater"
      using that a Some kle_total [of "cursor_key ac" "cursor_key bc"] kcmp_Greater_iff kcmp_Equal_iff
      by (cases ?o) (simp_all add: match_rel_def stream_key_def)
    have "match_rel tb (cursors s) k a b" if "then_with ?o (ord_cmp a b) \<noteq> Greater"
      using that a Some kle_total [of "cursor_key ac" "cursor_key bc"] kcmp_Less_iff kcmp_Equal_iff
      by (cases ?o) (simp_all add: match_rel_def stream_key_def)
    with gt rel show ?thesis by simp
  qed
qed

text \<open>The winner of the tree has a minimal key.\<close>

lemma winner_minimal:
  assumes "loser_tree_ok s" "i < length (cursors s)"
  shows "key_le (stream_key (cursors s) (loser_tree s ! 0)) (stream_key (cursors s) i)"
proof -
  obtain W where "tree_ok (match_rel (round_robin_tie_breaker_enabled s) (cursors s)) (length (cursors s)) W
      (loser_tree s)"
    using assms(1) by (auto simp: loser_tree_ok_def)
  then show ?thesis
    by (rule tree_min [where le = "\<lambda>a b. key_le (stream_key (cursors s) a) (stream_key (cursors s) b)"])
      (use assms(2) key_le_trans in \<open>auto simp: match_rel_def\<close>)
qed

lemma winner_bounds:
  assumes "loser_tree_ok s"
  shows "length (loser_tree s) = length (cursors s)" "0 < length (cursors s)" "loser_tree s ! 0 < length (cursors s)"
proof -
  obtain W where t: "tree_ok (match_rel (round_robin_tie_breaker_enabled s) (cursors s)) (length (cursors s)) W
      (loser_tree s)"
    using assms by (auto simp: loser_tree_ok_def)
  show "length (loser_tree s) = length (cursors s)" "0 < length (cursors s)"
    using t by (simp_all add: tree_ok_def)
  show "loser_tree s ! 0 < length (cursors s)" by (rule root_lt [OF t])
qed

section \<open>Replaying\<close>

lemma update_climb_ok:
  assumes "climb_ok (match_rel tb (cursors s)) (length (cursors s)) W (loser_tree s) x j"
    and "live_ok (cursors s)"
  shows "\<exists>L' W' x' j'. update_climb CV s x (j div 2) = Some (s\<lparr>loser_tree := L'\<rparr>, x', j' div 2) \<and>
    climb_ok (match_rel tb (cursors s)) (length (cursors s)) W' L' x' j' \<and> j' div 2 \<le> 1"
  using assms
proof (induction j arbitrary: s W x rule: less_induct)
  case (less j)
  let ?c = "j div 2"
  show ?case
  proof (cases "?c > 1")
    case False
    then have "update_climb CV s x ?c = Some (s\<lparr>loser_tree := loser_tree s\<rparr>, x, ?c)"
      by (simp add: update_climb.simps [of CV s x])
    then show ?thesis using less.prems(1) False by (metis not_less)
  next
    case True
    then have j: "2 \<le> j" by linarith
    note ch = climb_challenger [OF less.prems(1) j]
    let ?y = "loser_tree s ! ?c"
    have len: "length (loser_tree s) = length (cursors s)" using less.prems(1) by (simp add: climb_ok_def)
    obtain g where g: "is_gt CV s x ?y = Some g"
      "if g then match_rel tb (cursors s) ?c ?y x else match_rel tb (cursors s) ?c x ?y"
      using is_gt_match [OF less.prems(2), of x ?y tb ?c] ch by blast
    define x2 z2 where "x2 = (if g then ?y else x)" and "z2 = (if g then x else ?y)"
    define s2 where "s2 = s\<lparr>loser_tree := (loser_tree s)[?c := z2]\<rparr>"
    have cs2: "cursors s2 = cursors s" by (simp add: s2_def)
    have "climb_ok (match_rel tb (cursors s2)) (length (cursors s2)) (W(?c := x2)) (loser_tree s2) x2 ?c"
      using climb_step [OF less.prems(1) j, of x2 z2] g(2) by (cases g) (simp_all add: x2_def z2_def s2_def)
    moreover have "?c < j" using j by simp
    ultimately obtain L' W' x' j' where
      r: "update_climb CV s2 x2 (?c div 2) = Some (s2\<lparr>loser_tree := L'\<rparr>, x', j' div 2)"
        "climb_ok (match_rel tb (cursors s)) (length (cursors s)) W' L' x' j'" "j' div 2 \<le> 1"
      using less.IH [of ?c s2 "W(?c := x2)" x2] less.prems(2) unfolding cs2 by blast
    have "update_climb CV s x ?c = update_climb CV s2 x2 (?c div 2)"
      using True g(1) ch len
      by (cases g) (simp_all add: update_climb.simps [of CV s x] update_winner_def lt_parent_node_index_def
          x2_def z2_def s2_def)
    then show ?thesis using r by (auto simp: s2_def)
  qed
qed

lemma update_poll_count_ok:
  assumes "polls_ok s" "live_ok (cursors s)" "i < length (cursors s)" "round_robin_tie_breaker_enabled s"
  shows "\<exists>s'. update_poll_count_on_the_same_value CV s i = Some s' \<and> same_frame s s' \<and>
    loser_tree s' = loser_tree s"
proof -
  obtain prevs where p: "prev_cursors s = Some prevs" "i < length prevs"
    using assms by (auto simp: round_robin_tie_breaker_enabled_def polls_ok_def)
  show ?thesis
  proof (cases "cursors s ! i")
    case None
    then show ?thesis
      using assms p by (simp add: update_poll_count_on_the_same_value_def polls_ok_def same_frame_def)
  next
    case (Some c)
    obtain e where "is_eq_to_prev_one CV c (prevs ! i) = Some e"
      using is_eq_to_prev_one_total live_cursor [OF assms(2,3) Some] by (metis option.exhaust)
    then show ?thesis
      using assms p Some by (simp add: update_poll_count_on_the_same_value_def polls_ok_def same_frame_def)
  qed
qed

lemma is_poll_count_gt_total:
  assumes "polls_ok s" "a < length (cursors s)" "b < length (cursors s)"
  shows "\<exists>g. is_poll_count_gt s a b = Some g"
  using assms by (simp add: is_poll_count_gt_def poll_count_def polls_ok_def)

text \<open>A tie at the root: either stream may win.\<close>

lemma handle_tie_ok:
  assumes "polls_ok s" "live_ok (cursors s)" "round_robin_tie_breaker_enabled s"
    and "x < length (cursors s)" "y < length (cursors s)" "1 < length (loser_tree s)" "loser_tree s ! 1 = y"
  shows "\<exists>s' x' z. handle_tie CV s 1 x y = Some (s', x') \<and> same_frame s s' \<and>
    loser_tree s' = (loser_tree s)[1 := z] \<and> (x' = x \<and> z = y \<or> x' = y \<and> z = x)"
proof -
  define s1 where "s1 = (if \<not> round_robin_tie_breaker_mode s
      then reset_poll_counts (s\<lparr>round_robin_tie_breaker_mode := True\<rparr>) else s)"
  have s1: "same_frame s s1" "loser_tree s1 = loser_tree s" "round_robin_tie_breaker_enabled s1"
    using assms(3) by (auto simp: s1_def same_frame_def reset_poll_counts_def round_robin_tie_breaker_enabled_def)
  have cs1: "cursors s1 = cursors s" using s1(1) by (simp add: same_frame_def)
  have p1: "polls_ok s1" using same_frame_polls [OF s1(1)] assms(1) by simp
  have top_get: "vec_get (loser_tree s) 0 = Some (loser_tree s ! 0)"
    using assms(6) by (simp add: vec_get_def length_greater_0_conv [symmetric] del: length_greater_0_conv)
  have id: "(loser_tree s)[1 := y] = loser_tree s" using assms(7) list_update_id by metis
  have keep: "\<exists>s' x' z. Some (t, x) = Some (s', x') \<and> same_frame s s' \<and>
      loser_tree s' = (loser_tree s)[1 := z] \<and> (x' = x \<and> z = y \<or> x' = y \<and> z = x)"
    if "same_frame s t" "loser_tree t = loser_tree s" for t
    using that id by metis
  have swap: "\<exists>s' x' z. update_winner t 1 x y = Some (s', x') \<and> same_frame s s' \<and>
      loser_tree s' = (loser_tree s)[1 := z] \<and> (x' = x \<and> z = y \<or> x' = y \<and> z = x)"
    if "same_frame s t" "loser_tree t = loser_tree s" for t
    using that assms(6) same_frame_trans [OF that(1) same_frame_tree] by (auto simp: update_winner_def)
  show ?thesis
  proof (cases "x = loser_tree s ! 0")
    case True
    obtain s2 where s2: "update_poll_count_on_the_same_value CV s1 x = Some s2" "same_frame s1 s2"
      "loser_tree s2 = loser_tree s1"
      using update_poll_count_ok [OF p1, of x] assms(2,4) cs1 s1(3) by auto
    have f2: "same_frame s s2" using same_frame_trans s1(1) s2(2) by blast
    obtain g where g: "is_poll_count_gt s2 x y = Some g"
      using is_poll_count_gt_total [of s2 x y] same_frame_polls [OF s2(2)] p1 assms(4,5) f2
      by (auto simp: same_frame_def)
    have "handle_tie CV s 1 x y = (if g then update_winner s2 1 x y else Some (s2, x))"
      using True s1(2) s2(1) g top_get by (simp add: handle_tie_def s1_def [symmetric])
    then show ?thesis using keep [OF f2] swap [OF f2] s2(3) s1(2) by (cases g) simp_all
  next
    case False
    have "handle_tie CV s 1 x y = (if y < x then update_winner s1 1 x y else Some (s1, x))"
      using False s1(2) top_get by (simp add: handle_tie_def s1_def [symmetric])
    then show ?thesis using keep [OF s1(1,2)] swap [OF s1(1,2)] by (cases "y < x") simp_all
  qed
qed

lemma final_match_ok:
  assumes climb: "climb_ok (match_rel tb (cursors s)) (length (cursors s)) W (loser_tree s) x j"
    and j: "j div 2 = 1" and ok: "live_ok (cursors s)" "polls_ok s"
    and tb: "tb = round_robin_tie_breaker_enabled s"
  shows "\<exists>s' x' W'. final_match CV s 1 x = Some (s', x') \<and> same_frame s s' \<and>
    climb_ok (match_rel tb (cursors s)) (length (cursors s)) W' (loser_tree s') x' 1"
proof -
  let ?y = "loser_tree s ! 1"
  have j2: "2 \<le> j" using j by linarith
  note ch = climb_challenger [OF climb j2, unfolded j]
  have len: "length (loser_tree s) = length (cursors s)" using climb by (simp add: climb_ok_def)
  then have y1: "1 < length (loser_tree s)" using ch by simp
  have id: "(loser_tree s)[1 := ?y] = loser_tree s" by simp
  have fin: "\<exists>s' x' W'. Some (t, x2) = Some (s', x') \<and> same_frame s s' \<and>
      climb_ok (match_rel tb (cursors s)) (length (cursors s)) W' (loser_tree s') x' 1"
    if "same_frame s t" "loser_tree t = (loser_tree s)[1 := z]" "x2 = x \<and> z = ?y \<or> x2 = ?y \<and> z = x"
      "match_rel tb (cursors s) 1 x2 z" for t x2 z
    using that climb_step [OF climb j2, unfolded j, of x2 z] by metis
  have win: "\<exists>s' x' W'. update_winner t 1 x ?y = Some (s', x') \<and> same_frame s s' \<and>
      climb_ok (match_rel tb (cursors s)) (length (cursors s)) W' (loser_tree s') x' 1"
    if "same_frame s t" "loser_tree t = loser_tree s" "match_rel tb (cursors s) 1 ?y x" for t
    using fin [of "t\<lparr>loser_tree := (loser_tree t)[1 := x]\<rparr>" x ?y] that y1
      same_frame_trans [OF that(1) same_frame_tree] by (simp add: update_winner_def)
  have keep: "\<exists>s' x' W'. Some (t, x) = Some (s', x') \<and> same_frame s s' \<and>
      climb_ok (match_rel tb (cursors s)) (length (cursors s)) W' (loser_tree s') x' 1"
    if "same_frame s t" "loser_tree t = loser_tree s" "match_rel tb (cursors s) 1 x ?y" for t
    using fin [of t ?y x] that id by simp
  have off: "same_frame s (s\<lparr>round_robin_tie_breaker_mode := False\<rparr>)" by (simp add: same_frame_def)
  have rel: "match_rel tb (cursors s) 1 a b \<longleftrightarrow> key_le (stream_key (cursors s) a) (stream_key (cursors s) b)"
    if "tb" for a b using that by (simp add: match_rel_def)
  show ?thesis
  proof (cases tb)
    case False
    obtain g where "is_gt CV s x ?y = Some g"
      "if g then match_rel tb (cursors s) 1 ?y x else match_rel tb (cursors s) 1 x ?y"
      using is_gt_match [OF ok(1), of x ?y tb 1] ch by blast
    then show ?thesis
      using False tb y1 win [of s] keep [of s] by (cases g) (simp_all add: final_match_def)
  next
    case True
    show ?thesis
    proof (cases "cursors s ! x")
      case None
      then have "match_rel tb (cursors s) 1 ?y x" using rel [OF True] by (simp add: stream_key_def)
      then show ?thesis
        using True tb y1 ch None win [OF off] by (simp add: final_match_def)
    next
      case (Some ac)
      note ac = this
      show ?thesis
      proof (cases "cursors s ! ?y")
        case None
        then have "match_rel tb (cursors s) 1 x ?y" using rel [OF True] by (simp add: stream_key_def)
        then show ?thesis
          using True tb y1 ch ac None keep [OF off] by (simp add: final_match_def)
      next
        case (Some bc)
        let ?o = "kcmp (cursor_key ac) (cursor_key bc)"
        have cmp: "cursor_cmp CV ac bc = Some ?o"
          using cursor_cmp_key live_cursor [OF ok(1)] ac Some ch by blast
        show ?thesis
        proof (cases ?o)
          case Less
          then have "match_rel tb (cursors s) 1 x ?y"
            using rel [OF True] ac Some by (simp add: kle_def stream_key_def)
          then show ?thesis using True tb y1 ch ac Some cmp Less keep [OF off]
            by (simp add: final_match_def)
        next
          case Greater
          then have "kle (cursor_key bc) (cursor_key ac)" using kle_total kcmp_Greater_iff by blast
          then have "match_rel tb (cursors s) 1 ?y x"
            using rel [OF True] ac Some by (simp add: stream_key_def)
          then show ?thesis using True tb y1 ch ac Some cmp Greater win [OF off]
            by (simp add: final_match_def)
        next
          case Equal
          then have le: "kle (cursor_key ac) (cursor_key bc)" "kle (cursor_key bc) (cursor_key ac)"
            using kcmp_Equal_iff by auto
          obtain s' x' z where h: "handle_tie CV s 1 x ?y = Some (s', x')" "same_frame s s'"
            "loser_tree s' = (loser_tree s)[1 := z]" "x' = x \<and> z = ?y \<or> x' = ?y \<and> z = x"
            using handle_tie_ok [OF ok(2,1), of x ?y] True tb y1 ch by auto
          have "match_rel tb (cursors s) 1 x' z"
            using h(4) le ac Some rel True by (auto simp: stream_key_def)
          then show ?thesis using True tb y1 ch ac Some cmp Equal h fin [OF h(2,3,4)]
            by (simp add: final_match_def)
        qed
      qed
    qed
  qed
qed

text \<open>
  After the winner's cursor changed in any way, the replay restores the invariant and touches
  nothing but the tree and the poll counts.
\<close>

lemma match_rel_other:
  "match_rel tb cs k a b \<Longrightarrow> a \<noteq> w \<Longrightarrow> b \<noteq> w \<Longrightarrow> match_rel tb (cs[w := c]) k a b"
  by (simp add: match_rel_def stream_key_def)

lemma update_loser_tree_ok:
  assumes tree: "tree_ok (match_rel (round_robin_tie_breaker_enabled s) cs) (length (cursors s)) W (loser_tree s)"
    and cs: "cursors s = cs[loser_tree s ! 0 := c]"
    and ok: "live_ok (cursors s)" "polls_ok s"
  shows "\<exists>s'. update_loser_tree CV s = Some s' \<and> loser_tree_ok s' \<and> same_frame s s'"
proof -
  define tb where "tb = round_robin_tie_breaker_enabled s"
  let ?n = "length (cursors s)" and ?w = "loser_tree s ! 0" and ?R = "match_rel tb (cursors s)"
  have w: "?w < ?n" and n: "length (loser_tree s) = ?n" "0 < ?n"
    using root_lt [OF tree] tree by (auto simp: tree_ok_def)
  have start: "climb_ok ?R ?n W (loser_tree s) ?w (?n + ?w)"
    using match_rel_other [of tb cs _ _ _ ?w c] cs
    by (intro climb_start [OF tree]) (simp_all add: tb_def)
  obtain L' W' x' j' where climb: "update_climb CV s ?w ((?n + ?w) div 2) = Some (s\<lparr>loser_tree := L'\<rparr>, x', j' div 2)"
    "climb_ok ?R ?n W' L' x' j'" "j' div 2 \<le> 1"
    using update_climb_ok [OF start ok(1)] by blast
  let ?s = "s\<lparr>loser_tree := L'\<rparr>"
  have fin: "\<exists>s'. do { t \<leftarrow> vec_set (loser_tree u) 0 x; Some (u\<lparr>loser_tree := t\<rparr>) } = Some s' \<and>
      loser_tree_ok s' \<and> same_frame s s'"
    if "climb_ok ?R ?n V (loser_tree u) x 1" "same_frame s u" for u x V
  proof -
    have "length (loser_tree u) = ?n" using that(1) by (simp add: climb_ok_def)
    moreover have "tree_ok ?R ?n V ((loser_tree u)[0 := x])" by (rule climb_end [OF that(1)])
    moreover have "round_robin_tie_breaker_enabled u = tb" "cursors u = cursors s"
      using that(2) by (auto simp: same_frame_def round_robin_tie_breaker_enabled_def tb_def)
    ultimately show ?thesis
      using n(2) same_frame_trans [OF that(2) same_frame_tree]
      by (auto simp: vec_set_def loser_tree_ok_def round_robin_tie_breaker_enabled_def)
  qed
  have get: "vec_get (loser_tree s) 0 = Some ?w" using n by (simp add: vec_get_def)
  show ?thesis
  proof (cases "j' div 2 = 1")
    case True
    obtain s' x2 V where f: "final_match CV ?s 1 x' = Some (s', x2)" "same_frame ?s s'"
      "climb_ok ?R ?n V (loser_tree s') x2 1"
      using final_match_ok [of tb ?s W' x' j'] climb(2) True ok
      by (auto simp: tb_def round_robin_tie_breaker_enabled_def polls_ok_def)
    have "same_frame s s'" using same_frame_trans [OF same_frame_tree f(2)] .
    then show ?thesis
      using fin [OF f(3)] get climb(1) True f(1) by (simp add: update_loser_tree_def lt_leaf_node_index_def)
  next
    case False
    then have "j' = 1" using climb(2,3) by (simp add: climb_ok_def) linarith
    then show ?thesis
      using fin [of W' ?s x'] climb get False by (simp add: update_loser_tree_def lt_leaf_node_index_def)
  qed
qed

section \<open>Initialising\<close>

lemma init_climb_ok:
  assumes "insert_ok (match_rel tb (cursors s)) (length (cursors s)) W (loser_tree s) I i x j"
    and "live_ok (cursors s)" "length (cursors s) \<le> USIZE_MAX"
  shows "\<exists>L' W' x' c. init_climb CV s x (j div 2) = Some (s\<lparr>loser_tree := L'\<rparr>, x', c) \<and>
    c < length (cursors s) \<and> length L' = length (cursors s) \<and>
    init_ok (match_rel tb (cursors s)) (length (cursors s)) W' (L'[c := x']) (insert i I)"
  using assms
proof (induction j arbitrary: s W x rule: less_induct)
  case (less j)
  let ?c = "j div 2" and ?n = "length (cursors s)" and ?R = "match_rel tb (cursors s)"
  have len: "length (loser_tree s) = ?n" "0 < ?n" and j1: "1 \<le> j"
    using less.prems(1) by (auto simp: insert_ok_def)
  show ?case
  proof (cases "2 \<le> j")
    case False
    then have "j = 1" using j1 by simp
    then have "init_ok ?R ?n W ((loser_tree s)[0 := x]) (insert i I)"
      using insert_top less.prems(1) by blast
    moreover have "init_climb CV s x ?c = Some (s\<lparr>loser_tree := loser_tree s\<rparr>, x, 0)"
      using \<open>j = 1\<close> by (simp add: init_climb.simps [of CV s x])
    ultimately show ?thesis using len by blast
  next
    case True
    note sl = insert_slot [OF less.prems(1) True]
    have get: "vec_get (loser_tree s) ?c = Some (loser_tree s ! ?c)" "?c \<noteq> 0" using sl len by auto
    show ?thesis
    proof (cases "done_node ?n I (sib j)")
      case False
      then have "init_climb CV s x ?c = Some (s\<lparr>loser_tree := loser_tree s\<rparr>, x, ?c)"
        using get sl(4) by (simp add: init_climb.simps [of CV s x])
      then show ?thesis using insert_stop [OF less.prems(1) True False] sl(2) len by blast
    next
      case d: True
      let ?y = "loser_tree s ! ?c"
      have y: "?y < ?n" using sl(4,5) d by simp
      then have ny: "?y \<noteq> USIZE_MAX" using less.prems(3) by simp
      obtain g where g: "is_gt CV s x ?y = Some g"
        "if g then match_rel tb (cursors s) ?c ?y x else match_rel tb (cursors s) ?c x ?y"
        using is_gt_match [OF less.prems(2), of x ?y tb ?c] sl(3) y by blast
      define x2 z2 where "x2 = (if g then ?y else x)" and "z2 = (if g then x else ?y)"
      define s2 where "s2 = s\<lparr>loser_tree := (loser_tree s)[?c := z2]\<rparr>"
      have cs2: "cursors s2 = cursors s" by (simp add: s2_def)
      have "insert_ok (match_rel tb (cursors s2)) (length (cursors s2)) (W(?c := x2)) (loser_tree s2) I i x2 ?c"
        using insert_step [OF less.prems(1) True d, of x2 z2] g(2)
        by (cases g) (simp_all add: x2_def z2_def s2_def)
      moreover have "?c < j" using True by simp
      ultimately obtain L' W' x' c where
        r: "init_climb CV s2 x2 (?c div 2) = Some (s2\<lparr>loser_tree := L'\<rparr>, x', c)" "c < ?n" "length L' = ?n"
          "init_ok ?R ?n W' (L'[c := x']) (insert i I)"
        using less.IH [of ?c s2 "W(?c := x2)" x2] less.prems(2,3) unfolding cs2 by blast
      have "init_climb CV s x ?c = init_climb CV s2 x2 (?c div 2)"
        using g(1) get ny sl(2) len
        by (cases g) (simp_all add: init_climb.simps [of CV s x] lt_parent_node_index_def
            x2_def z2_def s2_def)
      then show ?thesis using r by (auto simp: s2_def)
    qed
  qed
qed

lemma init_streams_ok:
  assumes "init_ok (match_rel tb (cursors s)) (length (cursors s)) W (loser_tree s) I"
    and "live_ok (cursors s)" "length (cursors s) \<le> USIZE_MAX"
    and "distinct is" "set is \<inter> I = {}" "set is \<subseteq> {..<length (cursors s)}"
  shows "\<exists>L' W'. init_streams CV s is = Some (s\<lparr>loser_tree := L'\<rparr>) \<and>
    init_ok (match_rel tb (cursors s)) (length (cursors s)) W' L' (set is \<union> I)"
  using assms
proof (induction "is" arbitrary: s W I)
  case Nil
  have "s = s\<lparr>loser_tree := loser_tree s\<rparr>" by simp
  with Nil show ?case by (metis Un_empty_left init_streams.simps(1) list.set(1))
next
  case (Cons i "is")
  let ?n = "length (cursors s)" and ?R = "match_rel tb (cursors s)"
  have i: "i < ?n" "i \<notin> I" using Cons.prems by auto
  obtain L1 W1 x1 c where r: "init_climb CV s i ((?n + i) div 2) = Some (s\<lparr>loser_tree := L1\<rparr>, x1, c)"
    "c < ?n" "length L1 = ?n" "init_ok ?R ?n W1 (L1[c := x1]) (insert i I)"
    using init_climb_ok [OF insert_start [OF Cons.prems(1) i] Cons.prems(2,3)] by blast
  define s1 where "s1 = s\<lparr>loser_tree := L1[c := x1]\<rparr>"
  have s1: "init_stream CV s i = Some s1" "cursors s1 = cursors s" "loser_tree s1 = L1[c := x1]"
    using r by (simp_all add: init_stream_def lt_leaf_node_index_def s1_def)
  obtain L' W' where "init_streams CV s1 is = Some (s1\<lparr>loser_tree := L'\<rparr>)"
    "init_ok ?R ?n W' L' (set is \<union> insert i I)"
    using Cons.IH [of s1 W1 "insert i I"] Cons.prems r(4) s1 by auto
  then show ?case using s1(1) by (auto simp: s1_def)
qed

lemma init_loser_tree_ok:
  assumes "live_ok (cursors s)" "0 < length (cursors s)" "length (cursors s) \<le> USIZE_MAX"
  shows "\<exists>s'. init_loser_tree CV s = Some s' \<and> loser_tree_ok s' \<and> same_frame s s'"
proof -
  let ?n = "length (cursors s)" and ?tb = "round_robin_tie_breaker_enabled s"
  let ?s = "s\<lparr>loser_tree := replicate ?n USIZE_MAX\<rparr>"
  obtain L' W' where r: "init_streams CV ?s [0..<?n] = Some (?s\<lparr>loser_tree := L'\<rparr>)"
    "init_ok (match_rel ?tb (cursors s)) ?n W' L' (set [0..<?n] \<union> {})"
    using init_streams_ok [of ?tb ?s "\<lambda>k. k - ?n" "{}" "[0..<?n]"] init_empty [OF assms(2)] assms
    by (auto simp: lessThan_atLeast0)
  have "set [0..<?n] \<union> {} = {..<?n}" by auto
  then have "tree_ok (match_rel ?tb (cursors s)) ?n W' L'" using init_complete r(2) by metis
  then show ?thesis
    using r(1) by (auto simp: init_loser_tree_def loser_tree_ok_def round_robin_tie_breaker_enabled_def)
qed

section \<open>Advancing the winner\<close>

lemma advance_cursors_live:
  assumes "i < length (cursors s)" "cursors s ! i = Some c" "cursor_ok c" "tl (cursor_rest c) \<noteq> []"
  shows "\<exists>c'. advance_cursors CV s i = Some (False, s\<lparr>cursors := (cursors s)[i := Some c']\<rparr>) \<and>
    cursor_ok c' \<and> cursor_rest c' = tl (cursor_rest c)"
proof -
  obtain c' where "advance CV c = Some (cur_offset c, c')" "cursor_ok c'" "\<not> is_finished CV c'"
    "cursor_rest c' = tl (cursor_rest c)"
    using advance_live [OF assms(3,4)] by blast
  then show ?thesis using assms(1,2) by (intro exI [of _ c']) (simp add: advance_cursors_def)
qed

lemma advance_cursors_finished:
  assumes "i < length (cursors s)" "cursors s ! i = Some c" "cursor_ok c" "tl (cursor_rest c) = []" "polls_ok s"
  shows "\<exists>p. advance_cursors CV s i = Some (True, s\<lparr>cursors := (cursors s)[i := None], prev_cursors := p\<rparr>) \<and>
    (p = None \<longleftrightarrow> prev_cursors s = None) \<and> (\<forall>ps. p = Some ps \<longrightarrow> length ps = length (cursors s))"
proof -
  obtain c' x where c': "advance CV c = Some (cur_offset c, c')" "is_finished CV c'" "last_value CV c' = Some x"
    using advance_finished [OF assms(3,4)] by blast
  show ?thesis
  proof (cases "prev_cursors s")
    case None
    then have "s\<lparr>cursors := (cursors s)[i := None]\<rparr> =
        s\<lparr>cursors := (cursors s)[i := None], prev_cursors := None\<rparr>" by simp
    then show ?thesis using assms(1,2) c' None by (auto simp: advance_cursors_def)
  next
    case (Some ps)
    then have "length ps = length (cursors s)" using assms(5) by (simp add: polls_ok_def)
    then show ?thesis
      using assms(1,2) c' Some by (intro exI [of _ "Some (ps[i := Some x])"]) (simp add: advance_cursors_def)
  qed
qed

end

section \<open>Properties\<close>

text \<open>The streams of a list of sorted columns, each with a cursor at its first row.\<close>

definition column_cursors ::
  "'n native_ops \<Rightarrow> sort_options \<Rightarrow> 'n \<Rightarrow> 'n option list list \<Rightarrow> 'n primitive_values array_values cursor option list" where
  "column_cursors N opts d cols =
     map (\<lambda>xs. if xs = [] then None else map_option cursor_new (column_values N opts d xs)) cols"

definition tree_start ::
  "bool \<Rightarrow> 'v cursor option list \<Rightarrow> ('v, 's) tree_state" where
  "tree_start tb cs =
     \<lparr>loser_tree = [], cursors = cs, round_robin_tie_breaker_mode = False,
      num_of_polled_with_same_value = replicate (length cs) 0,
      poll_reset_epochs = replicate (length cs) 0, current_reset_epoch = 0,
      prev_cursors = (if tb then Some (replicate (length cs) None) else None)\<rparr>"

end
