(* ===== verification/Batch_Builder.thy ===== *)
theory Batch_Builder
  imports Memory_Reservation
begin

text \<open>
  \<open>BatchBuilder\<close> of \<open>physical-plan/src/sorts/builder.rs\<close>: the buffered input batches of a merge, a
  cursor per stream, the indices of the rows already chosen, and the memory reservation that
  covers the batches.  Operations of the arrow crate (interleaving of arrays, construction of a
  batch, memory size of a batch) are parameters.  A panic is the error \<open>Merge_Panic\<close>.
\<close>

section \<open>Data\<close>

record 'a record_batch =
  rb_columns :: "'a list list"
  rb_num_rows :: nat

text \<open>What the code uses of arrow.\<close>

record ('a, 'e) arrow_ops =
  ar_memory_size :: "'a record_batch \<Rightarrow> usize"
  ar_interleave :: "'a list list \<Rightarrow> (nat \<times> nat) list \<Rightarrow> 'e + 'a list"
  ar_try_new :: "nat \<Rightarrow> 'a list list \<Rightarrow> 'e + 'a record_batch"
  ar_is_offset_overflow :: "'e \<Rightarrow> bool"

datatype 'e merge_error = Pool_Error df_error | Arrow_Error 'e | Merge_Internal string | Merge_Panic

record batch_cursor =
  bc_batch_idx :: nat
  bc_row_idx :: nat

definition RELEASED :: batch_cursor where
  "RELEASED = \<lparr>bc_batch_idx = USIZE_MAX, bc_row_idx = 0\<rparr>"

record ('a, 'p) batch_builder =
  bb_fields :: nat
  bb_batches :: "(nat \<times> 'a record_batch) list"
  bb_store :: "'p store"
  bb_reservation :: nat
  bb_batches_mem_used :: usize
  bb_initial_reservation :: usize
  bb_cursors :: "batch_cursor list"
  bb_indices :: "(nat \<times> nat) list"

section \<open>Operations\<close>

definition builder_new ::
  "nat \<Rightarrow> nat \<Rightarrow> 'p store \<Rightarrow> nat \<Rightarrow> 'e merge_error + ('a, 'p) batch_builder" where
  "builder_new nfields stream_count s reservation =
     (case reservation_size s reservation of
        Inl e \<Rightarrow> Inl (Pool_Error e)
      | Inr initial_reservation \<Rightarrow>
          Inr \<lparr>bb_fields = nfields, bb_batches = [], bb_store = s, bb_reservation = reservation,
               bb_batches_mem_used = 0, bb_initial_reservation = initial_reservation,
               bb_cursors = replicate stream_count RELEASED, bb_indices = []\<rparr>)"

definition try_grow_reservation_to_at_least ::
  "'p memory_pool_impl \<Rightarrow> 'p store \<Rightarrow> nat \<Rightarrow> usize \<Rightarrow> df_error + 'p store" where
  "try_grow_reservation_to_at_least I s i needed =
     (case reservation_size s i of
        Inl e \<Rightarrow> Inl e
      | Inr sz \<Rightarrow> if sz < needed then try_grow I s i (needed - sz) else Inr s)"

definition push_batch ::
  "('a, 'e) arrow_ops \<Rightarrow> 'p memory_pool_impl \<Rightarrow> ('a, 'p) batch_builder \<Rightarrow> nat \<Rightarrow> 'a record_batch \<Rightarrow>
   'e merge_error + ('a, 'p) batch_builder" where
  "push_batch A I b stream_idx batch =
     (let size' = ar_memory_size A batch;
          used = bb_batches_mem_used b + size'
      in case try_grow_reservation_to_at_least I (bb_store b) (bb_reservation b) used of
           Inl e \<Rightarrow> Inl (Pool_Error e)
         | Inr s \<Rightarrow>
             (let batch_idx = length (bb_batches b)
              in case vec_set (bb_cursors b) stream_idx \<lparr>bc_batch_idx = batch_idx, bc_row_idx = 0\<rparr> of
                   None \<Rightarrow> Inl Merge_Panic
                 | Some cs \<Rightarrow>
                     Inr (b\<lparr>bb_batches_mem_used := used, bb_store := s,
                            bb_batches := bb_batches b @ [(stream_idx, batch)],
                            bb_cursors := cs\<rparr>)))"

definition push_row :: "('a, 'p) batch_builder \<Rightarrow> nat \<Rightarrow> ('a, 'p) batch_builder option" where
  "push_row b stream_idx = do {
     cursor \<leftarrow> vec_get (bb_cursors b) stream_idx;
     cs \<leftarrow> vec_set (bb_cursors b) stream_idx (cursor\<lparr>bc_row_idx := bc_row_idx cursor + 1\<rparr>);
     Some (b\<lparr>bb_cursors := cs, bb_indices := bb_indices b @ [(bc_batch_idx cursor, bc_row_idx cursor)]\<rparr>) }"

definition builder_len :: "('a, 'p) batch_builder \<Rightarrow> nat" where
  "builder_len b = length (bb_indices b)"

definition builder_is_empty :: "('a, 'p) batch_builder \<Rightarrow> bool" where
  "builder_is_empty b \<longleftrightarrow> bb_indices b = []"

text \<open>The arrays of one column; \<open>batch.column(i)\<close> panics out of range.\<close>

fun column_arrays :: "(nat \<times> 'a record_batch) list \<Rightarrow> nat \<Rightarrow> 'a list list option" where
  "column_arrays [] c = Some []"
| "column_arrays ((_, batch) # bs) c = do {
     arr \<leftarrow> vec_get (rb_columns batch) c;
     arrs \<leftarrow> column_arrays bs c;
     Some (arr # arrs) }"

fun interleave_columns ::
  "('a, 'e) arrow_ops \<Rightarrow> (nat \<times> 'a record_batch) list \<Rightarrow> (nat \<times> nat) list \<Rightarrow> nat list \<Rightarrow>
   'e merge_error + 'a list list" where
  "interleave_columns A bs indices [] = Inr []"
| "interleave_columns A bs indices (c # cs) =
     (case column_arrays bs c of
        None \<Rightarrow> Inl Merge_Panic
      | Some arrays \<Rightarrow>
          (case ar_interleave A arrays indices of
             Inl e \<Rightarrow> Inl (Arrow_Error e)
           | Inr col \<Rightarrow>
               (case interleave_columns A bs indices cs of
                  Inl e \<Rightarrow> Inl e
                | Inr cols \<Rightarrow> Inr (col # cols))))"

definition try_interleave_columns ::
  "('a, 'e) arrow_ops \<Rightarrow> ('a, 'p) batch_builder \<Rightarrow> (nat \<times> nat) list \<Rightarrow> 'e merge_error + 'a list list" where
  "try_interleave_columns A b indices =
     interleave_columns A (bb_batches b) indices [0..<bb_fields b]"

text \<open>
  \<open>Vec::retain\<close> visits the batches in order; \<open>batch_idx\<close> counts them, \<open>retained\<close> the kept ones.
\<close>

fun retain_cursor_batches_from ::
  "('a, 'e) arrow_ops \<Rightarrow> (nat \<times> 'a record_batch) list \<Rightarrow> nat \<Rightarrow> nat \<Rightarrow> batch_cursor list \<Rightarrow> usize \<Rightarrow>
   ((nat \<times> 'a record_batch) list \<times> batch_cursor list \<times> usize) option" where
  "retain_cursor_batches_from A [] batch_idx retained cs used = Some ([], cs, used)"
| "retain_cursor_batches_from A ((stream_idx, batch) # bs) batch_idx retained cs used = do {
     stream_cursor \<leftarrow> vec_get cs stream_idx;
     let is_cursor_batch = (bc_batch_idx stream_cursor = batch_idx);
     if is_cursor_batch \<and> bc_row_idx stream_cursor < rb_num_rows batch then do {
       (kept, cs', used') \<leftarrow> retain_cursor_batches_from A bs (batch_idx + 1) (retained + 1)
         (cs[stream_idx := stream_cursor\<lparr>bc_batch_idx := retained\<rparr>]) used;
       Some ((stream_idx, batch) # kept, cs', used') }
     else retain_cursor_batches_from A bs (batch_idx + 1) retained
         (if is_cursor_batch then cs[stream_idx := RELEASED] else cs) (used - ar_memory_size A batch) }"

definition retain_cursor_batches ::
  "('a, 'e) arrow_ops \<Rightarrow> ('a, 'p) batch_builder \<Rightarrow> ('a, 'p) batch_builder option" where
  "retain_cursor_batches A b = do {
     (bs, cs, used) \<leftarrow> retain_cursor_batches_from A (bb_batches b) 0 0 (bb_cursors b) (bb_batches_mem_used b);
     Some (b\<lparr>bb_batches := bs, bb_cursors := cs, bb_batches_mem_used := used\<rparr>) }"

fun mark_indices :: "(nat \<times> nat) list \<Rightarrow> bool list \<Rightarrow> bool list option" where
  "mark_indices [] marks = Some marks"
| "mark_indices ((batch_idx, _) # is) marks = do { m \<leftarrow> vec_set marks batch_idx True; mark_indices is m }"

fun mark_cursors :: "(nat \<times> 'a record_batch) list \<Rightarrow> batch_cursor list \<Rightarrow> bool list \<Rightarrow> bool list option" where
  "mark_cursors bs [] marks = Some marks"
| "mark_cursors bs (c # cs) marks =
     (case vec_get bs (bc_batch_idx c) of
        Some (_, batch) \<Rightarrow>
          (if bc_row_idx c < rb_num_rows batch
           then do { m \<leftarrow> vec_set marks (bc_batch_idx c) True; mark_cursors bs cs m }
           else mark_cursors bs cs marks)
      | None \<Rightarrow> mark_cursors bs cs marks)"

text \<open>The second \<open>retain\<close>, with the table from old to new positions.\<close>

fun retain_marked ::
  "('a, 'e) arrow_ops \<Rightarrow> (nat \<times> 'a record_batch) list \<Rightarrow> bool list \<Rightarrow> nat \<Rightarrow> usize \<Rightarrow>
   (nat \<times> 'a record_batch) list \<times> nat list \<times> usize" where
  "retain_marked A (sb # bs) (m # ms) retained used =
     (if m then
        (case retain_marked A bs ms (retained + 1) used of (kept, remap, used') \<Rightarrow>
           (sb # kept, retained # remap, used'))
      else
        (case retain_marked A bs ms retained (used - ar_memory_size A (snd sb)) of (kept, remap, used') \<Rightarrow>
           (kept, USIZE_MAX # remap, used')))"
| "retain_marked A _ _ retained used = ([], [], used)"

fun remap_indices :: "nat list \<Rightarrow> (nat \<times> nat) list \<Rightarrow> (nat \<times> nat) list option" where
  "remap_indices remap [] = Some []"
| "remap_indices remap ((batch_idx, row_idx) # is) = do {
     k \<leftarrow> vec_get remap batch_idx;
     is' \<leftarrow> remap_indices remap is;
     Some ((k, row_idx) # is') }"

definition remap_cursor :: "nat list \<Rightarrow> batch_cursor \<Rightarrow> batch_cursor" where
  "remap_cursor remap c =
     (case vec_get remap (bc_batch_idx c) of
        Some new_idx \<Rightarrow> c\<lparr>bc_batch_idx := new_idx\<rparr>
      | None \<Rightarrow> c)"

definition retain_live_batches ::
  "('a, 'e) arrow_ops \<Rightarrow> ('a, 'p) batch_builder \<Rightarrow> ('a, 'p) batch_builder option" where
  "retain_live_batches A b = do {
     marks \<leftarrow> mark_indices (bb_indices b) (replicate (length (bb_batches b)) False);
     marks \<leftarrow> mark_cursors (bb_batches b) (bb_cursors b) marks;
     let (kept, remap, used) = retain_marked A (bb_batches b) marks 0 (bb_batches_mem_used b);
     is \<leftarrow> remap_indices remap (bb_indices b);
     Some (b\<lparr>bb_batches := kept, bb_batches_mem_used := used, bb_indices := is,
             bb_cursors := map (remap_cursor remap) (bb_cursors b)\<rparr>) }"

definition finish_record_batch ::
  "('a, 'e) arrow_ops \<Rightarrow> 'p memory_pool_impl \<Rightarrow> ('a, 'p) batch_builder \<Rightarrow> nat \<Rightarrow> 'a list list \<Rightarrow>
   'e merge_error + ('a record_batch \<times> ('a, 'p) batch_builder)" where
  "finish_record_batch A I b rows_to_emit columns =
     (if length (bb_indices b) < rows_to_emit then Inl Merge_Panic
      else
        (let b1 = b\<lparr>bb_indices := drop rows_to_emit (bb_indices b)\<rparr>
         in case (if bb_indices b1 = [] then retain_cursor_batches A b1 else retain_live_batches A b1) of
              None \<Rightarrow> Inl Merge_Panic
            | Some b2 \<Rightarrow>
                (let target = max (bb_batches_mem_used b2) (bb_initial_reservation b2)
                 in case reservation_size (bb_store b2) (bb_reservation b2) of
                      Inl e \<Rightarrow> Inl (Pool_Error e)
                    | Inr sz \<Rightarrow>
                        (case (if target < sz then shrink I (bb_store b2) (bb_reservation b2) (sz - target)
                               else Inr (bb_store b2)) of
                           Inl e \<Rightarrow> Inl (Pool_Error e)
                         | Inr s \<Rightarrow>
                             (case ar_try_new A (bb_fields b2) columns of
                                Inl e \<Rightarrow> Inl (Arrow_Error e)
                              | Inr batch \<Rightarrow> Inr (batch, b2\<lparr>bb_store := s\<rparr>))))))"

definition is_offset_overflow :: "('a, 'e) arrow_ops \<Rightarrow> 'e merge_error \<Rightarrow> bool" where
  "is_offset_overflow A e = (case e of Arrow_Error a \<Rightarrow> ar_is_offset_overflow A a | _ \<Rightarrow> False)"

text \<open>Halving the number of rows until the interleaving fits; it always ends.\<close>

function retry_interleave ::
  "('a, 'e) arrow_ops \<Rightarrow> nat \<Rightarrow> (nat \<Rightarrow> 'e merge_error + 't) \<Rightarrow> 'e merge_error + (nat \<times> 't)" where
  "retry_interleave A rows_to_emit interleave =
     (case interleave rows_to_emit of
        Inr v \<Rightarrow> Inr (rows_to_emit, v)
      | Inl e \<Rightarrow>
          if is_offset_overflow A e then
            (if rows_to_emit div 2 = 0 then Inl e
             else retry_interleave A (rows_to_emit div 2) interleave)
          else Inl e)"
  by pat_completeness auto
termination
  by (relation "measure (\<lambda>(A, n, f). n)") auto

declare retry_interleave.simps [simp del]

definition build_record_batch ::
  "('a, 'e) arrow_ops \<Rightarrow> 'p memory_pool_impl \<Rightarrow> ('a, 'p) batch_builder \<Rightarrow>
   'e merge_error + ('a record_batch option \<times> ('a, 'p) batch_builder)" where
  "build_record_batch A I b =
     (if builder_is_empty b then Inr (None, b)
      else
        (case retry_interleave A (length (bb_indices b))
                (\<lambda>rows_to_emit. try_interleave_columns A b (take rows_to_emit (bb_indices b))) of
           Inl e \<Rightarrow> Inl e
         | Inr (rows_to_emit, columns) \<Rightarrow>
             (case finish_record_batch A I b rows_to_emit columns of
                Inl e \<Rightarrow> Inl e
              | Inr (batch, b') \<Rightarrow> Inr (Some batch, b'))))"

section \<open>Rows\<close>

definition row_of :: "'a record_batch \<Rightarrow> nat \<Rightarrow> 'a list" where
  "row_of b i = map (\<lambda>c. c ! i) (rb_columns b)"

definition rows_of :: "'a record_batch \<Rightarrow> 'a list list" where
  "rows_of b = map (row_of b) [0..<rb_num_rows b]"

definition batch_wf :: "nat \<Rightarrow> 'a record_batch \<Rightarrow> bool" where
  "batch_wf nf b \<longleftrightarrow> length (rb_columns b) = nf \<and> (\<forall>c \<in> set (rb_columns b). length c = rb_num_rows b)"

text \<open>The rows that a stream's cursor has not yielded, and the rows already chosen.\<close>

definition cursor_rows :: "(nat \<times> 'a record_batch) list \<Rightarrow> batch_cursor \<Rightarrow> 'a list list" where
  "cursor_rows bs c =
     (if bc_batch_idx c < length bs
      then map (row_of (snd (bs ! bc_batch_idx c))) [bc_row_idx c..<rb_num_rows (snd (bs ! bc_batch_idx c))]
      else [])"

definition deref :: "(nat \<times> 'a record_batch) list \<Rightarrow> nat \<times> nat \<Rightarrow> 'a list" where
  "deref bs = (\<lambda>(b, r). row_of (snd (bs ! b)) r)"

definition builder_rest :: "('a, 'p) batch_builder \<Rightarrow> nat \<Rightarrow> 'a list list" where
  "builder_rest b i = cursor_rows (bb_batches b) (bb_cursors b ! i)"

definition builder_pending :: "('a, 'p) batch_builder \<Rightarrow> 'a list list" where
  "builder_pending b = map (deref (bb_batches b)) (bb_indices b)"

definition batches_bytes :: "('a, 'e) arrow_ops \<Rightarrow> (nat \<times> 'a record_batch) list \<Rightarrow> usize" where
  "batches_bytes A bs = (\<Sum>(_, b) \<leftarrow> bs. ar_memory_size A b)"

lemma batches_bytes_simps [simp]:
  "batches_bytes A [] = 0"
  "batches_bytes A (sb # bs) = ar_memory_size A (snd sb) + batches_bytes A bs"
  "batches_bytes A (bs @ cs) = batches_bytes A bs + batches_bytes A cs"
  by (auto simp: batches_bytes_def case_prod_beta)

text \<open>Every cursor is released or points to a batch of its own stream.\<close>

definition cursors_own :: "(nat \<times> 'a record_batch) list \<Rightarrow> batch_cursor list \<Rightarrow> bool" where
  "cursors_own bs cs \<longleftrightarrow>
     (\<forall>i < length cs. bc_batch_idx (cs ! i) = USIZE_MAX \<or>
        bc_batch_idx (cs ! i) < length bs \<and> fst (bs ! bc_batch_idx (cs ! i)) = i)"

text \<open>
  The byte count does not wrap, and the reservation covers both the buffered batches and the
  bytes it had when the builder was made.
\<close>

definition batches_nat_bytes :: "('a, 'e) arrow_ops \<Rightarrow> (nat \<times> 'a record_batch) list \<Rightarrow> nat" where
  "batches_nat_bytes A bs = (\<Sum>x \<leftarrow> bs. unat (ar_memory_size A (snd x)))"

definition bytes_fit :: "('a, 'e) arrow_ops \<Rightarrow> (nat \<times> 'a record_batch) list \<Rightarrow> bool" where
  "bytes_fit A bs \<longleftrightarrow> batches_nat_bytes A bs < 2 ^ 64"

definition reservation_covers :: "('a, 'p) batch_builder \<Rightarrow> bool" where
  "reservation_covers b \<longleftrightarrow>
     (case lookup_reservation (bb_store b) (bb_reservation b) of
        None \<Rightarrow> False
      | Some v \<Rightarrow> bb_batches_mem_used b \<le> rsv_size v \<and> bb_initial_reservation b \<le> rsv_size v)"

definition builder_ok :: "('a, 'e) arrow_ops \<Rightarrow> ('a, 'p) batch_builder \<Rightarrow> bool" where
  "builder_ok A b \<longleftrightarrow>
     0 < bb_fields b \<and>
     (\<forall>(s, batch) \<in> set (bb_batches b). s < length (bb_cursors b) \<and> batch_wf (bb_fields b) batch) \<and>
     (\<forall>(k, r) \<in> set (bb_indices b). k < length (bb_batches b) \<and> r < rb_num_rows (snd (bb_batches b ! k))) \<and>
     cursors_own (bb_batches b) (bb_cursors b) \<and>
     bb_batches_mem_used b = batches_bytes A (bb_batches b) \<and>
     bytes_fit A (bb_batches b) \<and> length (bb_batches b) \<le> USIZE_MAX \<and> reservation_covers b"

section \<open>Releasing batches\<close>

definition rows_at ::
  "(nat \<times> 'a record_batch) list \<Rightarrow> (nat \<times> 'a record_batch) list \<Rightarrow> nat \<Rightarrow> batch_cursor \<Rightarrow> 'a list list" where
  "rows_at K bs k c =
     (if bc_batch_idx c < length K then cursor_rows K c
      else cursor_rows bs (c\<lparr>bc_batch_idx := bc_batch_idx c - k\<rparr>))"

lemma rows_at_keep:
  assumes "bc_batch_idx c < length K \<or> Suc k \<le> bc_batch_idx c" "length K \<le> k"
  shows "rows_at (K @ [sb]) bs (Suc k) c = rows_at K (sb # bs) k c"
  using assms by (auto simp: rows_at_def cursor_rows_def nth_append nth_Cons' less_Suc_eq_le)

lemma rows_at_drop:
  assumes "bc_batch_idx c < length K \<or> Suc k \<le> bc_batch_idx c" "length K \<le> k"
  shows "rows_at K bs (Suc k) c = rows_at K (sb # bs) k c"
  using assms by (auto simp: rows_at_def cursor_rows_def nth_Cons')

text \<open>
  The first \<open>retain\<close>: \<open>K\<close> are the batches kept so far, out of the \<open>k\<close> visited ones.
\<close>

definition cursor_pre ::
  "(nat \<times> 'a record_batch) list \<Rightarrow> (nat \<times> 'a record_batch) list \<Rightarrow> nat \<Rightarrow> nat \<Rightarrow> batch_cursor \<Rightarrow> bool" where
  "cursor_pre K bs k i c \<longleftrightarrow>
     (bc_batch_idx c < length K \<and> fst (K ! bc_batch_idx c) = i) \<or>
     (k \<le> bc_batch_idx c \<and> bc_batch_idx c < k + length bs \<and> fst (bs ! (bc_batch_idx c - k)) = i) \<or>
     bc_batch_idx c = USIZE_MAX"

definition retain_pre ::
  "(nat \<times> 'a record_batch) list \<Rightarrow> (nat \<times> 'a record_batch) list \<Rightarrow> nat \<Rightarrow> batch_cursor list \<Rightarrow> bool" where
  "retain_pre K bs k cs \<longleftrightarrow>
     length K \<le> k \<and> k + length bs \<le> USIZE_MAX \<and> (\<forall>(s, _) \<in> set bs. s < length cs) \<and>
     (\<forall>i < length cs. cursor_pre K bs k i (cs ! i))"

lemma cursor_pre_other:
  assumes "cursor_pre K ((s, b) # bs) k i c" "i \<noteq> s \<or> bc_batch_idx c \<noteq> k" "length K \<le> k" "Suc k \<le> USIZE_MAX"
  shows "bc_batch_idx c < length K \<or> Suc k \<le> bc_batch_idx c"
    and "cursor_pre (K @ [(s, b)]) bs (Suc k) i c" and "cursor_pre K bs (Suc k) i c"
proof -
  consider "bc_batch_idx c < length K" "fst (K ! bc_batch_idx c) = i"
    | "Suc k \<le> bc_batch_idx c" "bc_batch_idx c < k + length ((s, b) # bs)" "fst (((s, b) # bs) ! (bc_batch_idx c - k)) = i"
    | "bc_batch_idx c = USIZE_MAX"
    using assms by (cases "bc_batch_idx c = k") (auto simp: cursor_pre_def)
  then show "bc_batch_idx c < length K \<or> Suc k \<le> bc_batch_idx c"
    "cursor_pre (K @ [(s, b)]) bs (Suc k) i c" "cursor_pre K bs (Suc k) i c"
    using assms(4) by (cases; simp add: cursor_pre_def nth_append nth_Cons')+
qed

lemma retain_cursor_from:
  assumes "retain_pre K bs k cs"
  shows "\<exists>kept cs' used'. retain_cursor_batches_from A bs k (length K) cs used = Some (kept, cs', used') \<and>
    length cs' = length cs \<and> used' + batches_bytes A bs = used + batches_bytes A kept \<and>
    mset kept \<subseteq># mset bs \<and> cursors_own (K @ kept) cs' \<and>
    (\<forall>i < length cs. cursor_rows (K @ kept) (cs' ! i) = rows_at K bs k (cs ! i))"
  using assms
proof (induction bs arbitrary: K k cs used)
  case Nil
  have "cursors_own K cs" using Nil by (auto simp: retain_pre_def cursor_pre_def cursors_own_def)
  moreover have "cursor_rows K (cs ! i) = rows_at K [] k (cs ! i)" for i
    by (simp add: rows_at_def cursor_rows_def)
  ultimately show ?case by simp
next
  case (Cons sb bs)
  obtain s b where sb: "sb = (s, b)" by (cases sb)
  let ?c = "cs ! s"
  have s: "s < length cs" and k: "length K \<le> k" "Suc k \<le> USIZE_MAX" "Suc k + length bs \<le> USIZE_MAX"
    and cur: "\<And>i. i < length cs \<Longrightarrow> cursor_pre K ((s, b) # bs) k i (cs ! i)"
    and streams: "\<forall>(s, _) \<in> set bs. s < length cs"
    using Cons.prems sb by (auto simp: retain_pre_def)
  show ?case
  proof (cases "bc_batch_idx ?c = k \<and> bc_row_idx ?c < rb_num_rows b")
    case True
    let ?cs = "cs[s := ?c\<lparr>bc_batch_idx := length K\<rparr>]"
    have "cursor_pre (K @ [sb]) bs (Suc k) i (?cs ! i)" if "i < length cs" for i
      using cursor_pre_other(2) [OF cur [OF that] _ k(1,2)] s sb that
      by (cases "i = s") (auto simp: cursor_pre_def)
    then have pre: "retain_pre (K @ [sb]) bs (Suc k) ?cs" using k streams by (simp add: retain_pre_def)
    obtain kept cs' used' where r: "retain_cursor_batches_from A bs (Suc k) (length (K @ [sb])) ?cs used =
        Some (kept, cs', used')" "length cs' = length ?cs"
      "used' + batches_bytes A bs = used + batches_bytes A kept"
      "mset kept \<subseteq># mset bs" "cursors_own ((K @ [sb]) @ kept) cs'"
      "\<forall>i < length ?cs. cursor_rows ((K @ [sb]) @ kept) (cs' ! i) = rows_at (K @ [sb]) bs (Suc k) (?cs ! i)"
      using Cons.IH [OF pre] by blast
    have "rows_at (K @ [sb]) bs (Suc k) (?cs ! i) = rows_at K (sb # bs) k (cs ! i)" if "i < length cs" for i
    proof (cases "i = s")
      case True
      then show ?thesis using \<open>bc_batch_idx ?c = k \<and> _\<close> s k by (simp add: rows_at_def cursor_rows_def)
    next
      case False
      then show ?thesis using rows_at_keep [OF cursor_pre_other(1) [OF cur [OF that] _ k(1,2)] k(1)] by simp
    qed
    then show ?thesis using r True s sb by (auto simp: algebra_simps)
  next
    case False
    define cs2 where "cs2 = (if bc_batch_idx ?c = k then cs[s := RELEASED] else cs)"
    have len: "length cs2 = length cs" by (simp add: cs2_def)
    have off: "i \<noteq> s \<or> bc_batch_idx (cs2 ! i) \<noteq> k" for i
      using s k by (auto simp: cs2_def RELEASED_def)
    have pre_i: "cursor_pre K ((s, b) # bs) k i (cs2 ! i)" if "i < length cs" for i
      using cur [OF that] k s by (cases "i = s") (auto simp: cs2_def cursor_pre_def RELEASED_def)
    have pre: "retain_pre K bs (Suc k) cs2"
      using cursor_pre_other(3) [OF pre_i off k(1,2)] k streams len by (simp add: retain_pre_def)
    obtain kept cs' used' where r: "retain_cursor_batches_from A bs (Suc k) (length K) cs2
        (used - ar_memory_size A b) = Some (kept, cs', used')" "length cs' = length cs2"
      "used' + batches_bytes A bs = used - ar_memory_size A b + batches_bytes A kept"
      "mset kept \<subseteq># mset bs" "cursors_own (K @ kept) cs'"
      "\<forall>i < length cs2. cursor_rows (K @ kept) (cs' ! i) = rows_at K bs (Suc k) (cs2 ! i)"
      using Cons.IH [OF pre] by blast
    have "rows_at K bs (Suc k) (cs2 ! i) = rows_at K (sb # bs) k (cs ! i)" if "i < length cs" for i
    proof -
      have "rows_at K bs (Suc k) (cs2 ! i) = rows_at K (sb # bs) k (cs2 ! i)"
        by (rule rows_at_drop [OF cursor_pre_other(1) [OF pre_i [OF that] off k(1,2)] k(1)])
      also have "\<dots> = rows_at K (sb # bs) k (cs ! i)"
        using False s k sb that
        by (cases "i = s") (auto simp: cs2_def rows_at_def cursor_rows_def RELEASED_def)
      finally show ?thesis .
    qed
    moreover have "retain_cursor_batches_from A (sb # bs) k (length K) cs used = Some (kept, cs', used')"
      using False r(1) s sb by (auto simp: cs2_def)
    moreover have "used' + batches_bytes A (sb # bs) = used + batches_bytes A kept"
      using r(3) sb by (simp add: algebra_simps)
    moreover have "mset kept \<subseteq># mset (sb # bs)"
      using r(4) by (simp add: subset_mset.le_iff_add) (metis add_mset_add_single union_assoc)
    ultimately show ?thesis using r len by auto
  qed
qed

lemma batches_nat_bytes_mono:
  assumes "mset kept \<subseteq># mset bs"
  shows "batches_nat_bytes A kept \<le> batches_nat_bytes A bs"
proof -
  obtain rest where "mset bs = mset kept + rest" using assms by (metis subset_mset.le_iff_add)
  then have "batches_nat_bytes A bs = batches_nat_bytes A kept + (\<Sum>x \<in># rest. unat (ar_memory_size A (snd x)))"
    by (simp add: batches_nat_bytes_def flip: sum_mset_sum_list)
  then show ?thesis by simp
qed

lemma unat_batches_bytes: "bytes_fit A bs \<Longrightarrow> unat (batches_bytes A bs) = batches_nat_bytes A bs"
  unfolding bytes_fit_def
proof (induction bs)
  case (Cons b bs)
  then show ?case by (simp add: batches_nat_bytes_def unat_add_no_overflow)
qed (simp add: batches_nat_bytes_def)

text \<open>
  What releasing batches may change: nothing of the rows, pending or not, of any stream.
\<close>

definition releases :: "('a, 'e) arrow_ops \<Rightarrow> ('a, 'p) batch_builder \<Rightarrow> ('a, 'p) batch_builder \<Rightarrow> bool" where
  "releases A b b' \<longleftrightarrow>
     builder_ok A b' \<and> builder_pending b' = builder_pending b \<and>
     (\<forall>i < length (bb_cursors b). builder_rest b' i = builder_rest b i) \<and>
     length (bb_cursors b') = length (bb_cursors b) \<and> mset (bb_batches b') \<subseteq># mset (bb_batches b) \<and>
     bb_fields b' = bb_fields b \<and> bb_store b' = bb_store b \<and> bb_reservation b' = bb_reservation b \<and>
     bb_initial_reservation b' = bb_initial_reservation b"

lemma releasesI:
  assumes ok: "builder_ok A b"
    and b': "b' = b\<lparr>bb_batches := kept, bb_cursors := cs, bb_batches_mem_used := used, bb_indices := is\<rparr>"
    and mem: "used + batches_bytes A (bb_batches b) = bb_batches_mem_used b + batches_bytes A kept"
    and kept: "mset kept \<subseteq># mset (bb_batches b)"
    and own: "cursors_own kept cs" "length cs = length (bb_cursors b)"
    and rest: "\<forall>i < length (bb_cursors b). cursor_rows kept (cs ! i) = builder_rest b i"
    and "is": "\<forall>(k, r) \<in> set is. k < length kept \<and> r < rb_num_rows (snd (kept ! k))"
    and pending: "map (deref kept) is = builder_pending b"
  shows "releases A b b'"
proof -
  have used: "used = batches_bytes A kept" using ok mem by (simp add: builder_ok_def)
  have fit: "bytes_fit A kept"
    using ok kept batches_nat_bytes_mono [OF kept, of A] by (auto simp: builder_ok_def bytes_fit_def)
  have "unat used \<le> unat (bb_batches_mem_used b)"
    using ok used kept fit by (simp add: builder_ok_def unat_batches_bytes batches_nat_bytes_mono)
  then have "used \<le> bb_batches_mem_used b" by (simp add: word_le_nat_alt)
  moreover have "reservation_covers b" using ok by (simp add: builder_ok_def)
  ultimately have "reservation_covers b'"
    using b' order.trans by (auto simp: reservation_covers_def split: option.splits)
  moreover have "set kept \<subseteq> set (bb_batches b)" "length kept \<le> length (bb_batches b)"
    using kept mset_subset_eqD size_mset_mono [OF kept] by fastforce+
  ultimately have "builder_ok A b'"
    using ok used fit own "is" unfolding builder_ok_def b' by fastforce
  then show ?thesis
    using b' kept rest pending own by (simp add: releases_def builder_rest_def builder_pending_def)
qed

lemma retain_cursor_batches_ok:
  assumes "builder_ok A b" "bb_indices b = []"
  shows "\<exists>b'. retain_cursor_batches A b = Some b' \<and> releases A b b' \<and> bb_indices b' = []"
proof -
  have "retain_pre [] (bb_batches b) 0 (bb_cursors b)"
    using assms by (auto simp: retain_pre_def cursor_pre_def builder_ok_def cursors_own_def)
  from retain_cursor_from [OF this, of A "bb_batches_mem_used b"]
  obtain kept cs used where r:
    "retain_cursor_batches_from A (bb_batches b) 0 0 (bb_cursors b) (bb_batches_mem_used b) = Some (kept, cs, used)"
    "length cs = length (bb_cursors b)"
    "used + batches_bytes A (bb_batches b) = bb_batches_mem_used b + batches_bytes A kept"
    "mset kept \<subseteq># mset (bb_batches b)" "cursors_own kept cs"
    "\<forall>i < length (bb_cursors b). cursor_rows kept (cs ! i) = rows_at [] (bb_batches b) 0 (bb_cursors b ! i)"
    by auto
  have "b\<lparr>bb_batches := kept, bb_cursors := cs, bb_batches_mem_used := used\<rparr> =
    b\<lparr>bb_batches := kept, bb_cursors := cs, bb_batches_mem_used := used, bb_indices := []\<rparr>"
    using assms(2) by (cases b) simp
  then have "releases A b (b\<lparr>bb_batches := kept, bb_cursors := cs, bb_batches_mem_used := used\<rparr>)"
    using r assms by (intro releasesI) (auto simp: rows_at_def builder_rest_def builder_pending_def)
  then show ?thesis using r(1) assms(2) by (simp add: retain_cursor_batches_def)
qed

lemma mark_indices_ok:
  assumes "\<forall>(k, r) \<in> set is. k < length marks"
  shows "\<exists>m. mark_indices is marks = Some m \<and> length m = length marks \<and>
    (\<forall>j < length marks. m ! j \<longleftrightarrow> marks ! j \<or> j \<in> fst ` set is)"
  using assms
proof (induction "is" arbitrary: marks)
  case (Cons ib "is")
  obtain k r where ib: "ib = (k, r)" by (cases ib)
  obtain m where "mark_indices is (marks[k := True]) = Some m" "length m = length marks"
    "\<forall>j < length marks. m ! j \<longleftrightarrow> marks[k := True] ! j \<or> j \<in> fst ` set is"
    using Cons.IH [of "marks[k := True]"] Cons.prems by auto
  then show ?case using Cons.prems ib by (auto simp: nth_list_update)
qed simp

lemma mark_cursors_ok:
  assumes "length marks = length bs"
  shows "\<exists>m. mark_cursors bs cs marks = Some m \<and> length m = length bs \<and>
    (\<forall>j < length bs. m ! j \<longleftrightarrow>
       marks ! j \<or> (\<exists>c \<in> set cs. bc_batch_idx c = j \<and> bc_row_idx c < rb_num_rows (snd (bs ! j))))"
  using assms
proof (induction cs arbitrary: marks)
  case (Cons c cs)
  show ?case
  proof (cases "bc_batch_idx c < length bs \<and> bc_row_idx c < rb_num_rows (snd (bs ! bc_batch_idx c))")
    case True
    have *: "mark_cursors bs (c # cs) marks = mark_cursors bs cs (marks[bc_batch_idx c := True])"
      using True Cons.prems by (simp add: case_prod_beta)
    show ?thesis
      using Cons.IH [of "marks[bc_batch_idx c := True]"] Cons.prems True
      unfolding * by (fastforce simp: nth_list_update)
  next
    case False
    then have *: "mark_cursors bs (c # cs) marks = mark_cursors bs cs marks"
      by (auto simp: vec_get_def case_prod_beta)
    show ?thesis using Cons.IH [OF Cons.prems] False unfolding * by auto
  qed
qed simp

lemma retain_marked_ok:
  assumes "length ms = length bs" "retain_marked A bs ms r used = (kept, remap, used')"
  shows "length remap = length bs" "used' + batches_bytes A bs = used + batches_bytes A kept"
    "mset kept \<subseteq># mset bs"
    "i < length bs \<Longrightarrow> ms ! i \<Longrightarrow> r \<le> remap ! i \<and> remap ! i - r < length kept \<and> kept ! (remap ! i - r) = bs ! i"
    "i < length bs \<Longrightarrow> \<not> ms ! i \<Longrightarrow> remap ! i = USIZE_MAX"
  using assms
proof (atomize (full), induction bs arbitrary: ms r used kept remap used' i)
  case (Cons sb bs)
  obtain m ms' where ms: "ms = m # ms'" "length ms' = length bs" using Cons.prems by (cases ms) auto
  show ?case
  proof (cases m)
    case True
    obtain kept1 remap1 where r: "retain_marked A bs ms' (Suc r) used = (kept1, remap1, used')"
      "kept = sb # kept1" "remap = r # remap1"
      using Cons.prems ms True by (auto split: prod.splits)
    have IH: "length remap1 = length bs \<and> used' + batches_bytes A bs = used + batches_bytes A kept1 \<and>
      mset kept1 \<subseteq># mset bs"
      "j < length bs \<Longrightarrow> ms' ! j \<Longrightarrow> Suc r \<le> remap1 ! j \<and> remap1 ! j - Suc r < length kept1 \<and>
         kept1 ! (remap1 ! j - Suc r) = bs ! j"
      "j < length bs \<Longrightarrow> \<not> ms' ! j \<Longrightarrow> remap1 ! j = USIZE_MAX" for j
      using Cons.IH [of ms' "Suc r" used kept1 remap1 used' j] r ms by simp_all
    have "r \<le> remap1 ! j \<and> remap1 ! j - r = Suc (remap1 ! j - Suc r)" if "j < length bs" "ms' ! j" for j
      using IH(2) [OF that] by linarith
    then show ?thesis using IH r ms True by (cases i) (simp_all add: add.left_commute)
  next
    case False
    obtain remap1 where r: "retain_marked A bs ms' r (used - ar_memory_size A (snd sb)) = (kept, remap1, used')"
      "remap = USIZE_MAX # remap1"
      using Cons.prems ms False by (auto split: prod.splits)
    have "mset kept \<subseteq># mset bs \<Longrightarrow> mset kept \<subseteq># add_mset sb (mset bs)"
      by (metis add_mset_add_single mset_subset_eq_add_left subset_mset.trans)
    moreover have IH: "length remap1 = length bs"
      "used' + batches_bytes A bs = used - ar_memory_size A (snd sb) + batches_bytes A kept" "mset kept \<subseteq># mset bs"
      "j < length bs \<Longrightarrow> ms' ! j \<Longrightarrow> r \<le> remap1 ! j \<and> remap1 ! j - r < length kept \<and>
         kept ! (remap1 ! j - r) = bs ! j"
      "j < length bs \<Longrightarrow> \<not> ms' ! j \<Longrightarrow> remap1 ! j = USIZE_MAX" for j
      using Cons.IH [of ms' r _ kept remap1 used' j] r ms by simp_all
    moreover have "used' + batches_bytes A (sb # bs) = used + batches_bytes A kept"
      using IH(2) by (simp add: algebra_simps)
    ultimately show ?thesis using r(2) ms(1) False by (cases i) simp_all
  qed
qed simp

lemma remap_indices_ok:
  "\<forall>(k, r) \<in> set is. k < length remap \<Longrightarrow> remap_indices remap is = Some (map (\<lambda>(k, r). (remap ! k, r)) is)"
  by (induction "is") auto

lemma retain_live_batches_ok:
  assumes ok: "builder_ok A b"
  shows "\<exists>b'. retain_live_batches A b = Some b' \<and> releases A b b' \<and> length (bb_indices b') = length (bb_indices b)"
proof -
  let ?bs = "bb_batches b" and ?is = "bb_indices b" and ?cs = "bb_cursors b"
  have "is": "\<forall>(k, r) \<in> set ?is. k < length ?bs \<and> r < rb_num_rows (snd (?bs ! k))"
    and own: "cursors_own ?bs ?cs" and len: "length ?bs \<le> USIZE_MAX" using ok by (auto simp: builder_ok_def)
  obtain m1 where m1: "mark_indices ?is (replicate (length ?bs) False) = Some m1" "length m1 = length ?bs"
    "\<forall>j < length ?bs. m1 ! j \<longleftrightarrow> j \<in> fst ` set ?is"
    using mark_indices_ok [of ?is "replicate (length ?bs) False"] "is" by fastforce
  obtain m where m: "mark_cursors ?bs ?cs m1 = Some m" "length m = length ?bs"
    "\<forall>j < length ?bs. m ! j \<longleftrightarrow>
       m1 ! j \<or> (\<exists>c \<in> set ?cs. bc_batch_idx c = j \<and> bc_row_idx c < rb_num_rows (snd (?bs ! j)))"
    using mark_cursors_ok [OF m1(2)] by blast
  obtain kept remap used where r: "retain_marked A ?bs m 0 (bb_batches_mem_used b) = (kept, remap, used)"
    using prod_cases3 by blast
  note R = retain_marked_ok [OF m(2) r]
  let ?is' = "map (\<lambda>(k, r). (remap ! k, r)) ?is" and ?cs' = "map (remap_cursor remap) ?cs"
  have idx: "remap ! k < length kept \<and> kept ! (remap ! k) = ?bs ! k" if "(k, r) \<in> set ?is" for k r
  proof -
    have "k < length ?bs" using "is" that by auto
    moreover have "m ! k" using calculation m(3) m1(3) that by (metis fst_conv imageI)
    ultimately show ?thesis using R(4) [of k] by simp
  qed
  have kl: "length kept \<le> length ?bs" using size_mset_mono [OF R(3)] by simp
  have cur: "cursor_rows kept (remap_cursor remap c) = cursor_rows ?bs c \<and>
      (bc_batch_idx (remap_cursor remap c) = USIZE_MAX \<or>
         bc_batch_idx (remap_cursor remap c) < length kept \<and> bc_batch_idx c < length ?bs \<and> kept ! bc_batch_idx (remap_cursor remap c) = ?bs ! bc_batch_idx c)"
    if "c \<in> set ?cs" for c
  proof (cases "bc_batch_idx c < length ?bs")
    case True
    then have rc: "remap_cursor remap c = c\<lparr>bc_batch_idx := remap ! bc_batch_idx c\<rparr>"
      using R(1) by (simp add: remap_cursor_def)
    show ?thesis
    proof (cases "m ! bc_batch_idx c")
      case m: True
      then show ?thesis using R(4) [OF True m] True rc by (simp add: cursor_rows_def)
    next
      case False
      then have "\<not> bc_row_idx c < rb_num_rows (snd (?bs ! bc_batch_idx c))"
        using m(3) True that by blast
      then show ?thesis using R(5) [OF True False] rc kl len True by (simp add: cursor_rows_def)
    qed
  next
    case False
    then have "bc_batch_idx c = USIZE_MAX" using own that by (auto simp: cursors_own_def in_set_conv_nth)
    moreover have "remap_cursor remap c = c" using False R(1) by (simp add: remap_cursor_def vec_get_def)
    ultimately show ?thesis using False kl by (simp add: cursor_rows_def)
  qed
  have "releases A b (b\<lparr>bb_batches := kept, bb_batches_mem_used := used, bb_indices := ?is', bb_cursors := ?cs'\<rparr>)"
  proof (rule releasesI [OF ok _ R(2,3)])
    show "cursors_own kept ?cs'"
      using cur own len unfolding cursors_own_def by (metis leD length_map nth_map nth_mem)
    show "\<forall>i < length ?cs. cursor_rows kept (?cs' ! i) = builder_rest b i"
      using cur by (simp add: builder_rest_def)
    show "\<forall>(k, r) \<in> set ?is'. k < length kept \<and> r < rb_num_rows (snd (kept ! k))"
      using idx "is" by fastforce
    show "map (deref kept) ?is' = builder_pending b"
      using idx by (auto simp: builder_pending_def deref_def)
  qed simp_all
  moreover have "remap_indices remap ?is = Some ?is'"
    using "is" R(1) by (intro remap_indices_ok) auto
  ultimately show ?thesis using m1(1) m(1) r by (simp add: retain_live_batches_def)
qed

section \<open>Reservation of the builder\<close>

lemma reservation_size_Inr [simp]:
  "lookup_reservation s i = Some v \<Longrightarrow> reservation_size s i = Inr (rsv_size v)"
  by (simp add: reservation_size_def)

lemma lookup_reservation_Some: "lookup_reservation s i = Some v \<Longrightarrow> i < length (st_reservations s)"
  by (auto simp: lookup_reservation_def split: if_splits)

lemma try_grow_at_least_ok:
  assumes "lookup_reservation s i = Some v" "try_grow_reservation_to_at_least I s i needed = Inr s'"
  shows "\<exists>v'. lookup_reservation s' i = Some v' \<and> rsv_size v' = max (rsv_size v) needed"
  using assms lookup_reservation_Some [OF assms(1)]
  by (auto simp: try_grow_reservation_to_at_least_def try_grow_def max_def split: if_splits sum.splits)

lemma shrink_ok:
  assumes "lookup_reservation s i = Some v" "n \<le> rsv_size v"
  shows "\<exists>s' v'. shrink I s i n = Inr s' \<and> lookup_reservation s' i = Some v' \<and> rsv_size v' = rsv_size v - n"
  using assms lookup_reservation_Some [OF assms(1)]
  by (auto simp: shrink_def try_sub_size_def checked_sub_def)

section \<open>Rows in, rows out\<close>

lemma builder_new_ok:
  assumes "lookup_reservation s i = Some v" "0 < nfields"
  shows "\<exists>b. builder_new nfields n s i = Inr b \<and> builder_ok A b \<and> length (bb_cursors b) = n \<and>
    builder_pending b = [] \<and> (\<forall>j < n. builder_rest b j = []) \<and> bb_fields b = nfields \<and>
    bb_initial_reservation b = rsv_size v \<and> bb_batches b = []"
  using assms
  by (auto simp: builder_new_def builder_ok_def cursors_own_def bytes_fit_def batches_nat_bytes_def
      reservation_covers_def builder_pending_def builder_rest_def cursor_rows_def RELEASED_def)

lemma deref_append: "k < length bs \<Longrightarrow> deref (bs @ cs) (k, r) = deref bs (k, r)"
  by (simp add: deref_def nth_append)

text \<open>A new batch of a stream whose cursor has no rows left.\<close>

lemma push_batch_ok:
  assumes ok: "builder_ok A b" and i: "i < length (bb_cursors b)" and wf: "batch_wf (bb_fields b) batch"
    and fit: "bytes_fit A (bb_batches b @ [(i, batch)])" and len: "length (bb_batches b) < USIZE_MAX"
    and push: "push_batch A I b i batch = Inr b'"
  shows "builder_ok A b'" "builder_pending b' = builder_pending b" "builder_rest b' i = rows_of batch"
    "j < length (bb_cursors b) \<Longrightarrow> j \<noteq> i \<Longrightarrow> builder_rest b' j = builder_rest b j"
    "length (bb_cursors b') = length (bb_cursors b)" "bb_fields b' = bb_fields b"
    "bb_batches b' = bb_batches b @ [(i, batch)]" "bb_indices b' = bb_indices b"
    "bb_initial_reservation b' = bb_initial_reservation b"
proof -
  obtain v where v: "lookup_reservation (bb_store b) (bb_reservation b) = Some v"
      "bb_batches_mem_used b \<le> rsv_size v" "bb_initial_reservation b \<le> rsv_size v"
    using ok by (auto simp: builder_ok_def reservation_covers_def split: option.splits)
  obtain s where s: "try_grow_reservation_to_at_least I (bb_store b) (bb_reservation b)
      (bb_batches_mem_used b + ar_memory_size A batch) = Inr s"
    and b': "b' = b\<lparr>bb_batches_mem_used := bb_batches_mem_used b + ar_memory_size A batch, bb_store := s,
       bb_batches := bb_batches b @ [(i, batch)],
       bb_cursors := (bb_cursors b)[i := \<lparr>bc_batch_idx = length (bb_batches b), bc_row_idx = 0\<rparr>]\<rparr>"
    using push i by (auto simp: push_batch_def Let_def split: sum.splits)
  obtain v' where "lookup_reservation s (bb_reservation b) = Some v'"
      "rsv_size v' = max (rsv_size v) (bb_batches_mem_used b + ar_memory_size A batch)"
    using try_grow_at_least_ok [OF v(1) s] by blast
  then have "reservation_covers b'" using b' v by (auto simp: reservation_covers_def le_max_iff_disj)
  moreover have "cursors_own (bb_batches b') (bb_cursors b')"
    using ok i b' by (auto simp: builder_ok_def cursors_own_def nth_list_update nth_append)
  ultimately show "builder_ok A b'"
    using ok i wf fit len b' by (fastforce simp: builder_ok_def nth_append)
  show "builder_pending b' = builder_pending b"
    using ok b' by (auto simp: builder_ok_def builder_pending_def deref_append)
  show "builder_rest b' i = rows_of batch"
    using b' i by (simp add: builder_rest_def cursor_rows_def rows_of_def)
  show "builder_rest b' j = builder_rest b j"
    if "j < length (bb_cursors b)" "j \<noteq> i"
    using ok b' that len by (auto simp: builder_ok_def cursors_own_def builder_rest_def cursor_rows_def nth_append)
qed (use push i in \<open>auto simp: push_batch_def Let_def split: sum.splits\<close>)

lemma push_row_ok:
  assumes ok: "builder_ok A b" and i: "i < length (bb_cursors b)" and rest: "builder_rest b i = r # rs"
  shows "\<exists>b'. push_row b i = Some b' \<and> builder_ok A b' \<and> builder_pending b' = builder_pending b @ [r] \<and>
    builder_rest b' i = rs \<and> (\<forall>j < length (bb_cursors b). j \<noteq> i \<longrightarrow> builder_rest b' j = builder_rest b j) \<and>
    length (bb_cursors b') = length (bb_cursors b) \<and> bb_fields b' = bb_fields b \<and> bb_batches b' = bb_batches b \<and>
    length (bb_indices b') = length (bb_indices b) + 1 \<and> bb_store b' = bb_store b \<and>
    bb_initial_reservation b' = bb_initial_reservation b"
proof -
  let ?c = "bb_cursors b ! i"
  have lt: "bc_batch_idx ?c < length (bb_batches b)"
    using rest by (auto simp: builder_rest_def cursor_rows_def split: if_splits)
  let ?n = "rb_num_rows (snd (bb_batches b ! bc_batch_idx ?c))"
  have rows: "map (row_of (snd (bb_batches b ! bc_batch_idx ?c))) [bc_row_idx ?c..<?n] = r # rs"
    using rest lt by (simp add: builder_rest_def cursor_rows_def)
  then have row: "bc_row_idx ?c < ?n" by (cases "bc_row_idx ?c < ?n") auto
  then have r: "r = deref (bb_batches b) (bc_batch_idx ?c, bc_row_idx ?c)"
      "rs = map (row_of (snd (bb_batches b ! bc_batch_idx ?c))) [Suc (bc_row_idx ?c)..<?n]"
    using rows by (auto simp: upt_conv_Cons deref_def)
  let ?b = "b\<lparr>bb_cursors := (bb_cursors b)[i := ?c\<lparr>bc_row_idx := bc_row_idx ?c + 1\<rparr>],
      bb_indices := bb_indices b @ [(bc_batch_idx ?c, bc_row_idx ?c)]\<rparr>"
  have "cursors_own (bb_batches ?b) (bb_cursors ?b)"
    using ok i by (auto simp: builder_ok_def cursors_own_def nth_list_update)
  then have "builder_ok A ?b"
    using ok lt row by (auto simp: builder_ok_def reservation_covers_def split: option.splits)
  moreover have "push_row b i = Some ?b" using i by (simp add: push_row_def)
  moreover have "builder_pending ?b = builder_pending b @ [r]" using r by (simp add: builder_pending_def)
  moreover have "builder_rest ?b i = rs" using r lt i by (simp add: builder_rest_def cursor_rows_def)
  ultimately show ?thesis by (auto simp: builder_rest_def)
qed

section \<open>Emitting a batch\<close>

text \<open>
  What the builder relies on of arrow: \<open>interleave\<close>, when it succeeds on indices within the
  arrays, picks exactly the indexed elements; \<open>RecordBatch::try_new\<close> accepts columns of one
  common length, one per field of a non-empty schema.
\<close>

definition arrow_ok :: "('a, 'e) arrow_ops \<Rightarrow> bool" where
  "arrow_ok A \<longleftrightarrow>
     (\<forall>arrays indices col. (\<forall>(k, r) \<in> set indices. k < length arrays \<and> r < length (arrays ! k)) \<longrightarrow>
        ar_interleave A arrays indices = Inr col \<longrightarrow> col = map (\<lambda>(k, r). arrays ! k ! r) indices) \<and>
     (\<forall>cols n. cols \<noteq> [] \<longrightarrow> (\<forall>c \<in> set cols. length c = n) \<longrightarrow>
        ar_try_new A (length cols) cols = Inr \<lparr>rb_columns = cols, rb_num_rows = n\<rparr>)"

definition interleave_error :: "('a, 'e) arrow_ops \<Rightarrow> 'e merge_error \<Rightarrow> bool" where
  "interleave_error A e \<longleftrightarrow> (\<exists>arrays indices a. e = Arrow_Error a \<and> ar_interleave A arrays indices = Inl a)"

lemma retry_interleave_Inr:
  assumes "retry_interleave A n f = Inr (k, v)" "0 < n"
  shows "0 < k \<and> f k = Inr v \<and>
    (\<exists>j. k = n div 2 ^ j \<and> (\<forall>i < j. \<exists>e. f (n div 2 ^ i) = Inl e \<and> is_offset_overflow A e))"
  using assms
proof (induction A n f rule: retry_interleave.induct)
  case (1 A n f)
  show ?case
  proof (cases "f n")
    case (Inl e)
    then have h: "is_offset_overflow A e" "n div 2 \<noteq> 0" "retry_interleave A (n div 2) f = Inr (k, v)"
      using 1(2) by (auto simp: retry_interleave.simps [of A n] split: if_splits)
    obtain j where j: "0 < k" "f k = Inr v" "k = n div 2 div 2 ^ j"
        "\<forall>i < j. \<exists>e. f (n div 2 div 2 ^ i) = Inl e \<and> is_offset_overflow A e"
      using 1(1) [OF Inl h(1,2,3)] h(2) by auto
    have "\<forall>i < Suc j. \<exists>e. f (n div 2 ^ i) = Inl e \<and> is_offset_overflow A e"
      using j(4) Inl h(1) by (auto simp: less_Suc_eq_0_disj div_mult2_eq)
    moreover have "k = n div 2 ^ Suc j" using j(3) by (simp add: div_mult2_eq)
    ultimately show ?thesis using j by blast
  next
    case (Inr w)
    then have "k = n" "w = v" using 1(2) by (auto simp: retry_interleave.simps [of A n])
    then show ?thesis using Inr 1(3) by (auto intro: exI [of _ 0])
  qed
qed

lemma retry_interleave_Inl:
  "retry_interleave A n f = Inl e \<Longrightarrow> \<exists>k \<le> n. f k = Inl e"
proof (induction A n f rule: retry_interleave.induct)
  case (1 A n f)
  show ?case
  proof (cases "\<exists>e'. f n = Inl e' \<and> is_offset_overflow A e' \<and> n div 2 \<noteq> 0")
    case True
    then obtain e' where h: "f n = Inl e'" "is_offset_overflow A e'" "n div 2 \<noteq> 0" by blast
    then have "retry_interleave A (n div 2) f = Inl e" using 1(2) by (simp add: retry_interleave.simps [of A n])
    from 1(1) [OF h this] show ?thesis by (meson div_le_dividend le_trans)
  next
    case False
    then show ?thesis
      using 1(2) by (auto simp: retry_interleave.simps [of A n] split: sum.splits if_splits)
  qed
qed

lemma column_arrays_ok:
  "\<forall>(_, b) \<in> set bs. batch_wf nf b \<Longrightarrow> c < nf \<Longrightarrow>
   column_arrays bs c = Some (map (\<lambda>(_, b). rb_columns b ! c) bs)"
  by (induction bs) (auto simp: batch_wf_def)

lemma interleave_columns_ok:
  assumes A: "arrow_ok A" and wf: "\<forall>(_, b) \<in> set bs. batch_wf nf b"
    and "is": "\<forall>(k, r) \<in> set is. k < length bs \<and> r < rb_num_rows (snd (bs ! k))"
  shows "set cs \<subseteq> {..<nf} \<Longrightarrow> (case interleave_columns A bs is cs of
      Inl e \<Rightarrow> interleave_error A e
    | Inr cols \<Rightarrow> cols = map (\<lambda>c. map (\<lambda>(k, r). rb_columns (snd (bs ! k)) ! c ! r) is) cs)"
proof (induction cs)
  case (Cons c cs)
  let ?arrays = "map (\<lambda>(_, b). rb_columns b ! c) bs"
  have c: "column_arrays bs c = Some ?arrays" using column_arrays_ok [OF wf] Cons.prems by simp
  have valid: "\<forall>(k, r) \<in> set is. k < length ?arrays \<and> r < length (?arrays ! k)"
  proof clarify
    fix k r assume "(k, r) \<in> set is"
    then have k: "k < length bs" "r < rb_num_rows (snd (bs ! k))" using "is" by auto
    then have "batch_wf nf (snd (bs ! k))" using wf nth_mem by fastforce
    then have "length (rb_columns (snd (bs ! k)) ! c) = rb_num_rows (snd (bs ! k))"
      using Cons.prems by (auto simp: batch_wf_def)
    then show "k < length ?arrays \<and> r < length (?arrays ! k)" using k by (simp add: case_prod_beta)
  qed
  have "col = map (\<lambda>(k, r). rb_columns (snd (bs ! k)) ! c ! r) is" if "ar_interleave A ?arrays is = Inr col" for col
  proof -
    have "col = map (\<lambda>(k, r). ?arrays ! k ! r) is" using A valid that unfolding arrow_ok_def by blast
    then show ?thesis using "is" by (auto simp: case_prod_beta)
  qed
  then show ?case using Cons c by (auto simp: interleave_error_def split: sum.splits)
qed simp

lemma try_interleave_columns_ok:
  assumes "arrow_ok A" "builder_ok A b" "set is \<subseteq> set (bb_indices b)"
  shows "case try_interleave_columns A b is of
      Inl e \<Rightarrow> interleave_error A e
    | Inr cols \<Rightarrow> length cols = bb_fields b \<and> (\<forall>c \<in> set cols. length c = length is) \<and>
        rows_of \<lparr>rb_columns = cols, rb_num_rows = length is\<rparr> = map (deref (bb_batches b)) is"
proof -
  let ?bs = "bb_batches b"
  have wf: "\<forall>(_, b') \<in> set ?bs. batch_wf (bb_fields b) b'"
    and "is": "\<forall>(k, r) \<in> set is. k < length ?bs \<and> r < rb_num_rows (snd (?bs ! k))"
    using assms by (auto simp: builder_ok_def)
  have "map ((\<lambda>c. c ! i) \<circ> (\<lambda>c. map (\<lambda>(k, r). rb_columns (snd (?bs ! k)) ! c ! r) is)) [0..<bb_fields b] =
      deref ?bs (is ! i)" if i: "i < length is" for i
  proof -
    obtain k r where kr: "is ! i = (k, r)" by (cases "is ! i")
    then have "k < length ?bs" using "is" i nth_mem by fastforce
    then have "length (rb_columns (snd (?bs ! k))) = bb_fields b"
      using wf nth_mem by (fastforce simp: batch_wf_def)
    then have "map (\<lambda>c. c ! r) (rb_columns (snd (?bs ! k))) =
        map (\<lambda>c. rb_columns (snd (?bs ! k)) ! c ! r) [0..<bb_fields b]"
      by (intro nth_equalityI) simp_all
    then show ?thesis using i kr by (simp add: deref_def row_of_def)
  qed
  then have "rows_of \<lparr>rb_columns = map (\<lambda>c. map (\<lambda>(k, r). rb_columns (snd (?bs ! k)) ! c ! r) is) [0..<bb_fields b],
      rb_num_rows = length is\<rparr> = map (deref ?bs) is"
    unfolding rows_of_def row_of_def by (intro nth_equalityI) (simp_all add: comp_def)
  moreover have "set [0..<bb_fields b] \<subseteq> {..<bb_fields b}" by auto
  ultimately show ?thesis
    using interleave_columns_ok [OF assms(1) wf "is", of "[0..<bb_fields b]"]
    unfolding try_interleave_columns_def by (auto split: sum.splits)
qed

text \<open>Everything \<open>finish_record_batch\<close> does after the columns are there.\<close>

lemma finish_record_batch_ok:
  assumes A: "arrow_ok A" and ok: "builder_ok A b" and k: "k \<le> length (bb_indices b)"
    and cols: "length cols = bb_fields b" "\<forall>c \<in> set cols. length c = k"
  shows "\<exists>b'. finish_record_batch A I b k cols = Inr (\<lparr>rb_columns = cols, rb_num_rows = k\<rparr>, b') \<and>
    builder_ok A b' \<and> builder_pending b' = drop k (builder_pending b) \<and>
    (\<forall>i < length (bb_cursors b). builder_rest b' i = builder_rest b i) \<and>
    length (bb_cursors b') = length (bb_cursors b) \<and> bb_fields b' = bb_fields b \<and>
    mset (bb_batches b') \<subseteq># mset (bb_batches b) \<and>
    bb_initial_reservation b' = bb_initial_reservation b \<and>
    length (bb_indices b') = length (bb_indices b) - k"
proof -
  let ?b1 = "b\<lparr>bb_indices := drop k (bb_indices b)\<rparr>"
  have "set (drop k (bb_indices b)) \<subseteq> set (bb_indices b)" by (rule set_drop_subset)
  then have ok1: "builder_ok A ?b1"
    using ok by (auto simp: builder_ok_def reservation_covers_def split: option.splits)
  have p1: "builder_pending ?b1 = drop k (builder_pending b)" by (simp add: builder_pending_def drop_map)
  obtain b2 where b2: "(if bb_indices ?b1 = [] then retain_cursor_batches A ?b1 else retain_live_batches A ?b1) = Some b2"
    "releases A ?b1 b2" "length (bb_indices b2) = length (bb_indices ?b1)"
    using retain_cursor_batches_ok [OF ok1] retain_live_batches_ok [OF ok1] by (cases "bb_indices ?b1 = []") fastforce+
  obtain v where v: "lookup_reservation (bb_store b2) (bb_reservation b2) = Some v"
      "bb_batches_mem_used b2 \<le> rsv_size v" "bb_initial_reservation b2 \<le> rsv_size v"
    using b2(2) by (auto simp: releases_def builder_ok_def reservation_covers_def split: option.splits)
  let ?t = "max (bb_batches_mem_used b2) (bb_initial_reservation b2)"
  obtain s v' where s: "(if ?t < rsv_size v then shrink I (bb_store b2) (bb_reservation b2) (rsv_size v - ?t)
      else Inr (bb_store b2)) = Inr s" "lookup_reservation s (bb_reservation b2) = Some v'" "?t \<le> rsv_size v'"
  proof (cases "?t < rsv_size v")
    case True
    then have "rsv_size v - ?t \<le> rsv_size v" by (intro word_sub_le less_imp_le)
    from shrink_ok [OF v(1) this, of I] True show ?thesis using that by auto
  next
    case False
    then show ?thesis using that v by auto
  qed
  have "cols \<noteq> []" "bb_fields b2 = length cols"
    using ok b2(2) cols(1) by (auto simp: builder_ok_def releases_def)
  then have new: "ar_try_new A (bb_fields b2) cols = Inr \<lparr>rb_columns = cols, rb_num_rows = k\<rparr>"
    using A cols(2) by (simp add: arrow_ok_def)
  have "builder_ok A (b2\<lparr>bb_store := s\<rparr>)"
    using b2(2) s by (auto simp: releases_def builder_ok_def reservation_covers_def split: option.splits)
  moreover have "finish_record_batch A I b k cols = Inr (\<lparr>rb_columns = cols, rb_num_rows = k\<rparr>, b2\<lparr>bb_store := s\<rparr>)"
    using k b2(1) v(1) s(1) new unfolding finish_record_batch_def Let_def by simp
  ultimately show ?thesis
    using b2 p1 by (simp add: releases_def builder_pending_def builder_rest_def)
qed

lemma build_record_batch_ok:
  assumes A: "arrow_ok A" and ok: "builder_ok A b" and ne: "builder_pending b \<noteq> []"
  shows "(\<exists>e. build_record_batch A I b = Inl e \<and> interleave_error A e) \<or>
    (\<exists>batch b' k. build_record_batch A I b = Inr (Some batch, b') \<and> 0 < k \<and> k \<le> length (builder_pending b) \<and>
      rows_of batch = take k (builder_pending b) \<and> builder_pending b' = drop k (builder_pending b) \<and>
      batch_wf (bb_fields b) batch \<and> builder_ok A b' \<and>
      (\<forall>i < length (bb_cursors b). builder_rest b' i = builder_rest b i) \<and>
      length (bb_cursors b') = length (bb_cursors b) \<and> bb_fields b' = bb_fields b \<and>
      mset (bb_batches b') \<subseteq># mset (bb_batches b) \<and>
      bb_initial_reservation b' = bb_initial_reservation b)"
proof -
  let ?n = "length (bb_indices b)"
  let ?f = "\<lambda>k. try_interleave_columns A b (take k (bb_indices b))"
  have n: "0 < ?n" "\<not> builder_is_empty b" using ne by (auto simp: builder_pending_def builder_is_empty_def)
  have try_ok: "case ?f k of Inl e \<Rightarrow> interleave_error A e
    | Inr cols \<Rightarrow> length cols = bb_fields b \<and> (\<forall>c \<in> set cols. length c = min ?n k) \<and>
        rows_of \<lparr>rb_columns = cols, rb_num_rows = min ?n k\<rparr> = take k (builder_pending b)" for k
    using try_interleave_columns_ok [OF A ok, of "take k (bb_indices b)"] set_take_subset [of k "bb_indices b"]
    by (auto simp: builder_pending_def take_map split: sum.splits)
  show ?thesis
  proof (cases "retry_interleave A ?n ?f")
    case (Inl e)
    then obtain k where "?f k = Inl e" using retry_interleave_Inl by blast
    then show ?thesis using try_ok [of k] Inl n by (auto simp: build_record_batch_def)
  next
    case (Inr kv)
    obtain k cols where kv: "kv = (k, cols)" by (cases kv)
    have k: "0 < k" "k \<le> ?n" "?f k = Inr cols"
      using retry_interleave_Inr [OF Inr [unfolded kv] n(1)] by auto
    then have cols: "length cols = bb_fields b" "\<forall>c \<in> set cols. length c = k"
      "rows_of \<lparr>rb_columns = cols, rb_num_rows = k\<rparr> = take k (builder_pending b)"
      using try_ok [of k] by (auto simp: min_absorb2)
    obtain b' where "finish_record_batch A I b k cols = Inr (\<lparr>rb_columns = cols, rb_num_rows = k\<rparr>, b')"
      "builder_ok A b'" "builder_pending b' = drop k (builder_pending b)"
      "\<forall>i < length (bb_cursors b). builder_rest b' i = builder_rest b i"
      "length (bb_cursors b') = length (bb_cursors b)" "bb_fields b' = bb_fields b"
      "mset (bb_batches b') \<subseteq># mset (bb_batches b)" "bb_initial_reservation b' = bb_initial_reservation b"
      using finish_record_batch_ok [OF A ok k(2) cols(1,2)] by blast
    then show ?thesis
      using Inr kv n k cols by (auto simp: build_record_batch_def batch_wf_def builder_pending_def)
  qed
qed

section \<open>Properties\<close>

text \<open>
  C17. Emitting loses and duplicates no row.  From every well-formed builder with pending rows,
  \<open>build_record_batch\<close> either fails with an error of \<open>interleave\<close>, or emits a non-empty prefix of the
  pending rows and keeps the rest pending, although it drops batches and renumbers the ones it
  keeps; the rows each stream has still to yield are unchanged, and the reservation covers the kept
  batches and never falls below what it was when the builder was made.  It never panics.
\<close>

theorem build_record_batch_emits_prefix:
  assumes "arrow_ok A" and "builder_ok A b" and "builder_pending b \<noteq> []"
  shows "(\<exists>e. build_record_batch A I b = Inl e \<and> interleave_error A e) \<or>
    (\<exists>batch b' k. build_record_batch A I b = Inr (Some batch, b') \<and> 0 < k \<and>
      rows_of batch = take k (builder_pending b) \<and> builder_pending b' = drop k (builder_pending b) \<and>
      (\<forall>i < length (bb_cursors b). builder_rest b' i = builder_rest b i) \<and>
      builder_ok A b' \<and> mset (bb_batches b') \<subseteq># mset (bb_batches b) \<and>
      bb_initial_reservation b' = bb_initial_reservation b)"
  using build_record_batch_ok [OF assms, of I] by blast

definition demo_ops :: "(nat, unit) arrow_ops" where
  "demo_ops = \<lparr>ar_memory_size = (\<lambda>b. 8 * of_nat (rb_num_rows b)),
     ar_interleave = (\<lambda>arrays is. if 2 < length is then Inl () else Inr (map (\<lambda>(k, r). arrays ! k ! r) is)),
     ar_try_new = (\<lambda>nf cols. Inr \<lparr>rb_columns = cols, rb_num_rows = length (hd cols)\<rparr>),
     ar_is_offset_overflow = (\<lambda>_. True)\<rparr>"

definition demo_builder :: "(nat, unbounded_pool) batch_builder" where
  "demo_builder = \<lparr>bb_fields = 1,
     bb_batches = [(0, \<lparr>rb_columns = [[1, 2]], rb_num_rows = 2\<rparr>), (1, \<lparr>rb_columns = [[5, 6, 7]], rb_num_rows = 3\<rparr>)],
     bb_store = \<lparr>st_pool = \<lparr>ub_used = 40\<rparr>, st_registrations = [], st_reservations = [Some \<lparr>rsv_registration = 0, rsv_size = 40\<rparr>],
       st_next_id = 1\<rparr>,
     bb_reservation = 0, bb_batches_mem_used = 40, bb_initial_reservation = 10,
     bb_cursors = [\<lparr>bc_batch_idx = 0, bc_row_idx = 2\<rparr>, \<lparr>bc_batch_idx = 1, bc_row_idx = 1\<rparr>],
     bb_indices = [(0, 0), (0, 1), (1, 0)]\<rparr>"

theorem build_record_batch_emits_prefix_witness:
  "build_record_batch demo_ops unbounded_impl demo_builder \<noteq> Inl Merge_Panic"
proof -
  have "length (hd cols) = n" if "cols \<noteq> []" "\<forall>c \<in> set cols. length c = n" for cols :: "nat list list" and n
    using that by (cases cols) auto
  then have "arrow_ok demo_ops" by (auto simp: arrow_ok_def demo_ops_def split: if_splits)
  moreover have "builder_ok demo_ops demo_builder"
    by (simp add: builder_ok_def demo_builder_def batch_wf_def cursors_own_def less_Suc_eq batches_bytes_def demo_ops_def
        bytes_fit_def batches_nat_bytes_def USIZE_MAX_def reservation_covers_def lookup_reservation_def)
  moreover have "builder_pending demo_builder \<noteq> []" by (simp add: builder_pending_def demo_builder_def)
  ultimately show ?thesis
    using build_record_batch_emits_prefix [of demo_ops demo_builder unbounded_impl]
    by (auto simp: interleave_error_def)
qed



end
