(* ===== verification/Kmerge.thy ===== *)
theory Kmerge
  imports Prelude
begin

text \<open>
  The specification of a merge of sorted lists: at every step the head of one of the lists that is
  minimal among all heads moves to the output; a stable merge takes it from the first such list.
  A complete merge is a sorted permutation, and a complete stable merge is the stable sort of the
  concatenated lists.
\<close>

section \<open>Stable sorting\<close>

fun insert_by :: "('r \<Rightarrow> 'r \<Rightarrow> bool) \<Rightarrow> 'r \<Rightarrow> 'r list \<Rightarrow> 'r list" where
  "insert_by le x [] = [x]"
| "insert_by le x (y # ys) = (if le x y then x # y # ys else y # insert_by le x ys)"

definition sort_by :: "('r \<Rightarrow> 'r \<Rightarrow> bool) \<Rightarrow> 'r list \<Rightarrow> 'r list" where
  "sort_by le xs = foldr (insert_by le) xs []"

lemma sort_by_simps [simp]:
  "sort_by le [] = []" "sort_by le (x # xs) = insert_by le x (sort_by le xs)"
  by (simp_all add: sort_by_def)

lemma mset_insert_by [simp]: "mset (insert_by le x xs) = add_mset x (mset xs)"
  by (induction xs) auto

lemma mset_sort_by [simp]: "mset (sort_by le xs) = mset xs"
  by (induction xs) auto

lemma set_sort_by [simp]: "set (sort_by le xs) = set xs"
  by (metis mset_sort_by set_mset_mset)

lemma length_sort_by [simp]: "length (sort_by le xs) = length xs"
  by (metis mset_sort_by size_mset)

text \<open>The smallest element, the first of its equals, comes first.\<close>

lemma sort_by_min:
  assumes "\<forall>y \<in> set xs. \<not> le y x" "\<forall>y \<in> set ys. le x y"
  shows "sort_by le (xs @ x # ys) = x # sort_by le (xs @ ys)"
  using assms(1)
proof (induction xs)
  case Nil
  then show ?case using assms(2) by (cases "sort_by le ys") (auto simp flip: set_sort_by [of le ys])
qed simp

section \<open>Merging\<close>

text \<open>\<open>kmerge le st R t R'\<close>: from the lists \<open>R\<close>, the output \<open>t\<close> leaves the lists \<open>R'\<close>.\<close>

inductive kmerge :: "('r \<Rightarrow> 'r \<Rightarrow> bool) \<Rightarrow> bool \<Rightarrow> 'r list list \<Rightarrow> 'r list \<Rightarrow> 'r list list \<Rightarrow> bool"
  for le :: "'r \<Rightarrow> 'r \<Rightarrow> bool" and st :: bool where
  km_done: "kmerge le st R [] R"
| km_take: "i < length R \<Longrightarrow> R ! i = r # rs \<Longrightarrow>
    (\<forall>j < length R. R ! j \<noteq> [] \<longrightarrow> le r (hd (R ! j))) \<Longrightarrow>
    (st \<longrightarrow> (\<forall>j < i. R ! j \<noteq> [] \<longrightarrow> \<not> le (hd (R ! j)) r)) \<Longrightarrow>
    kmerge le st (R[i := rs]) t R' \<Longrightarrow> kmerge le st R (r # t) R'"

lemma kmerge_trans: "kmerge le st R t R' \<Longrightarrow> kmerge le st R' t' R'' \<Longrightarrow> kmerge le st R (t @ t') R''"
  by (induction rule: kmerge.induct) (auto intro: kmerge.intros)

lemma concat_update_Cons:
  assumes "i < length R" "R ! i = r # rs"
  shows "concat R = concat (take i R) @ r # rs @ concat (drop (Suc i) R)"
    "concat (R[i := rs]) = concat (take i R) @ rs @ concat (drop (Suc i) R)"
  using assms
  by (metis append_Cons concat.simps(2) concat_append id_take_nth_drop)
    (use assms in \<open>simp add: upd_conv_take_nth_drop\<close>)

lemma kmerge_mset: "kmerge le st R t R' \<Longrightarrow> mset (concat R) = mset t + mset (concat R')"
proof (induction rule: kmerge.induct)
  case (km_take i R r rs t R')
  then show ?case using concat_update_Cons [OF km_take(1,2)] by simp
qed simp

lemma kmerge_lengths: "kmerge le st R t R' \<Longrightarrow> length R' = length R"
  by (induction rule: kmerge.induct) auto

lemma sorted_lists_update:
  assumes "\<forall>l \<in> set R. sorted_wrt le l" "i < length R" "R ! i = r # rs"
  shows "\<forall>l \<in> set (R[i := rs]). sorted_wrt le l"
  using assms by (metis insert_iff nth_mem set_update_subset_insert sorted_wrt.simps(2) subset_iff)

lemma in_concat_nth: "x \<in> set (concat R) \<longleftrightarrow> (\<exists>j < length R. x \<in> set (R ! j))"
  by (metis (no_types, lifting) UN_iff in_set_conv_nth set_concat)

lemma min_head:
  assumes "\<forall>l \<in> set R. sorted_wrt le l" "transp le"
    and "\<forall>j < length R. R ! j \<noteq> [] \<longrightarrow> le r (hd (R ! j))" "x \<in> set (concat R)"
  shows "le r x"
proof -
  obtain j where j: "j < length R" "x \<in> set (R ! j)" using assms(4) in_concat_nth by metis
  then obtain h tl where R: "R ! j = h # tl" by (cases "R ! j") auto
  have "le r h" using assms(3) j(1) R by auto
  moreover have "x = h \<or> le h x" using assms(1) j R nth_mem by fastforce
  ultimately show ?thesis using assms(2) by (metis transpD)
qed

text \<open>The output is sorted, and nothing left behind is smaller than it.\<close>

lemma kmerge_sorted:
  assumes "kmerge le st R t R'" "\<forall>l \<in> set R. sorted_wrt le l" "transp le"
  shows "sorted_wrt le t \<and> (\<forall>x \<in> set t. \<forall>y \<in> set (concat R'). le x y)"
  using assms
proof (induction rule: kmerge.induct)
  case (km_take i R r rs t R')
  have IH: "sorted_wrt le t \<and> (\<forall>x \<in> set t. \<forall>y \<in> set (concat R'). le x y)"
    using km_take.IH sorted_lists_update [OF km_take.prems(1) km_take.hyps(1,2)] km_take.prems(2) by blast
  have "set (concat R) = set (r # t) \<union> set (concat R')"
    using kmerge_mset [OF kmerge.km_take [OF km_take.hyps(1-5)]] by (metis set_mset_mset set_mset_union)
  then have "\<forall>x \<in> set t \<union> set (concat R'). le r x"
    using min_head [OF km_take.prems km_take.hyps(3)] by auto
  then show ?case using IH by auto
qed simp

text \<open>A stable merge follows the stable sort.\<close>

lemma kmerge_stable:
  assumes "kmerge le True R t R'" "\<forall>l \<in> set R. sorted_wrt le l" "transp le"
  shows "sort_by le (concat R) = t @ sort_by le (concat R')"
  using assms
proof (induction rule: kmerge.induct)
  case (km_take i R r rs t R')
  note c = concat_update_Cons [OF km_take.hyps(1,2)]
  have le: "le r x" if "x \<in> set (concat R)" for x by (rule min_head [OF km_take.prems km_take.hyps(3) that])
  have "\<not> le y r" if y: "y \<in> set (concat (take i R))" for y
  proof
    assume yr: "le y r"
    obtain j where j: "j < i" "y \<in> set (R ! j)" using y by (auto simp: in_concat_nth simp del: set_concat)
    then obtain h tl where R: "R ! j = h # tl" by (cases "R ! j") auto
    have "y = h \<or> le h y" using km_take.prems(1) km_take.hyps(1) j R nth_mem [of j R] by fastforce
    then have "le h r" using yr km_take.prems(2) by (metis transpD)
    then show False using km_take.hyps(4) j R by auto
  qed
  then have "sort_by le (concat R) = r # sort_by le (concat (R[i := rs]))"
    unfolding c using le c(1) by (intro sort_by_min) auto
  then show ?case
    using km_take.IH sorted_lists_update [OF km_take.prems(1) km_take.hyps(1,2)] km_take.prems(2) by simp
qed simp

end
