(* ===== verification/Sort_Merge.thy ===== *)
theory Sort_Merge
  imports Loser_Tree Batch_Builder Kmerge
begin

text \<open>
  \<open>SortPreservingMergeStream\<close> of \<open>physical-plan/src/sorts/merge.rs\<close>: the merge of sorted streams
  of batches into one sorted stream.  The fields that the loser tree uses are those of
  \<open>Loser_Tree\<close>; the pending rows are in the \<open>Batch_Builder\<close>.  The result of a run is the list of the
  emitted batches and the error or the final state; the emitted batches before an error stay
  emitted.
\<close>

section \<open>State\<close>

datatype poll = Pending | Ready

text \<open>
  An input stream is the finite list of what its polls return; an empty list is a finished stream,
  which keeps returning \<open>None\<close>.
\<close>

datatype ('v, 'a, 'e) poll_item =
  Item_Pending
| Item_Batch 'v "'a record_batch"
| Item_Error "'e merge_error"

record ('v, 's, 'a, 'e, 'p) merge_state = "('v, 's) tree_state" +
  in_progress :: "('a, 'p) batch_builder"
  streams :: "('v, 'a, 'e) poll_item list list"
  batch_size :: nat
  fetch :: "nat option"
  produced :: nat

definition merge_new ::
  "('v, 'a, 'e) poll_item list list \<Rightarrow> nat \<Rightarrow> nat \<Rightarrow> nat option \<Rightarrow> 'p store \<Rightarrow> nat \<Rightarrow> bool \<Rightarrow>
   'e merge_error + ('v, 's, 'a, 'e, 'p) merge_state" where
  "merge_new strs nfields bsize limit s reservation enable_round_robin_tie_breaker =
     (if bsize = 0 \<or> limit = Some 0 then Inl Merge_Panic
      else
        (let stream_count = length strs
         in case builder_new nfields stream_count s reservation of
              Inl e \<Rightarrow> Inl e
            | Inr b \<Rightarrow>
                Inr \<lparr>loser_tree = [], cursors = replicate stream_count None,
                     round_robin_tie_breaker_mode = False,
                     num_of_polled_with_same_value = replicate stream_count 0,
                     poll_reset_epochs = replicate stream_count 0, current_reset_epoch = 0,
                     prev_cursors = (if enable_round_robin_tie_breaker
                                     then Some (replicate stream_count None) else None),
                     in_progress = b, streams = strs, batch_size = bsize,
                     fetch = limit, produced = 0\<rparr>))"

section \<open>Operations\<close>

text \<open>\<open>PartitionedStream::poll_next\<close>: the next outcome of one stream, \<open>None\<close> once it is finished.\<close>

definition poll_next ::
  "('v, 's, 'a, 'e, 'p) merge_state \<Rightarrow> nat \<Rightarrow>
   (('v, 'a, 'e) poll_item option \<times> ('v, 's, 'a, 'e, 'p) merge_state) option" where
  "poll_next s idx = do {
     items \<leftarrow> vec_get (streams s) idx;
     Some (case items of
             [] \<Rightarrow> (None, s)
           | x # xs \<Rightarrow> (Some x, s\<lparr>streams := (streams s)[idx := xs]\<rparr>)) }"

definition maybe_poll_stream ::
  "('a, 'e) arrow_ops \<Rightarrow> 'p memory_pool_impl \<Rightarrow> ('v, 's, 'a, 'e, 'p) merge_state \<Rightarrow> nat \<Rightarrow>
   'e merge_error + (poll \<times> ('v, 's, 'a, 'e, 'p) merge_state)" where
  "maybe_poll_stream A I s idx =
     (case vec_get (cursors s) idx of
        None \<Rightarrow> Inl Merge_Panic
      | Some (Some _) \<Rightarrow> Inr (Ready, s)
      | Some None \<Rightarrow>
          (case poll_next s idx of
             None \<Rightarrow> Inl Merge_Panic
           | Some (None, s) \<Rightarrow> Inr (Ready, s)
           | Some (Some Item_Pending, s) \<Rightarrow> Inr (Pending, s)
           | Some (Some (Item_Error e), s) \<Rightarrow> Inl e
           | Some (Some (Item_Batch values batch), s) \<Rightarrow>
               (case push_batch A I (in_progress s) idx batch of
                  Inl e \<Rightarrow> Inl e
                | Inr b \<Rightarrow>
                    Inr (Ready, s\<lparr>cursors := (cursors s)[idx := Some (cursor_new values)],
                                  in_progress := b\<rparr>))))"

definition emit_in_progress_batch ::
  "('a, 'e) arrow_ops \<Rightarrow> 'p memory_pool_impl \<Rightarrow> ('v, 's, 'a, 'e, 'p) merge_state \<Rightarrow>
   'e merge_error + ('a record_batch option \<times> ('v, 's, 'a, 'e, 'p) merge_state)" where
  "emit_in_progress_batch A I s =
     (let rows_before = builder_len (in_progress s)
      in case build_record_batch A I (in_progress s) of
           Inl e \<Rightarrow> Inl e
         | Inr (r, b) \<Rightarrow>
             Inr (r, s\<lparr>in_progress := b, produced := produced s + (rows_before - builder_len b)\<rparr>))"

definition swap_remove :: "'x list \<Rightarrow> nat \<Rightarrow> 'x list" where
  "swap_remove xs i = butlast (xs[i := last xs])"

function initialize_loop ::
  "('a, 'e) arrow_ops \<Rightarrow> 'p memory_pool_impl \<Rightarrow> ('v, 's, 'a, 'e, 'p) merge_state \<Rightarrow> nat list \<Rightarrow> nat \<Rightarrow>
   'e merge_error + (nat list \<times> ('v, 's, 'a, 'e, 'p) merge_state)" where
  "initialize_loop A I s uninitiated idx =
     (if idx < length uninitiated then
        (case maybe_poll_stream A I s (uninitiated ! idx) of
           Inl e \<Rightarrow> Inl e
         | Inr (Pending, s) \<Rightarrow> initialize_loop A I s uninitiated (idx + 1)
         | Inr (Ready, s) \<Rightarrow> initialize_loop A I s (swap_remove uninitiated idx) idx)
      else Inr (uninitiated, s))"
  by pat_completeness auto
termination
  by (relation "measure (\<lambda>(A, I, s, u, idx). length u - idx)") (auto simp: swap_remove_def)

definition initialize_all_partitions ::
  "('a, 'e) arrow_ops \<Rightarrow> 'p memory_pool_impl \<Rightarrow> ('v, 's, 'a, 'e, 'p) merge_state \<Rightarrow> nat list \<Rightarrow>
   'e merge_error + (poll \<times> nat list \<times> ('v, 's, 'a, 'e, 'p) merge_state)" where
  "initialize_all_partitions A I s uninitiated =
     (if loser_tree s \<noteq> [] then Inl Merge_Panic
      else
        (case initialize_loop A I s uninitiated 0 of
           Inl e \<Rightarrow> Inl e
         | Inr (u, s) \<Rightarrow> Inr (if u = [] then Ready else Pending, u, s)))"

definition fetch_reached :: "('v, 's, 'a, 'e, 'p) merge_state \<Rightarrow> bool" where
  "fetch_reached s =
     (case fetch s of None \<Rightarrow> False | Some f \<Rightarrow> f \<le> produced s + builder_len (in_progress s))"

declare initialize_loop.simps [simp del]

section \<open>Waiting\<close>

text \<open>
  \<open>poll_fn(..).await\<close> polls again until it is ready.  A pending poll used up an outcome of the
  polled stream, so the waiting ends.
\<close>

definition outcomes :: "('v, 's, 'a, 'e, 'p) merge_state \<Rightarrow> nat" where
  "outcomes s = sum_list (map length (streams s))"

lemma poll_next_outcomes:
  assumes "poll_next s idx = Some (r, s')"
  shows "outcomes s' + (if r = None then 0 else 1) = outcomes s"
proof -
  have i: "idx < length (streams s)" using assms by (auto simp: poll_next_def vec_get_def split: if_splits)
  have "length (streams s ! idx) \<le> outcomes s"
    using i by (auto simp: outcomes_def intro!: member_le_sum_list)
  then show ?thesis using assms i
    by (cases "streams s ! idx") (auto simp: poll_next_def outcomes_def map_update Groups_List.sum_list_update)
qed

lemma maybe_poll_outcomes:
  "maybe_poll_stream A I s idx = Inr (p, s') \<Longrightarrow> outcomes s' + (if p = Pending then 1 else 0) \<le> outcomes s"
  by (auto simp: maybe_poll_stream_def outcomes_def split: option.splits sum.splits poll_item.splits
      dest!: poll_next_outcomes split: if_splits)

lemma initialize_loop_outcomes:
  "initialize_loop A I s u idx = Inr (u', s') \<Longrightarrow> idx \<le> length u \<Longrightarrow> outcomes s' + length u' \<le> outcomes s + idx"
proof (induction A I s u idx rule: initialize_loop.induct)
  case (1 A I s u idx)
  show ?case
  proof (cases "idx < length u")
    case True
    then obtain p s1 where p: "maybe_poll_stream A I s (u ! idx) = Inr (p, s1)"
      using 1(3) by (auto simp: initialize_loop.simps [of A I s] split: sum.splits)
    note out = maybe_poll_outcomes [OF p]
    show ?thesis
    proof (cases p)
      case Pending
      then have "initialize_loop A I s1 u (idx + 1) = Inr (u', s')"
        using 1(3) p True by (simp add: initialize_loop.simps [of A I s])
      then show ?thesis using 1(1) [OF True p refl Pending] out True Pending by simp
    next
      case Ready
      then have "initialize_loop A I s1 (swap_remove u idx) idx = Inr (u', s')"
        using 1(3) p True by (simp add: initialize_loop.simps [of A I s])
      moreover have "idx \<le> length (swap_remove u idx)" using True by (simp add: swap_remove_def)
      ultimately show ?thesis using 1(2) [OF True p refl Ready] out Ready by simp
    qed
  next
    case False
    then show ?thesis using 1(3,4) by (simp add: initialize_loop.simps [of A I s])
  qed
qed

function await_initialized ::
  "('a, 'e) arrow_ops \<Rightarrow> 'p memory_pool_impl \<Rightarrow> ('v, 's, 'a, 'e, 'p) merge_state \<Rightarrow> nat list \<Rightarrow>
   'e merge_error + (nat list \<times> ('v, 's, 'a, 'e, 'p) merge_state)" where
  "await_initialized A I s uninitiated =
     (case initialize_all_partitions A I s uninitiated of
        Inl e \<Rightarrow> Inl e
      | Inr (Ready, u, s) \<Rightarrow> Inr (u, s)
      | Inr (Pending, u, s) \<Rightarrow> await_initialized A I s u)"
  by pat_completeness auto
termination
  by (relation "measure (\<lambda>(A, I, s, u). outcomes s)")
    (auto simp: initialize_all_partitions_def neq_Nil_conv split: if_splits sum.splits dest!: initialize_loop_outcomes)

function await_stream ::
  "('a, 'e) arrow_ops \<Rightarrow> 'p memory_pool_impl \<Rightarrow> ('v, 's, 'a, 'e, 'p) merge_state \<Rightarrow> nat \<Rightarrow>
   'e merge_error + ('v, 's, 'a, 'e, 'p) merge_state" where
  "await_stream A I s idx =
     (case maybe_poll_stream A I s idx of
        Inl e \<Rightarrow> Inl e
      | Inr (Ready, s) \<Rightarrow> Inr s
      | Inr (Pending, s) \<Rightarrow> await_stream A I s idx)"
  by pat_completeness auto
termination
  by (relation "measure (\<lambda>(A, I, s, idx). outcomes s)") (auto dest!: maybe_poll_outcomes)

declare await_initialized.simps [simp del] await_stream.simps [simp del]

section \<open>The stream\<close>

lemma remap_indices_length: "remap_indices remap is = Some is' \<Longrightarrow> length is' = length is"
  by (induction remap "is" arbitrary: is' rule: remap_indices.induct)
    (auto split: bind_splits)

lemma retain_indices_length:
  "retain_cursor_batches A b = Some b' \<Longrightarrow> length (bb_indices b') = length (bb_indices b)"
  "retain_live_batches A b = Some b' \<Longrightarrow> length (bb_indices b') = length (bb_indices b)"
  by (auto simp: retain_cursor_batches_def retain_live_batches_def remap_indices_length
      split: bind_splits prod.splits)

lemma build_record_batch_shrinks:
  assumes "build_record_batch A I b = Inr (Some batch, b')"
  shows "length (bb_indices b') < length (bb_indices b)"
proof -
  have n: "0 < length (bb_indices b)"
    using assms by (auto simp: build_record_batch_def builder_is_empty_def split: if_splits)
  obtain k cols where r: "retry_interleave A (length (bb_indices b))
      (\<lambda>k. try_interleave_columns A b (take k (bb_indices b))) = Inr (k, cols)"
    and f: "finish_record_batch A I b k cols = Inr (batch, b')"
    using assms by (auto simp: build_record_batch_def split: if_splits sum.splits)
  have "0 < k" using retry_interleave_Inr [OF r n] by blast
  moreover have "length (bb_indices b') = length (bb_indices b) - k"
    using f by (auto simp: finish_record_batch_def Let_def dest!: retain_indices_length
        split: if_splits option.splits sum.splits)
  ultimately show ?thesis using n by simp
qed

lemma emit_shrinks:
  "emit_in_progress_batch A I s = Inr (Some batch, s') \<Longrightarrow>
   builder_len (in_progress s') < builder_len (in_progress s)"
  by (auto simp: emit_in_progress_batch_def Let_def builder_len_def dest: build_record_batch_shrinks
      split: sum.splits)

text \<open>The loop of \<open>flush_in_progress\<close>.\<close>

function flush_loop ::
  "('a, 'e) arrow_ops \<Rightarrow> 'p memory_pool_impl \<Rightarrow> ('v, 's, 'a, 'e, 'p) merge_state \<Rightarrow>
   'a record_batch list \<times> ('e merge_error + ('v, 's, 'a, 'e, 'p) merge_state)" where
  "flush_loop A I s =
     (case emit_in_progress_batch A I s of
        Inl e \<Rightarrow> ([], Inl e)
      | Inr (None, s) \<Rightarrow> ([], Inr s)
      | Inr (Some batch, s) \<Rightarrow> (case flush_loop A I s of (out, r) \<Rightarrow> (batch # out, r)))"
  by pat_completeness auto
termination
  by (relation "measure (\<lambda>(A, I, s). builder_len (in_progress s))") (auto dest: emit_shrinks)

declare flush_loop.simps [simp del]

definition flush_in_progress ::
  "('a, 'e) arrow_ops \<Rightarrow> 'p memory_pool_impl \<Rightarrow> ('v, 's, 'a, 'e, 'p) merge_state \<Rightarrow>
   'a record_batch list \<times> ('e merge_error + ('v, 's, 'a, 'e, 'p) merge_state)" where
  "flush_in_progress A I s =
     (if builder_is_empty (in_progress s) then ([], Inr s) else flush_loop A I s)"

text \<open>
  One iteration of the main loop in its two halves: the winner's row is pushed and, when it fills
  the batch, a batch is emitted; then the winner is advanced and the tree adjusted.
\<close>

datatype ('a, 'x, 'e) row_result = Row_Error "'e merge_error" | Row_Break 'x | Row_Pushed "'a record_batch list" 'x

definition push_winner ::
  "('a, 'e) arrow_ops \<Rightarrow> 'p memory_pool_impl \<Rightarrow> ('v, 's, 'a, 'e, 'p) merge_state \<Rightarrow> nat \<Rightarrow>
   ('a, ('v, 's, 'a, 'e, 'p) merge_state, 'e) row_result" where
  "push_winner A I s winner_stream =
     (case push_row (in_progress s) winner_stream of
        None \<Rightarrow> Row_Error Merge_Panic
      | Some b \<Rightarrow>
          (let s = s\<lparr>in_progress := b\<rparr>
           in if fetch_reached s then Row_Break s
              else if batch_size s \<le> builder_len (in_progress s) then
                (case emit_in_progress_batch A I s of
                   Inl e \<Rightarrow> Row_Error e
                 | Inr (None, s) \<Rightarrow> Row_Error (Merge_Internal ''must have batch in progress to emit'')
                 | Inr (Some batch, s) \<Rightarrow> Row_Pushed [batch] s)
              else Row_Pushed [] s))"

definition advance_winner ::
  "('v, 's) cursor_values \<Rightarrow> ('a, 'e) arrow_ops \<Rightarrow> 'p memory_pool_impl \<Rightarrow> ('v, 's, 'a, 'e, 'p) merge_state \<Rightarrow> nat \<Rightarrow>
   'e merge_error + ('v, 's, 'a, 'e, 'p) merge_state" where
  "advance_winner CV A I s winner_stream =
     (case advance_cursors CV s winner_stream of
        None \<Rightarrow> Inl Merge_Panic
      | Some (should_poll_next_batch_for_stream, s) \<Rightarrow>
          (case (if should_poll_next_batch_for_stream then
                   (case vec_get (cursors s) winner_stream of
                      None \<Rightarrow> Inl Merge_Panic
                    | Some (Some _) \<Rightarrow> Inl (Merge_Internal ''cursor should be exhausted'')
                    | Some None \<Rightarrow> await_stream A I s winner_stream)
                 else Inr s) of
             Inl e \<Rightarrow> Inl e
           | Inr s \<Rightarrow>
               (case update_loser_tree CV s of
                  None \<Rightarrow> Inl Merge_Panic
                | Some s \<Rightarrow> Inr s)))"

text \<open>The main loop; \<open>None\<close> would be a run that does not end.\<close>

partial_function (option) merge_loop ::
  "('v, 's) cursor_values \<Rightarrow> ('a, 'e) arrow_ops \<Rightarrow> 'p memory_pool_impl \<Rightarrow> ('v, 's, 'a, 'e, 'p) merge_state \<Rightarrow>
   ('a record_batch list \<times> ('e merge_error + ('v, 's, 'a, 'e, 'p) merge_state)) option" where
  "merge_loop CV A I s =
     (case is_exhausted s of
        None \<Rightarrow> Some ([], Inl Merge_Panic)
      | Some exhausted \<Rightarrow>
          if exhausted then Some ([], Inr s)
          else
            (let winner_stream = loser_tree s ! 0
             in case push_winner A I s winner_stream of
                  Row_Error e \<Rightarrow> Some ([], Inl e)
                | Row_Break s \<Rightarrow> Some ([], Inr s)
                | Row_Pushed out s \<Rightarrow>
                    (case advance_winner CV A I s winner_stream of
                       Inl e \<Rightarrow> Some (out, Inl e)
                     | Inr s \<Rightarrow> do {
                         r \<leftarrow> merge_loop CV A I s;
                         Some (out @ fst r, snd r) })))"

definition create_stream ::
  "('v, 's) cursor_values \<Rightarrow> ('a, 'e) arrow_ops \<Rightarrow> 'p memory_pool_impl \<Rightarrow> ('v, 's, 'a, 'e, 'p) merge_state \<Rightarrow>
   ('a record_batch list \<times> ('e merge_error + ('v, 's, 'a, 'e, 'p) merge_state)) option" where
  "create_stream CV A I s =
     (case await_initialized A I s [0..<length (streams s)] of
        Inl e \<Rightarrow> Some ([], Inl e)
      | Inr (uninitiated, s) \<Rightarrow>
          if uninitiated \<noteq> [] then Some ([], Inl Merge_Panic)
          else
            (case init_loser_tree CV s of
               None \<Rightarrow> Some ([], Inl Merge_Panic)
             | Some s \<Rightarrow> do {
                 r \<leftarrow> merge_loop CV A I s;
                 case r of
                   (out, Inl e) \<Rightarrow> Some (out, Inl e)
                 | (out, Inr s) \<Rightarrow>
                     (case flush_in_progress A I s of (rest, r) \<Rightarrow> Some (out @ rest, r)) }))"

section \<open>The invariant\<close>

fun item_rows :: "('v, 'a, 'e) poll_item \<Rightarrow> 'a list list" where
  "item_rows (Item_Batch _ b) = rows_of b"
| "item_rows _ = []"

fun item_bytes :: "('a, 'e) arrow_ops \<Rightarrow> ('v, 'a, 'e) poll_item \<Rightarrow> nat" where
  "item_bytes A (Item_Batch _ b) = unat (ar_memory_size A b)"
| "item_bytes A _ = 0"

definition script_rows :: "('v, 'a, 'e) poll_item list \<Rightarrow> 'a list list" where
  "script_rows items = concat (map item_rows items)"

definition script_bytes :: "('a, 'e) arrow_ops \<Rightarrow> ('v, 'a, 'e) poll_item list \<Rightarrow> nat" where
  "script_bytes A items = sum_list (map (item_bytes A) items)"

text \<open>The rows of a stream that are neither chosen nor emitted.\<close>

definition remaining :: "('v, 's, 'a, 'e, 'p) merge_state \<Rightarrow> nat \<Rightarrow> 'a list list" where
  "remaining s i = builder_rest (in_progress s) i @ script_rows (streams s ! i)"

definition all_remaining :: "('v, 's, 'a, 'e, 'p) merge_state \<Rightarrow> 'a list list list" where
  "all_remaining s = map (remaining s) [0..<length (cursors s)]"

text \<open>The byte and batch counters do not wrap, whatever is still to come.\<close>

definition budget_ok :: "('a, 'e) arrow_ops \<Rightarrow> ('v, 's, 'a, 'e, 'p) merge_state \<Rightarrow> bool" where
  "budget_ok A s \<longleftrightarrow>
     batches_nat_bytes A (bb_batches (in_progress s)) + sum_list (map (script_bytes A) (streams s)) < 2 ^ 64 \<and>
     length (bb_batches (in_progress s)) + outcomes s \<le> USIZE_MAX"

text \<open>The stream has a cursor, or nothing is left of it.\<close>

definition settled :: "('v, 's, 'a, 'e, 'p) merge_state \<Rightarrow> nat \<Rightarrow> bool" where
  "settled s i \<longleftrightarrow> (cursors s ! i = None \<longrightarrow> streams s ! i = [])"

text \<open>Where an error of the merge can come from.\<close>

definition error_source ::
  "('a, 'e) arrow_ops \<Rightarrow> 'p memory_pool_impl \<Rightarrow> ('v, 'a, 'e) poll_item list list \<Rightarrow> 'e merge_error \<Rightarrow> bool" where
  "error_source A I strs e \<longleftrightarrow>
     interleave_error A e \<or>
     (\<exists>p r n d. e = Pool_Error d \<and> mp_try_grow I p r n = Inl d) \<or>
     (\<exists>items \<in> set strs. Item_Error e \<in> set items)"

definition err_closed :: "('a, 'e) arrow_ops \<Rightarrow> 'p memory_pool_impl \<Rightarrow> ('e merge_error \<Rightarrow> bool) \<Rightarrow> bool" where
  "err_closed A I err \<longleftrightarrow>
     (\<forall>e. interleave_error A e \<longrightarrow> err e) \<and> (\<forall>p r n d. mp_try_grow I p r n = Inl d \<longrightarrow> err (Pool_Error d))"

lemma err_closed_source: "err_closed A I (error_source A I strs)"
  by (auto simp: err_closed_def error_source_def)

lemma push_batch_error:
  assumes "push_batch A I b i batch = Inl e" "i < length (bb_cursors b)" "reservation_covers b" "err_closed A I err"
  shows "err e"
proof -
  obtain v where "lookup_reservation (bb_store b) (bb_reservation b) = Some v"
    using assms(3) by (auto simp: reservation_covers_def split: option.splits)
  then show ?thesis
    using assms(1,2,4) by (auto simp: push_batch_def Let_def try_grow_reservation_to_at_least_def try_grow_def
        err_closed_def split: sum.splits if_splits)
qed

context cursor_contract
begin

definition item_ok :: "nat \<Rightarrow> ('a list \<Rightarrow> 'k) \<Rightarrow> ('e merge_error \<Rightarrow> bool) \<Rightarrow> ('v, 'a, 'e) poll_item \<Rightarrow> bool" where
  "item_ok nf rk err it =
     (case it of
        Item_Pending \<Rightarrow> True
      | Item_Batch v b \<Rightarrow> pos v 0 \<and> keys v = map rk (rows_of b) \<and> batch_wf nf b
      | Item_Error e \<Rightarrow> err e)"

text \<open>The cursor of a stream stands at the first row that the builder has not taken.\<close>

definition aligned :: "('a list \<Rightarrow> 'k) \<Rightarrow> ('v, 's, 'a, 'e, 'p) merge_state \<Rightarrow> nat \<Rightarrow> bool" where
  "aligned rk s i =
     (case cursors s ! i of
        None \<Rightarrow> builder_rest (in_progress s) i = []
      | Some c \<Rightarrow> cursor_rest c = map rk (builder_rest (in_progress s) i))"

definition merge_core ::
  "('a, 'e) arrow_ops \<Rightarrow> ('a list \<Rightarrow> 'k) \<Rightarrow> ('e merge_error \<Rightarrow> bool) \<Rightarrow> ('v, 's, 'a, 'e, 'p) merge_state \<Rightarrow> bool" where
  "merge_core A rk err s \<longleftrightarrow>
     builder_ok A (in_progress s) \<and> length (bb_cursors (in_progress s)) = length (cursors s) \<and>
     length (streams s) = length (cursors s) \<and> polls_ok s \<and> live_ok (cursors s) \<and>
     (\<forall>i < length (cursors s). \<forall>it \<in> set (streams s ! i). item_ok (bb_fields (in_progress s)) rk err it) \<and>
     budget_ok A s"

definition merge_inv ::
  "('a, 'e) arrow_ops \<Rightarrow> ('a list \<Rightarrow> 'k) \<Rightarrow> ('e merge_error \<Rightarrow> bool) \<Rightarrow> ('v, 's, 'a, 'e, 'p) merge_state \<Rightarrow> bool" where
  "merge_inv A rk err s \<longleftrightarrow> merge_core A rk err s \<and> (\<forall>i < length (cursors s). aligned rk s i)"

lemma aligned_cong:
  "cursors s' ! i = cursors s ! i \<Longrightarrow> builder_rest (in_progress s') i = builder_rest (in_progress s) i \<Longrightarrow>
   aligned rk s i \<Longrightarrow> aligned rk s' i"
  by (simp add: aligned_def split: option.splits)

text \<open>What a poll of stream \<open>i\<close> may change.\<close>

definition polled :: "nat \<Rightarrow> ('v, 's, 'a, 'e, 'p) merge_state \<Rightarrow> ('v, 's, 'a, 'e, 'p) merge_state \<Rightarrow> bool" where
  "polled i s s' \<longleftrightarrow>
     (\<exists>c. cursors s' = (cursors s)[i := c]) \<and> loser_tree s' = loser_tree s \<and> prev_cursors s' = prev_cursors s \<and>
     builder_pending (in_progress s') = builder_pending (in_progress s) \<and>
     batch_size s' = batch_size s \<and> fetch s' = fetch s \<and> produced s' = produced s \<and>
     all_remaining s' = all_remaining s \<and> (\<forall>j. j \<noteq> i \<longrightarrow> settled s j \<longrightarrow> settled s' j)"

lemma polled_refl [simp]: "polled i s s"
  unfolding polled_def by (metis list_update_id)

lemma polled_trans: "polled i s t \<Longrightarrow> polled i t u \<Longrightarrow> polled i s u"
  unfolding polled_def by (metis list_update_overwrite)

lemma drop_item_sums:
  assumes i: "i < length (streams s)" and it: "streams s ! i = it # items"
  shows "sum_list (map (script_bytes A) ((streams s)[i := items])) + item_bytes A it =
      sum_list (map (script_bytes A) (streams s))"
    and "outcomes (s\<lparr>streams := (streams s)[i := items]\<rparr>) + 1 = outcomes s"
proof -
  have "script_bytes A (streams s ! i) \<le> sum_list (map (script_bytes A) (streams s))"
    using i by (intro member_le_sum_list) simp_all
  then show "sum_list (map (script_bytes A) ((streams s)[i := items])) + item_bytes A it =
      sum_list (map (script_bytes A) (streams s))"
    using i it by (simp add: map_update Groups_List.sum_list_update script_bytes_def)
  show "outcomes (s\<lparr>streams := (streams s)[i := items]\<rparr>) + 1 = outcomes s"
    using poll_next_outcomes [of s i "Some it"] i it by (simp add: poll_next_def)
qed

text \<open>One poll outcome that brings no batch.\<close>

lemma drop_empty_item:
  assumes inv: "merge_inv A rk err s" and i: "i < length (cursors s)"
    and it: "streams s ! i = it # items" "item_rows it = []" "item_bytes A it = 0"
  shows "merge_inv A rk err (s\<lparr>streams := (streams s)[i := items]\<rparr>)"
    "polled i s (s\<lparr>streams := (streams s)[i := items]\<rparr>)"
proof -
  let ?s = "s\<lparr>streams := (streams s)[i := items]\<rparr>"
  have i': "i < length (streams s)" using inv i by (simp add: merge_inv_def merge_core_def)
  have rem: "remaining ?s j = remaining s j" for j
    using it i' by (cases "j = i") (simp_all add: remaining_def script_rows_def)
  have "outcomes ?s \<le> outcomes s"
    "sum_list (map (script_bytes A) (streams ?s)) = sum_list (map (script_bytes A) (streams s))"
    using drop_item_sums(1) [OF i' it(1), of A] drop_item_sums(2) [OF i' it(1)] it(3) by simp_all
  then have "budget_ok A ?s"
    using inv unfolding merge_inv_def merge_core_def budget_ok_def by fastforce
  moreover have "\<forall>j < length (cursors s). \<forall>x \<in> set ((streams s)[i := items] ! j). item_ok (bb_fields (in_progress s)) rk err x"
    using inv i' it(1) by (auto simp: merge_inv_def merge_core_def nth_list_update)
  moreover have "aligned rk ?s j" if "aligned rk s j" for j using that by (rule aligned_cong [rotated 2]) simp_all
  ultimately show "merge_inv A rk err ?s"
    using inv by (simp add: merge_inv_def merge_core_def polls_ok_def)
  show "polled i s ?s"
    using rem by (auto simp: polled_def all_remaining_def settled_def intro: exI [of _ "cursors s ! i"])
qed

lemma polls_ok_cong:
  "cursors s' = (cursors s)[i := c] \<Longrightarrow> num_of_polled_with_same_value s' = num_of_polled_with_same_value s \<Longrightarrow>
   poll_reset_epochs s' = poll_reset_epochs s \<Longrightarrow> prev_cursors s' = prev_cursors s \<Longrightarrow> polls_ok s' = polls_ok s"
  by (simp add: polls_ok_def)

lemma live_ok_update: "live_ok cs \<Longrightarrow> (\<And>d. c = Some d \<Longrightarrow> cursor_ok d) \<Longrightarrow> live_ok (cs[i := c])"
  unfolding live_ok_def using set_update_subset_insert by fastforce

text \<open>A batch arrives: it goes to the builder, with a cursor on its keys.\<close>

lemma take_batch_item:
  assumes inv: "merge_inv A rk err s" and i: "i < length (cursors s)" and none: "cursors s ! i = None"
    and it: "streams s ! i = Item_Batch v batch # items"
    and push: "push_batch A I (in_progress s) i batch = Inr b"
    and s': "s' = s\<lparr>streams := (streams s)[i := items], cursors := (cursors s)[i := Some (cursor_new v)],
      in_progress := b\<rparr>"
  shows "merge_inv A rk err s'" "polled i s s'" "settled s' i"
proof -
  have i': "i < length (streams s)" "i < length (bb_cursors (in_progress s))"
    and ok: "builder_ok A (in_progress s)" and al: "\<forall>j < length (cursors s). aligned rk s j"
    using inv i by (auto simp: merge_inv_def merge_core_def)
  have item: "pos v 0" "keys v = map rk (rows_of batch)" "batch_wf (bb_fields (in_progress s)) batch"
    using inv i it unfolding merge_inv_def merge_core_def
    by (auto simp: item_ok_def dest!: spec [of _ i])
  note sums = drop_item_sums(1) [OF i'(1) it, of A] drop_item_sums(2) [OF i'(1) it]
  have budget: "batches_nat_bytes A (bb_batches (in_progress s)) + sum_list (map (script_bytes A) (streams s)) < 2 ^ 64"
    "length (bb_batches (in_progress s)) + outcomes s \<le> USIZE_MAX"
    using inv by (simp_all add: merge_inv_def merge_core_def budget_ok_def)
  have fit: "bytes_fit A (bb_batches (in_progress s) @ [(i, batch)])"
    using budget(1) sums(1) by (simp add: bytes_fit_def batches_nat_bytes_def)
  have lt: "length (bb_batches (in_progress s)) < USIZE_MAX" using budget(2) sums(2) by linarith
  note P = push_batch_ok [OF ok i'(2) item(3) fit lt push]
  have cur: "cursor_ok (cursor_new v)" "cursor_rest (cursor_new v) = map rk (rows_of batch)"
    using cursor_new_ok [OF item(1)] item(2) by auto
  have al': "aligned rk s' j" if "j < length (cursors s)" for j
  proof (cases "j = i")
    case True
    then show ?thesis using i P(3) cur s' by (simp add: aligned_def)
  next
    case False
    then show ?thesis
      using al that P(4) [of j] s' inv
      by (intro aligned_cong [of s' j s]) (simp_all add: merge_inv_def merge_core_def)
  qed
  have rem: "remaining s' j = remaining s j" if "j < length (cursors s)" for j
    using that i' i P(3) P(4) [of j] s' it al none inv
    by (cases "j = i") (auto simp: remaining_def script_rows_def aligned_def merge_inv_def merge_core_def)
  have "outcomes s' + 1 = outcomes s" using sums(2) s' by (simp add: outcomes_def)
  then have "budget_ok A s'"
    using budget sums(1) P(7) s' by (simp add: budget_ok_def batches_nat_bytes_def)
  moreover have "\<forall>j < length (cursors s). \<forall>x \<in> set ((streams s)[i := items] ! j). item_ok (bb_fields (in_progress s)) rk err x"
    using inv i' it(1) by (auto simp: merge_inv_def merge_core_def nth_list_update)
  moreover have "live_ok (cursors s')"
    using s' inv cur(1) live_ok_update [of "cursors s" "Some (cursor_new v)"] by (simp add: merge_inv_def merge_core_def)
  moreover have "polls_ok s'" using s' inv polls_ok_cong [of s' s] by (simp add: merge_inv_def merge_core_def)
  ultimately show "merge_inv A rk err s'"
    using inv P al' s' by (simp add: merge_inv_def merge_core_def)
  show "polled i s s'"
    using rem P(2) s' by (auto simp: polled_def all_remaining_def settled_def)
  show "settled s' i" using s' i by (simp add: settled_def)
qed

lemma maybe_poll_ok:
  assumes inv: "merge_inv A rk err s" and i: "i < length (cursors s)" and err: "err_closed A I err"
  shows "case maybe_poll_stream A I s i of
      Inl e \<Rightarrow> err e
    | Inr (p, s') \<Rightarrow> merge_inv A rk err s' \<and> polled i s s' \<and> (p = Ready \<longrightarrow> settled s' i)"
proof (cases "cursors s ! i")
  case (Some c)
  then show ?thesis using inv i by (simp add: maybe_poll_stream_def settled_def)
next
  case None
  have i': "i < length (streams s)" "i < length (bb_cursors (in_progress s))"
    and ok: "builder_ok A (in_progress s)"
    using inv i by (auto simp: merge_inv_def merge_core_def)
  show ?thesis
  proof (cases "streams s ! i")
    case Nil
    then show ?thesis using inv i i' None by (simp add: maybe_poll_stream_def poll_next_def settled_def)
  next
    case (Cons it items)
    show ?thesis
    proof (cases it)
      case Item_Pending
      then show ?thesis
        using drop_empty_item [OF inv i Cons] None i i' Cons
        by (simp add: maybe_poll_stream_def poll_next_def)
    next
      case (Item_Error e)
      then have "err e" using inv i Cons unfolding merge_inv_def merge_core_def
        by (auto simp: item_ok_def dest!: spec [of _ i])
      then show ?thesis using Item_Error None i i' Cons by (simp add: maybe_poll_stream_def poll_next_def)
    next
      case (Item_Batch v batch)
      show ?thesis
      proof (cases "push_batch A I (in_progress s) i batch")
        case (Inl e)
        then have "err e" using push_batch_error [OF Inl i'(2) _ err] ok by (simp add: builder_ok_def)
        then show ?thesis
          using Inl Item_Batch None i i' Cons by (simp add: maybe_poll_stream_def poll_next_def)
      next
        case (Inr b)
        then show ?thesis
          using take_batch_item [OF inv i None _ Inr refl, of v] Item_Batch None i i' Cons
          by (simp add: maybe_poll_stream_def poll_next_def)
      qed
    qed
  qed
qed

end

context cursor_contract
begin

lemma await_stream_ok:
  assumes "merge_inv A rk err s" "i < length (cursors s)" "err_closed A I err"
  shows "case await_stream A I s i of
      Inl e \<Rightarrow> err e
    | Inr s' \<Rightarrow> merge_inv A rk err s' \<and> polled i s s' \<and> settled s' i"
  using assms
proof (induction A I s i rule: await_stream.induct)
  case (1 A I s i)
  note ok = maybe_poll_ok [OF 1(2-4)]
  show ?case
  proof (cases "maybe_poll_stream A I s i")
    case (Inl e)
    then show ?thesis using ok by (simp add: await_stream.simps [of A I s])
  next
    case (Inr ps)
    then obtain p s1 where ps: "maybe_poll_stream A I s i = Inr (p, s1)" by (cases ps) auto
    then have s1: "merge_inv A rk err s1" "polled i s s1" "p = Ready \<longrightarrow> settled s1 i" using ok by auto
    show ?thesis
    proof (cases p)
      case Ready
      then show ?thesis using ps s1 by (simp add: await_stream.simps [of A I s])
    next
      case Pending
      have "i < length (cursors s1)" using s1(2) 1(3) by (auto simp: polled_def)
      from 1(1) [OF ps refl Pending s1(1) this 1(4)] show ?thesis
        using ps Pending polled_trans [OF s1(2)] by (auto simp: await_stream.simps [of A I s] split: sum.splits)
    qed
  qed
qed

text \<open>What polling any of the streams may change.\<close>

definition polled_all :: "('v, 's, 'a, 'e, 'p) merge_state \<Rightarrow> ('v, 's, 'a, 'e, 'p) merge_state \<Rightarrow> bool" where
  "polled_all s s' \<longleftrightarrow>
     length (cursors s') = length (cursors s) \<and> loser_tree s' = loser_tree s \<and> prev_cursors s' = prev_cursors s \<and>
     builder_pending (in_progress s') = builder_pending (in_progress s) \<and>
     batch_size s' = batch_size s \<and> fetch s' = fetch s \<and> produced s' = produced s \<and>
     all_remaining s' = all_remaining s"

lemma polled_all_refl [simp]: "polled_all s s"
  by (simp add: polled_all_def)

lemma polled_all_trans: "polled_all s t \<Longrightarrow> polled_all t u \<Longrightarrow> polled_all s u"
  by (simp add: polled_all_def)

lemma polled_imp_all: "polled i s s' \<Longrightarrow> polled_all s s'"
  by (auto simp: polled_def polled_all_def)

lemma set_swap_remove: "idx < length u \<Longrightarrow> set u \<subseteq> insert (u ! idx) (set (swap_remove u idx))"
proof
  fix x assume idx: "idx < length u" and x: "x \<in> set u"
  show "x \<in> insert (u ! idx) (set (swap_remove u idx))"
  proof (cases "x = u ! idx")
    case False
    obtain k where k: "k < length u" "x = u ! k" using x by (auto simp: in_set_conv_nth)
    show ?thesis
    proof (cases "k = length u - 1")
      case True
      then have "x = last u" using k by (metis last_conv_nth length_0_conv less_nat_zero_code)
      moreover have "idx \<noteq> length u - 1" using True False k by blast
      ultimately have "swap_remove u idx ! idx = x" "idx < length (swap_remove u idx)"
        using idx by (simp_all add: swap_remove_def nth_butlast)
      then show ?thesis by (metis insertI2 nth_mem)
    next
      case c: False
      then have "swap_remove u idx ! k = x" "k < length (swap_remove u idx)"
        using idx k False by (auto simp: swap_remove_def nth_butlast nth_list_update)
      then show ?thesis by (metis insertI2 nth_mem)
    qed
  qed simp
qed

lemma set_swap_remove_subset: "idx < length u \<Longrightarrow> set (swap_remove u idx) \<subseteq> set u"
  unfolding swap_remove_def
  by (metis insert_absorb2 in_set_butlastD last_in_set length_greater_0_conv less_nat_zero_code insert_subset
      list.size(3) set_update_subset_insert subset_iff subsetI insertE)

lemma initialize_loop_ok:
  assumes "merge_inv A rk err s" "set u \<subseteq> {..<length (cursors s)}" "err_closed A I err" "idx \<le> length u"
    and "\<forall>j < length (cursors s). j \<notin> set u \<longrightarrow> settled s j"
  shows "case initialize_loop A I s u idx of
      Inl e \<Rightarrow> err e
    | Inr (u', s') \<Rightarrow> merge_inv A rk err s' \<and> polled_all s s' \<and> set u' \<subseteq> {..<length (cursors s')} \<and>
        (\<forall>j < length (cursors s'). j \<notin> set u' \<longrightarrow> settled s' j)"
  using assms
proof (induction A I s u idx rule: initialize_loop.induct)
  case (1 A I s u idx)
  show ?case
  proof (cases "idx < length u")
    case False
    then show ?thesis using 1(3,4,7) by (simp add: initialize_loop.simps [of A I s])
  next
    case True
    let ?i = "u ! idx"
    have i: "?i < length (cursors s)" using True 1(4) nth_mem by auto
    note ok = maybe_poll_ok [OF 1(3) i 1(5)]
    show ?thesis
    proof (cases "maybe_poll_stream A I s ?i")
      case (Inl e)
      then show ?thesis using ok True by (simp add: initialize_loop.simps [of A I s])
    next
      case (Inr ps)
      then obtain p s1 where ps: "maybe_poll_stream A I s ?i = Inr (p, s1)" by (cases ps) auto
      then have s1: "merge_inv A rk err s1" "polled ?i s s1" "p = Ready \<longrightarrow> settled s1 ?i" using ok by auto
      have len: "length (cursors s1) = length (cursors s)" using s1(2) by (auto simp: polled_def)
      have keep: "settled s1 j" if "j \<noteq> ?i" "settled s j" for j using s1(2) that by (auto simp: polled_def)
      show ?thesis
      proof (cases p)
        case Pending
        have "\<forall>j < length (cursors s1). j \<notin> set u \<longrightarrow> settled s1 j"
          using keep 1(7) len True nth_mem by (metis)
        from 1(1) [OF True ps refl Pending s1(1) _ 1(5) _ this] show ?thesis
          using 1(4) len ps Pending True polled_all_trans [OF polled_imp_all [OF s1(2)]]
          by (auto simp: initialize_loop.simps [of A I s] split: sum.splits)
      next
        case Ready
        have "\<forall>j < length (cursors s1). j \<notin> set (swap_remove u idx) \<longrightarrow> settled s1 j"
          using keep 1(7) len set_swap_remove [OF True] s1(3) Ready by (metis insert_iff subset_iff)
        moreover have "idx \<le> length (swap_remove u idx)" using True by (simp add: swap_remove_def)
        moreover have "set (swap_remove u idx) \<subseteq> {..<length (cursors s1)}"
          using set_swap_remove_subset [OF True] 1(4) len by auto
        ultimately show ?thesis
          using 1(2) [OF True ps refl Ready s1(1) _ 1(5)] ps Ready True polled_all_trans [OF polled_imp_all [OF s1(2)]]
          by (auto simp: initialize_loop.simps [of A I s] split: sum.splits)
      qed
    qed
  qed
qed

lemma await_initialized_ok:
  assumes "merge_inv A rk err s" "set u \<subseteq> {..<length (cursors s)}" "err_closed A I err" "loser_tree s = []"
    and "\<forall>j < length (cursors s). j \<notin> set u \<longrightarrow> settled s j"
  shows "case await_initialized A I s u of
      Inl e \<Rightarrow> err e
    | Inr (u', s') \<Rightarrow> u' = [] \<and> merge_inv A rk err s' \<and> polled_all s s' \<and> (\<forall>j < length (cursors s'). settled s' j)"
  using assms
proof (induction A I s u rule: await_initialized.induct)
  case (1 A I s u)
  note ok = initialize_loop_ok [OF 1(2-4) _ 1(6), of 0]
  show ?case
  proof (cases "initialize_loop A I s u 0")
    case (Inl e)
    then show ?thesis using ok 1(5)
      by (simp add: await_initialized.simps [of A I s] initialize_all_partitions_def)
  next
    case (Inr us)
    obtain u1 s1 where us: "us = (u1, s1)" by (cases us)
    have s1: "merge_inv A rk err s1" "polled_all s s1" "set u1 \<subseteq> {..<length (cursors s1)}"
        "\<forall>j < length (cursors s1). j \<notin> set u1 \<longrightarrow> settled s1 j"
      using ok Inr us by auto
    show ?thesis
    proof (cases "u1 = []")
      case True
      then show ?thesis using Inr us s1 1(5)
        by (simp add: await_initialized.simps [of A I s] initialize_all_partitions_def)
    next
      case False
      then have init: "initialize_all_partitions A I s u = Inr (Pending, u1, s1)"
        using Inr us 1(5) by (simp add: initialize_all_partitions_def)
      have "loser_tree s1 = []" using s1(2) 1(5) by (simp add: polled_all_def)
      from 1(1) [OF init refl refl refl s1(1,3) 1(4) this s1(4)] show ?thesis
        using init polled_all_trans [OF s1(2)]
        by (auto simp: await_initialized.simps [of A I s] split: sum.splits)
    qed
  qed
qed

end

context cursor_contract
begin

definition behind :: "('a list \<Rightarrow> 'k) \<Rightarrow> ('v, 's, 'a, 'e, 'p) merge_state \<Rightarrow> nat \<Rightarrow> bool" where
  "behind rk s i \<longleftrightarrow>
     (\<exists>c. cursors s ! i = Some c \<and> cursor_ok c \<and> tl (cursor_rest c) = map rk (builder_rest (in_progress s) i))"

lemma more_fields:
  assumes "tree_state.more s' = tree_state.more s"
  shows "in_progress s' = in_progress s" "streams s' = streams s" "batch_size s' = batch_size s"
    "fetch s' = fetch s" "produced s' = produced s"
  using assms by (cases s; cases s'; simp)+

lemma same_frame_merge:
  assumes "same_frame s s'"
  shows "merge_inv A rk err s' = merge_inv A rk err s" "all_remaining s' = all_remaining s" "settled s' = settled s"
proof -
  have c: "cursors s' = cursors s" and m: "tree_state.more s' = tree_state.more s"
    using assms by (auto simp: same_frame_def)
  note f = more_fields [OF m]
  show "all_remaining s' = all_remaining s"
    using c f by (simp add: all_remaining_def remaining_def)
  show "settled s' = settled s" using c f by (simp add: settled_def fun_eq_iff)
  have "aligned rk s' = aligned rk s"
    using aligned_cong [of s' _ s rk] aligned_cong [of s _ s' rk] c f by (simp add: fun_eq_iff) blast
  then show "merge_inv A rk err s' = merge_inv A rk err s"
    using c f same_frame_polls [OF assms]
    by (simp add: merge_inv_def merge_core_def budget_ok_def outcomes_def)
qed

lemma adjust_tree:
  assumes inv: "merge_inv A rk err s1" and tree: "loser_tree_ok s"
    and cs: "cursors s1 = (cursors s)[loser_tree s ! 0 := c]" and lt: "loser_tree s1 = loser_tree s"
    and tb: "(prev_cursors s1 = None) = (prev_cursors s = None)"
    and st: "\<forall>j < length (cursors s1). settled s1 j"
  shows "\<exists>s'. update_loser_tree CV s1 = Some s' \<and> merge_inv A rk err s' \<and> loser_tree_ok s' \<and>
    (\<forall>j < length (cursors s'). settled s' j) \<and> in_progress s' = in_progress s1 \<and>
    all_remaining s' = all_remaining s1 \<and> batch_size s' = batch_size s1 \<and> fetch s' = fetch s1 \<and>
    produced s' = produced s1 \<and> prev_cursors s' = prev_cursors s1"
proof -
  have e: "round_robin_tie_breaker_enabled s1 = round_robin_tie_breaker_enabled s"
    using tb by (simp add: round_robin_tie_breaker_enabled_def)
  obtain W where W: "tree_ok (match_rel (round_robin_tie_breaker_enabled s1) (cursors s)) (length (cursors s1)) W
      (loser_tree s1)"
    using tree cs lt e by (auto simp: loser_tree_ok_def)
  obtain s' where s': "update_loser_tree CV s1 = Some s'" "loser_tree_ok s'" "same_frame s1 s'"
    using update_loser_tree_ok [OF W, of c] cs lt inv by (auto simp: merge_inv_def merge_core_def)
  have "length (cursors s') = length (cursors s1)" "prev_cursors s' = prev_cursors s1"
    using s'(3) by (auto simp: same_frame_def)
  then show ?thesis
    using s' inv st same_frame_merge [OF s'(3)] more_fields [of s' s1] by (simp add: same_frame_def)
qed

lemma merge_inv_cursor:
  assumes core: "merge_core A rk err s" and al: "\<forall>j < length (cursors s). j \<noteq> i \<longrightarrow> aligned rk s j"
    and s1: "s1 = s\<lparr>cursors := (cursors s)[i := c], prev_cursors := p\<rparr>"
    and c: "\<And>d. c = Some d \<Longrightarrow> cursor_ok d" and i: "aligned rk s1 i" "i < length (cursors s)"
    and p: "\<forall>ps. p = Some ps \<longrightarrow> length ps = length (cursors s)"
  shows "merge_inv A rk err s1" "all_remaining s1 = all_remaining s"
proof -
  have "aligned rk s1 j" if "j < length (cursors s)" for j
  proof (cases "j = i")
    case False
    then have "aligned rk s j" using al that by blast
    then show ?thesis by (rule aligned_cong [rotated 2]) (use False s1 in simp_all)
  qed (use i(1) in simp)
  moreover have "live_ok (cursors s1)" using core c s1 live_ok_update by (simp add: merge_core_def)
  moreover have "polls_ok s1" using core p s1 by (simp add: merge_core_def polls_ok_def)
  ultimately show "merge_inv A rk err s1"
    using core s1 by (simp add: merge_inv_def merge_core_def budget_ok_def outcomes_def)
  show "all_remaining s1 = all_remaining s" using s1 by (simp add: all_remaining_def remaining_def)
qed

lemma advance_winner_ok:
  assumes core: "merge_core A rk err s" and err: "err_closed A I err" and tree: "loser_tree_ok s"
    and w: "w = loser_tree s ! 0" and beh: "behind rk s w"
    and al: "\<forall>j < length (cursors s). j \<noteq> w \<longrightarrow> aligned rk s j"
    and st: "\<forall>j < length (cursors s). settled s j"
  shows "case advance_winner CV A I s w of
      Inl e \<Rightarrow> err e
    | Inr s' \<Rightarrow> merge_inv A rk err s' \<and> loser_tree_ok s' \<and> (\<forall>j < length (cursors s'). settled s' j) \<and>
        builder_pending (in_progress s') = builder_pending (in_progress s) \<and> all_remaining s' = all_remaining s \<and>
        batch_size s' = batch_size s \<and> fetch s' = fetch s \<and> produced s' = produced s \<and>
        (prev_cursors s' = None) = (prev_cursors s = None)"
proof -
  have wn: "w < length (cursors s)" using winner_bounds [OF tree] w by simp
  obtain c where c: "cursors s ! w = Some c" "cursor_ok c" "tl (cursor_rest c) = map rk (builder_rest (in_progress s) w)"
    using beh by (auto simp: behind_def)
  have polls: "polls_ok s" using core by (simp add: merge_core_def)
  show ?thesis
  proof (cases "tl (cursor_rest c) = []")
    case False
    obtain c' where c': "advance_cursors CV s w = Some (False, s\<lparr>cursors := (cursors s)[w := Some c']\<rparr>)"
        "cursor_ok c'" "cursor_rest c' = tl (cursor_rest c)"
      using advance_cursors_live [OF wn c(1,2) False] by blast
    let ?s = "s\<lparr>cursors := (cursors s)[w := Some c']\<rparr>"
    have *: "?s = s\<lparr>cursors := (cursors s)[w := Some c'], prev_cursors := prev_cursors s\<rparr>" by simp
    have "aligned rk ?s w" using c c' wn by (simp add: aligned_def)
    note m = merge_inv_cursor [OF core al * _ this wn]
    have inv: "merge_inv A rk err ?s" "all_remaining ?s = all_remaining s"
      using m c'(2) polls by (simp_all add: polls_ok_def)
    have "settled ?s j" if "settled s j" for j
      using that wn by (cases "j = w") (simp_all add: settled_def)
    then have st': "\<forall>j < length (cursors ?s). settled ?s j" using st by simp
    obtain s' where s': "update_loser_tree CV ?s = Some s'" "merge_inv A rk err s'" "loser_tree_ok s'"
      "\<forall>j < length (cursors s'). settled s' j" "in_progress s' = in_progress ?s" "all_remaining s' = all_remaining ?s"
      "batch_size s' = batch_size ?s" "fetch s' = fetch ?s" "produced s' = produced ?s" "prev_cursors s' = prev_cursors ?s"
      using adjust_tree [OF inv(1) tree _ _ _ st', of "Some c'"] unfolding w by auto
    have "advance_winner CV A I s w = Inr s'" using c'(1) s'(1) by (simp add: advance_winner_def)
    then show ?thesis using s' inv(2) by simp
  next
    case True
    obtain p where p: "advance_cursors CV s w = Some (True, s\<lparr>cursors := (cursors s)[w := None], prev_cursors := p\<rparr>)"
        "(p = None) = (prev_cursors s = None)" "\<forall>ps. p = Some ps \<longrightarrow> length ps = length (cursors s)"
      by (rule exE [OF advance_cursors_finished [OF wn c(1,2) True polls]]) (elim conjE, rule that)
    define s1 where "s1 = s\<lparr>cursors := (cursors s)[w := None], prev_cursors := p\<rparr>"
    have "aligned rk s1 w" using c(3) True wn by (simp add: aligned_def s1_def)
    note m = merge_inv_cursor [OF core al s1_def _ this wn p(3)]
    have inv: "merge_inv A rk err s1" "all_remaining s1 = all_remaining s" using m by simp_all
    have aw: "advance_winner CV A I s w =
        (case await_stream A I s1 w of Inl e \<Rightarrow> Inl e
         | Inr s \<Rightarrow> (case update_loser_tree CV s of None \<Rightarrow> Inl Merge_Panic | Some s \<Rightarrow> Inr s))"
      using p(1) wn by (simp add: advance_winner_def s1_def)
    have ws1: "w < length (cursors s1)" using wn by (simp add: s1_def)
    show ?thesis
    proof (cases "await_stream A I s1 w")
      case (Inl e)
      then show ?thesis using aw await_stream_ok [OF inv(1) ws1 err] by simp
    next
      case (Inr s2)
      have s2: "merge_inv A rk err s2" "polled w s1 s2" "settled s2 w"
        using await_stream_ok [OF inv(1) ws1 err] Inr by simp_all
      obtain c2 where c2: "cursors s2 = (cursors s)[w := c2]"
        using s2(2) by (auto simp: polled_def s1_def)
      have "\<forall>j < length (cursors s2). settled s2 j"
      proof (intro allI impI)
        fix j assume j: "j < length (cursors s2)"
        show "settled s2 j"
        proof (cases "j = w")
          case False
          then have "settled s1 j" using st j c2 by (simp add: settled_def s1_def)
          then show ?thesis using s2(2) False by (simp add: polled_def)
        qed (use s2(3) in simp)
      qed
      moreover have "loser_tree s2 = loser_tree s" "(prev_cursors s2 = None) = (prev_cursors s = None)"
        using s2(2) p(2) by (auto simp: polled_def s1_def)
      ultimately have adj: "\<exists>s'. update_loser_tree CV s2 = Some s' \<and> merge_inv A rk err s' \<and> loser_tree_ok s' \<and>
          (\<forall>j < length (cursors s'). settled s' j) \<and> in_progress s' = in_progress s2 \<and>
          all_remaining s' = all_remaining s2 \<and> batch_size s' = batch_size s2 \<and> fetch s' = fetch s2 \<and>
          produced s' = produced s2 \<and> prev_cursors s' = prev_cursors s2"
        using c2 w by (intro adjust_tree [OF s2(1) tree, of c2]) simp_all
      have f2: "builder_pending (in_progress s2) = builder_pending (in_progress s)" "all_remaining s2 = all_remaining s"
          "batch_size s2 = batch_size s" "fetch s2 = fetch s" "produced s2 = produced s"
          "(prev_cursors s2 = None) = (prev_cursors s = None)"
        using s2(2) inv(2) p(2) by (simp_all add: polled_def s1_def)
      obtain s' where s': "update_loser_tree CV s2 = Some s'" "merge_inv A rk err s'" "loser_tree_ok s'"
        "\<forall>j < length (cursors s'). settled s' j" "in_progress s' = in_progress s2" "all_remaining s' = all_remaining s2"
        "batch_size s' = batch_size s2" "fetch s' = fetch s2" "produced s' = produced s2" "prev_cursors s' = prev_cursors s2"
        using adj by blast
      have "advance_winner CV A I s w = Inr s'" using aw Inr s'(1) by simp
      then show ?thesis using s' f2 by simp
    qed
  qed
qed

end

section \<open>The run\<close>

definition emitted :: "'a record_batch list \<Rightarrow> 'a list list" where
  "emitted out = concat (map rows_of out)"

lemma emitted_simps [simp]: "emitted [] = []" "emitted (b # bs) = rows_of b @ emitted bs"
  "emitted (as @ bs) = emitted as @ emitted bs"
  by (simp_all add: emitted_def)

text \<open>Every emitted batch has at least one and at most \<open>batch_size\<close> rows.\<close>

definition batches_sized :: "nat \<Rightarrow> 'a record_batch list \<Rightarrow> bool" where
  "batches_sized n out \<longleftrightarrow> (\<forall>b \<in> set out. 0 < rb_num_rows b \<and> rb_num_rows b \<le> n)"

lemma batches_sized_simps [simp]: "batches_sized n []"
  "batches_sized n (b # bs) \<longleftrightarrow> 0 < rb_num_rows b \<and> rb_num_rows b \<le> n \<and> batches_sized n bs"
  "batches_sized n (as @ bs) \<longleftrightarrow> batches_sized n as \<and> batches_sized n bs"
  by (auto simp: batches_sized_def)

abbreviation pending :: "('v, 's, 'a, 'e, 'p) merge_state \<Rightarrow> 'a list list" where
  "pending s \<equiv> builder_pending (in_progress s)"

lemma builder_len_pending [simp]: "builder_len b = length (builder_pending b)"
  by (simp add: builder_len_def builder_pending_def)

lemma length_rows_of [simp]: "length (rows_of b) = rb_num_rows b"
  by (simp add: rows_of_def)

context cursor_contract
begin

lemma emit_ok:
  assumes A: "arrow_ok A" and core: "merge_core A rk err s" and err: "err_closed A I err" and ne: "pending s \<noteq> []"
  shows "(\<exists>e. emit_in_progress_batch A I s = Inl e \<and> err e) \<or>
    (\<exists>batch b k. emit_in_progress_batch A I s =
        Inr (Some batch, s\<lparr>in_progress := b, produced := produced s + k\<rparr>) \<and>
      0 < k \<and> k \<le> length (pending s) \<and> rows_of batch = take k (pending s) \<and> rb_num_rows batch = k \<and>
      builder_pending b = drop k (pending s) \<and>
      merge_core A rk err (s\<lparr>in_progress := b, produced := produced s + k\<rparr>) \<and>
      (\<forall>i < length (cursors s). builder_rest b i = builder_rest (in_progress s) i))"
proof -
  have ok: "builder_ok A (in_progress s)" using core by (simp add: merge_core_def)
  from build_record_batch_ok [OF A ok ne, of I] show ?thesis
  proof
    assume "\<exists>e. build_record_batch A I (in_progress s) = Inl e \<and> interleave_error A e"
    then show ?thesis using err by (auto simp: emit_in_progress_batch_def err_closed_def)
  next
    assume "\<exists>batch b' k. build_record_batch A I (in_progress s) = Inr (Some batch, b') \<and>
        0 < k \<and> k \<le> length (pending s) \<and> rows_of batch = take k (pending s) \<and> builder_pending b' = drop k (pending s) \<and>
        batch_wf (bb_fields (in_progress s)) batch \<and> builder_ok A b' \<and>
        (\<forall>i < length (bb_cursors (in_progress s)). builder_rest b' i = builder_rest (in_progress s) i) \<and>
        length (bb_cursors b') = length (bb_cursors (in_progress s)) \<and> bb_fields b' = bb_fields (in_progress s) \<and>
        mset (bb_batches b') \<subseteq># mset (bb_batches (in_progress s)) \<and>
        bb_initial_reservation b' = bb_initial_reservation (in_progress s)"
    then obtain batch b k where b: "build_record_batch A I (in_progress s) = Inr (Some batch, b)"
        "0 < k" "k \<le> length (pending s)" "rows_of batch = take k (pending s)" "builder_pending b = drop k (pending s)"
        "builder_ok A b" "\<forall>i < length (bb_cursors (in_progress s)). builder_rest b i = builder_rest (in_progress s) i"
        "length (bb_cursors b) = length (bb_cursors (in_progress s))" "bb_fields b = bb_fields (in_progress s)"
        "mset (bb_batches b) \<subseteq># mset (bb_batches (in_progress s))"
      by blast
    let ?s = "s\<lparr>in_progress := b, produced := produced s + k\<rparr>"
    have k: "rb_num_rows batch = k" using b(3,4) length_rows_of [of batch] by simp
    have "length (pending s) - length (builder_pending b) = k" using b(3,5) by simp
    then have emit: "emit_in_progress_batch A I s = Inr (Some batch, ?s)"
      using b(1) by (simp add: emit_in_progress_batch_def Let_def)
    have "budget_ok A ?s"
      using core batches_nat_bytes_mono [OF b(10), of A] size_mset_mono [OF b(10)]
      by (simp add: merge_core_def budget_ok_def outcomes_def)
    then have "merge_core A rk err ?s"
      using core b(6,8,9) by (simp add: merge_core_def polls_ok_def)
    moreover have "\<forall>i < length (cursors s). builder_rest b i = builder_rest (in_progress s) i"
      using core b(7) by (simp add: merge_core_def)
    ultimately show ?thesis using emit b(2-5) k by blast
  qed
qed

definition loop_inv ::
  "('a, 'e) arrow_ops \<Rightarrow> ('a list \<Rightarrow> 'k) \<Rightarrow> ('e merge_error \<Rightarrow> bool) \<Rightarrow> ('v, 's, 'a, 'e, 'p) merge_state \<Rightarrow> bool" where
  "loop_inv A rk err s \<longleftrightarrow>
     merge_inv A rk err s \<and> loser_tree_ok s \<and> (\<forall>j < length (cursors s). settled s j) \<and>
     length (pending s) < batch_size s \<and>
     (\<forall>f. fetch s = Some f \<longrightarrow> produced s + length (pending s) < f)"

text \<open>The winner's first row and what is left of its stream.\<close>

lemma winner_row:
  assumes inv: "merge_inv A rk err s" and w: "w < length (cursors s)" "cursors s ! w = Some c"
  obtains r rs where "builder_rest (in_progress s) w = r # rs" "rk r = cursor_key c"
    "tl (cursor_rest c) = map rk rs" "cursor_ok c"
proof -
  have c: "cursor_ok c" using inv w live_cursor by (auto simp: merge_inv_def merge_core_def)
  have "aligned rk s w" using inv w(1) by (simp add: merge_inv_def)
  then have "map rk (builder_rest (in_progress s) w) = cursor_key c # tl (cursor_rest c)"
    using w(2) cursor_rest_Cons [OF c] by (simp add: aligned_def)
  then show ?thesis using that c by (cases "builder_rest (in_progress s) w") auto
qed

lemma push_winner_ok:
  assumes A: "arrow_ok A" and err: "err_closed A I err" and inv: "loop_inv A rk err s"
    and w: "w < length (cursors s)" and row: "builder_rest (in_progress s) w = r # rs"
  shows "case push_winner A I s w of
      Row_Error e \<Rightarrow> err e
    | Row_Break s' \<Rightarrow> merge_core A rk err s' \<and> pending s' = pending s @ [r] \<and> length (pending s') \<le> batch_size s \<and>
        all_remaining s' = (all_remaining s)[w := rs @ script_rows (streams s ! w)] \<and>
        fetch s' = Some (produced s' + length (pending s')) \<and> produced s' = produced s \<and> fetch s' = fetch s
    | Row_Pushed out s' \<Rightarrow> merge_core A rk err s' \<and> emitted out @ pending s' = pending s @ [r] \<and>
        all_remaining s' = (all_remaining s)[w := rs @ script_rows (streams s ! w)] \<and>
        produced s' = produced s + length (emitted out) \<and> batches_sized (batch_size s) out \<and>
        (\<exists>b p. s' = s\<lparr>in_progress := b, produced := p\<rparr>) \<and> builder_rest (in_progress s') w = rs \<and>
        (\<forall>j < length (cursors s). j \<noteq> w \<longrightarrow> aligned rk s' j) \<and> length (pending s') < batch_size s \<and>
        (\<forall>f. fetch s = Some f \<longrightarrow> produced s' + length (pending s') < f)"
proof -
  have core: "merge_core A rk err s" and al: "\<forall>j < length (cursors s). aligned rk s j"
    and lt: "length (pending s) < batch_size s" "\<forall>f. fetch s = Some f \<longrightarrow> produced s + length (pending s) < f"
    using inv by (auto simp: loop_inv_def merge_inv_def)
  have ok: "builder_ok A (in_progress s)" and wb: "w < length (bb_cursors (in_progress s))"
    and lens: "length (bb_cursors (in_progress s)) = length (cursors s)"
    using core w by (auto simp: merge_core_def)
  obtain b where b: "push_row (in_progress s) w = Some b" "builder_ok A b" "builder_pending b = pending s @ [r]"
      "builder_rest b w = rs" "\<forall>j < length (bb_cursors (in_progress s)). j \<noteq> w \<longrightarrow> builder_rest b j = builder_rest (in_progress s) j"
      "length (bb_cursors b) = length (bb_cursors (in_progress s))" "bb_fields b = bb_fields (in_progress s)"
      "bb_batches b = bb_batches (in_progress s)"
    using push_row_ok [OF ok wb row] by blast
  define s1 where "s1 = s\<lparr>in_progress := b\<rparr>"
  have core1: "merge_core A rk err s1"
    using core b by (simp add: s1_def merge_core_def polls_ok_def budget_ok_def outcomes_def)
  have upd: "all_remaining (s\<lparr>in_progress := b', produced := p\<rparr>) = (all_remaining s)[w := rs @ script_rows (streams s ! w)]"
    if "\<forall>j < length (cursors s). builder_rest b' j = builder_rest b j" for b' p
    using that b(4,5) w lens
    by (auto simp: all_remaining_def remaining_def nth_list_update intro!: nth_equalityI)
  have rem1: "all_remaining s1 = (all_remaining s)[w := rs @ script_rows (streams s ! w)]"
    using upd [of b "produced s"] by (simp add: s1_def)
  have al1: "aligned rk (s\<lparr>in_progress := b', produced := p\<rparr>) j"
    if "\<forall>j < length (cursors s). builder_rest b' j = builder_rest b j" "j < length (cursors s)" "j \<noteq> w" for b' p j
    by (rule aligned_cong [of _ j s]) (use al that b(5) lens in auto)
  have pw: "push_winner A I s w =
      (if fetch_reached s1 then Row_Break s1
       else if batch_size s1 \<le> builder_len (in_progress s1) then
         (case emit_in_progress_batch A I s1 of
            Inl e \<Rightarrow> Row_Error e
          | Inr (None, s) \<Rightarrow> Row_Error (Merge_Internal ''must have batch in progress to emit'')
          | Inr (Some batch, s) \<Rightarrow> Row_Pushed [batch] s)
       else Row_Pushed [] s1)"
    using b(1) by (simp add: push_winner_def s1_def Let_def del: builder_len_pending)
  show ?thesis
  proof (cases "fetch_reached s1")
    case True
    then obtain f where f: "fetch s = Some f" "f \<le> produced s + length (pending s1)"
      by (auto simp: fetch_reached_def s1_def split: option.splits)
    then have "f = produced s + length (pending s1)" using lt(2) b(3) by (simp add: s1_def)
    then show ?thesis using True pw core1 b(3) rem1 f lt(1) by (simp add: s1_def)
  next
    case False
    then have nf: "\<forall>f. fetch s = Some f \<longrightarrow> produced s + length (pending s1) < f"
      by (auto simp: fetch_reached_def s1_def)
    show ?thesis
    proof (cases "batch_size s1 \<le> builder_len (in_progress s1)")
      case False
      have "\<exists>b' p. s\<lparr>in_progress := b\<rparr> = s\<lparr>in_progress := b', produced := p\<rparr>"
        by (intro exI [of _ b] exI [of _ "produced s"]) simp
      then show ?thesis
        using False \<open>\<not> fetch_reached s1\<close> pw core1 b(3,4) rem1 nf al1 [of b _ "produced s"] lt(1)
        by (auto simp: s1_def)
    next
      case True
      have ne: "pending s1 \<noteq> []" using b(3) by (simp add: s1_def)
      from emit_ok [OF A core1 err ne] show ?thesis
      proof
        assume "\<exists>e. emit_in_progress_batch A I s1 = Inl e \<and> err e"
        then show ?thesis using pw True \<open>\<not> fetch_reached s1\<close> by auto
      next
        assume "\<exists>batch b k. emit_in_progress_batch A I s1 =
            Inr (Some batch, s1\<lparr>in_progress := b, produced := produced s1 + k\<rparr>) \<and>
          0 < k \<and> k \<le> length (pending s1) \<and> rows_of batch = take k (pending s1) \<and> rb_num_rows batch = k \<and>
          builder_pending b = drop k (pending s1) \<and>
          merge_core A rk err (s1\<lparr>in_progress := b, produced := produced s1 + k\<rparr>) \<and>
          (\<forall>i < length (cursors s1). builder_rest b i = builder_rest (in_progress s1) i)"
        then obtain batch b' k where e: "emit_in_progress_batch A I s1 =
            Inr (Some batch, s1\<lparr>in_progress := b', produced := produced s1 + k\<rparr>)"
          "0 < k" "k \<le> length (pending s1)" "rows_of batch = take k (pending s1)" "rb_num_rows batch = k"
          "builder_pending b' = drop k (pending s1)"
          "merge_core A rk err (s1\<lparr>in_progress := b', produced := produced s1 + k\<rparr>)"
          "\<forall>i < length (cursors s1). builder_rest b' i = builder_rest (in_progress s1) i" by blast
        define s2 where "s2 = s\<lparr>in_progress := b', produced := produced s + k\<rparr>"
        have s2: "s1\<lparr>in_progress := b', produced := produced s1 + k\<rparr> = s2" by (simp add: s1_def s2_def)
        have r': "\<forall>j < length (cursors s). builder_rest b' j = builder_rest b j" using e(8) by (simp add: s1_def)
        have pw2: "push_winner A I s w = Row_Pushed [batch] s2"
          using pw True \<open>\<not> fetch_reached s1\<close> e(1) s2 by simp
        have len: "length (pending s1) \<le> batch_size s" using lt(1) b(3) by (simp add: s1_def)
        have "emitted [batch] @ pending s2 = pending s @ [r]"
          using e(4,6) b(3) by (simp add: s1_def s2_def del: take_append drop_append)
        moreover have "produced s2 + length (pending s2) = produced s + length (pending s1)" "length (pending s2) < batch_size s"
          using e(2,3,6) len by (simp_all add: s2_def)
        moreover have "builder_rest (in_progress s2) w = rs" using r' w b(4) by (simp add: s2_def)
        ultimately show ?thesis
          using pw2 e(2,3,5,7) s2 upd [OF r'] al1 [OF r'] nf len unfolding s2_def by auto
      qed
    qed
  qed
qed

end

context cursor_contract
begin

abbreviation row_le :: "('a list \<Rightarrow> 'k) \<Rightarrow> 'a list \<Rightarrow> 'a list \<Rightarrow> bool" where
  "row_le rk x y \<equiv> kle (rk x) (rk y)"

lemma transp_row_le: "transp (row_le rk)"
  by (rule transpI) (rule kle_trans)

text \<open>Without the tie breaker the winner is the first of its equals.\<close>

lemma winner_first:
  assumes "loser_tree_ok s" "\<not> round_robin_tie_breaker_enabled s" "i < length (cursors s)"
    and "cursors s ! (loser_tree s ! 0) \<noteq> None"
    and "key_le (stream_key (cursors s) i) (stream_key (cursors s) (loser_tree s ! 0))"
  shows "loser_tree s ! 0 \<le> i"
proof -
  let ?k = "stream_key (cursors s)"
  let ?le = "\<lambda>a b. key_le (?k a) (?k b) \<and> (?k a \<noteq> None \<and> key_le (?k b) (?k a) \<longrightarrow> a \<le> b)"
  obtain W where t: "tree_ok (match_rel False (cursors s)) (length (cursors s)) W (loser_tree s)"
    using assms(1,2) by (auto simp: loser_tree_ok_def)
  have trans: "?le a c" if "?le a b" "?le b c" for a b c
  proof -
    have "key_le (?k a) (?k c)" using that key_le_trans by blast
    moreover have "a \<le> c" if "?k a \<noteq> None" "key_le (?k c) (?k a)"
    proof -
      have "key_le (?k b) (?k a)" "key_le (?k c) (?k b)"
        using \<open>?le a b\<close> \<open>?le b c\<close> that(2) key_le_trans by blast+
      moreover have "?k b \<noteq> None" using calculation(1) that(1) by (cases "?k a"; cases "?k b") auto
      ultimately show ?thesis using \<open>?le a b\<close> \<open>?le b c\<close> that(1) le_trans by blast
    qed
    ultimately show ?thesis by blast
  qed
  have "?le (loser_tree s ! 0) i"
  proof (rule tree_min [OF t assms(3), where le = ?le])
    show "?le a c" if "?le a b" "?le b c" for a b c by (rule trans [OF that])
    show "?le a b" if "match_rel False (cursors s) k a b" for k a b using that by (simp add: match_rel_def)
  qed simp
  then show ?thesis using assms(4,5) by (auto simp: stream_key_def)
qed

lemma all_remaining_nth [simp]: "j < length (cursors s) \<Longrightarrow> all_remaining s ! j = remaining s j"
  "length (all_remaining s) = length (cursors s)"
  by (simp_all add: all_remaining_def)

lemma remaining_head:
  assumes inv: "loop_inv A rk err s" and j: "j < length (cursors s)"
  shows "remaining s j = [] \<longleftrightarrow> cursors s ! j = None"
    "cursors s ! j = Some c \<Longrightarrow> rk (hd (remaining s j)) = cursor_key c"
proof -
  have m: "merge_inv A rk err s" and st: "settled s j" using inv j by (auto simp: loop_inv_def)
  have "aligned rk s j" using m j by (simp add: merge_inv_def)
  then have none: "cursors s ! j = None \<Longrightarrow> remaining s j = []"
    using st by (simp add: aligned_def settled_def remaining_def script_rows_def)
  have some: "remaining s j \<noteq> [] \<and> rk (hd (remaining s j)) = cursor_key d" if "cursors s ! j = Some d" for d
    by (rule winner_row [OF m j that]) (simp add: remaining_def)
  show "remaining s j = [] \<longleftrightarrow> cursors s ! j = None" using none some by (cases "cursors s ! j") auto
  show "cursors s ! j = Some c \<Longrightarrow> rk (hd (remaining s j)) = cursor_key c" using some by simp
qed

text \<open>Pushing the winner's row is a step of the specification.\<close>

lemma winner_step:
  assumes inv: "loop_inv A rk err s" and w: "w = loser_tree s ! 0" "cursors s ! w = Some c"
    and row: "remaining s w = r # rest" and t: "kmerge (row_le rk) (prev_cursors s = None) ((all_remaining s)[w := rest]) t R'"
  shows "kmerge (row_le rk) (prev_cursors s = None) (all_remaining s) (r # t) R'"
proof (rule kmerge.km_take [OF _ _ _ _ t])
  have tree: "loser_tree_ok s" using inv by (simp add: loop_inv_def)
  show wn: "w < length (all_remaining s)" using winner_bounds [OF tree] w by simp
  then have wn': "w < length (cursors s)" by simp
  show "all_remaining s ! w = r # rest" using row wn' by simp
  have r: "rk r = cursor_key c" using remaining_head(2) [OF inv wn' w(2)] row by simp
  have key: "stream_key (cursors s) w = Some (rk r)" using w(2) r by (simp add: stream_key_def)
  have keyj: "stream_key (cursors s) j = Some (rk (hd (remaining s j)))"
    if "j < length (cursors s)" "remaining s j \<noteq> []" for j
    using remaining_head [OF inv that(1)] that(2) by (auto simp: stream_key_def)
  show "\<forall>j < length (all_remaining s). all_remaining s ! j \<noteq> [] \<longrightarrow> row_le rk r (hd (all_remaining s ! j))"
    using winner_minimal [OF tree] key keyj w(1) by (metis all_remaining_nth key_le.simps(3))
  show "prev_cursors s = None \<longrightarrow> (\<forall>j < w. all_remaining s ! j \<noteq> [] \<longrightarrow> \<not> row_le rk (hd (all_remaining s ! j)) r)"
  proof (intro impI allI notI)
    fix j assume off: "prev_cursors s = None" and j: "j < w" "all_remaining s ! j \<noteq> []"
      and le: "row_le rk (hd (all_remaining s ! j)) r"
    have jn: "j < length (cursors s)" using j(1) wn' by simp
    have "key_le (stream_key (cursors s) j) (stream_key (cursors s) (loser_tree s ! 0))"
      using keyj [OF jn] j(2) jn le key w(1) by simp
    then have "w \<le> j"
      using winner_first [OF tree _ jn] off w by (simp add: round_robin_tie_breaker_enabled_def)
    then show False using j(1) by simp
  qed
qed

definition run_ok ::
  "('a, 'e) arrow_ops \<Rightarrow> ('a list \<Rightarrow> 'k) \<Rightarrow> ('e merge_error \<Rightarrow> bool) \<Rightarrow> ('v, 's, 'a, 'e, 'p) merge_state \<Rightarrow>
   'a record_batch list \<times> ('e merge_error + ('v, 's, 'a, 'e, 'p) merge_state) \<Rightarrow> bool" where
  "run_ok A rk err s res \<longleftrightarrow>
     batches_sized (batch_size s) (fst res) \<and>
     (\<exists>t R'. kmerge (row_le rk) (prev_cursors s = None) (all_remaining s) t R' \<and>
       (case snd res of
          Inl e \<Rightarrow> err e \<and> (\<exists>lost. emitted (fst res) @ lost = pending s @ t)
        | Inr s' \<Rightarrow> emitted (fst res) @ pending s' = pending s @ t \<and> merge_core A rk err s' \<and>
            produced s' = produced s + length (emitted (fst res)) \<and> length (pending s') \<le> batch_size s \<and>
            (concat R' = [] \<and> (\<forall>f. fetch s = Some f \<longrightarrow> produced s' + length (pending s') < f) \<or>
             fetch s = Some (produced s' + length (pending s')))))"

lemma is_exhausted_ok:
  assumes inv: "loop_inv A rk err s"
  shows "is_exhausted s = Some (cursors s ! (loser_tree s ! 0) = None)"
    "cursors s ! (loser_tree s ! 0) = None \<Longrightarrow> concat (all_remaining s) = []"
proof -
  have tree: "loser_tree_ok s" using inv by (simp add: loop_inv_def)
  note b = winner_bounds [OF tree]
  have "vec_get (loser_tree s) 0 = Some (loser_tree s ! 0)" using b by (simp add: vec_get_def)
  then show "is_exhausted s = Some (cursors s ! (loser_tree s ! 0) = None)"
    using b(3) by (simp add: is_exhausted_def)
  assume none: "cursors s ! (loser_tree s ! 0) = None"
  have "remaining s j = []" if j: "j < length (cursors s)" for j
  proof -
    have "key_le None (stream_key (cursors s) j)"
      using winner_minimal [OF tree j] none by (simp add: stream_key_def)
    then have "cursors s ! j = None" by (cases "cursors s ! j") (auto simp: stream_key_def)
    then show ?thesis using remaining_head(1) [OF inv j] by simp
  qed
  then show "concat (all_remaining s) = []" by (simp add: all_remaining_def)
qed

lemma run_ok_prepend:
  assumes run: "run_ok A rk err s2 res" and out: "emitted out @ pending s2 = pending s @ x"
    "batches_sized (batch_size s) out" "produced s2 = produced s + length (emitted out)"
    and same: "batch_size s2 = batch_size s" "fetch s2 = fetch s" "(prev_cursors s2 = None) = (prev_cursors s = None)"
    and step: "kmerge (row_le rk) (prev_cursors s = None) (all_remaining s) x (all_remaining s2)"
  shows "run_ok A rk err s (out @ fst res, snd res)"
proof -
  obtain t R' where t: "kmerge (row_le rk) (prev_cursors s = None) (all_remaining s2) t R'"
    and r: "case snd res of
          Inl e \<Rightarrow> err e \<and> (\<exists>lost. emitted (fst res) @ lost = pending s2 @ t)
        | Inr s' \<Rightarrow> emitted (fst res) @ pending s' = pending s2 @ t \<and> merge_core A rk err s' \<and>
            produced s' = produced s2 + length (emitted (fst res)) \<and> length (pending s') \<le> batch_size s \<and>
            (concat R' = [] \<and> (\<forall>f. fetch s = Some f \<longrightarrow> produced s' + length (pending s') < f) \<or>
             fetch s = Some (produced s' + length (pending s')))"
    using run unfolding run_ok_def same by blast
  have km: "kmerge (row_le rk) (prev_cursors s = None) (all_remaining s) (x @ t) R'"
    by (rule kmerge_trans [OF step t])
  have app: "emitted (out @ fst res) @ l = pending s @ x @ t" if "emitted (fst res) @ l = pending s2 @ t" for l
    using that out(1) by (metis append.assoc emitted_simps(3))
  have "case snd res of
          Inl e \<Rightarrow> err e \<and> (\<exists>lost. emitted (out @ fst res) @ lost = pending s @ x @ t)
        | Inr s' \<Rightarrow> emitted (out @ fst res) @ pending s' = pending s @ x @ t \<and> merge_core A rk err s' \<and>
            produced s' = produced s + length (emitted (out @ fst res)) \<and> length (pending s') \<le> batch_size s \<and>
            (concat R' = [] \<and> (\<forall>f. fetch s = Some f \<longrightarrow> produced s' + length (pending s') < f) \<or>
             fetch s = Some (produced s' + length (pending s')))"
  proof (cases "snd res")
    case (Inl e)
    then obtain l where l: "err e" "emitted (fst res) @ l = pending s2 @ t" using r by auto
    show ?thesis using app [OF l(2)] l(1) unfolding Inl sum.case by blast
  next
    case (Inr s')
    have "emitted (fst res) @ pending s' = pending s2 @ t" using r Inr by simp
    note a = app [OF this]
    have "produced s' = produced s + length (emitted (out @ fst res))" using r Inr out(3) by simp
    then show ?thesis using a r unfolding Inr sum.case by blast
  qed
  moreover have "batches_sized (batch_size s) (out @ fst res)"
    using run out(2) same(1) by (simp add: run_ok_def)
  ultimately show ?thesis using km unfolding run_ok_def fst_conv snd_conv by blast
qed

lemma merge_loop_ok:
  assumes A: "arrow_ok A" and err: "err_closed A I err" and "loop_inv A rk err s"
  shows "\<exists>res. merge_loop CV A I s = Some res \<and> run_ok A rk err s res"
  using assms(3)
proof (induction "length (concat (all_remaining s))" arbitrary: s rule: less_induct)
  case less
  note inv = less.prems
  let ?w = "loser_tree s ! 0"
  note ex = is_exhausted_ok [OF inv]
  have m: "merge_inv A rk err s" and tree: "loser_tree_ok s" using inv by (auto simp: loop_inv_def)
  have wn: "?w < length (cursors s)" using winner_bounds [OF tree] by simp
  show ?case
  proof (cases "cursors s ! ?w")
    case None
    have "run_ok A rk err s ([], Inr s)"
      using inv ex(2) None kmerge.km_done [of "row_le rk" "prev_cursors s = None" "all_remaining s"]
      unfolding run_ok_def by (intro conjI exI [of _ "[]"] exI [of _ "all_remaining s"])
        (auto simp: loop_inv_def merge_inv_def)
    then show ?thesis using ex(1) None by (simp add: merge_loop.simps [of CV A I s])
  next
    case (Some c)
    obtain r rs where row: "builder_rest (in_progress s) ?w = r # rs" "tl (cursor_rest c) = map rk rs" "cursor_ok c"
      using winner_row [OF m wn Some] by metis
    define rest where "rest = rs @ script_rows (streams s ! ?w)"
    have rem: "remaining s ?w = r # rest" using row(1) by (simp add: remaining_def rest_def)
    note push = push_winner_ok [OF A err inv wn row(1), folded rest_def]
    note step = winner_step [OF inv refl Some rem]
    have shorter: "length (concat ((all_remaining s)[?w := rest])) < length (concat (all_remaining s))"
      using concat_update_Cons [of ?w "all_remaining s" r rest] rem wn by simp
    have loop: "merge_loop CV A I s =
        (case push_winner A I s ?w of
           Row_Error e \<Rightarrow> Some ([], Inl e)
         | Row_Break s \<Rightarrow> Some ([], Inr s)
         | Row_Pushed out s \<Rightarrow>
             (case advance_winner CV A I s ?w of
                Inl e \<Rightarrow> Some (out, Inl e)
              | Inr s \<Rightarrow> do { r \<leftarrow> merge_loop CV A I s; Some (out @ fst r, snd r) }))"
      using ex(1) Some by (simp add: merge_loop.simps [of CV A I s] Let_def)
    have step0: "kmerge (row_le rk) (prev_cursors s = None) (all_remaining s) [r] ((all_remaining s)[?w := rest])"
      by (rule step) (rule kmerge.km_done)
    show ?thesis
    proof (cases "push_winner A I s ?w")
      case (Row_Error e)
      have "run_ok A rk err s ([], Inl e)"
        using push Row_Error step0 unfolding run_ok_def by auto
      then show ?thesis using loop Row_Error by simp
    next
      case (Row_Break s')
      have "run_ok A rk err s ([], Inr s')"
        using push Row_Break step0 unfolding run_ok_def by auto
      then show ?thesis using loop Row_Break by simp
    next
      case (Row_Pushed out s1)
      have p: "merge_core A rk err s1" "emitted out @ pending s1 = pending s @ [r]"
          "all_remaining s1 = (all_remaining s)[?w := rest]" "produced s1 = produced s + length (emitted out)"
          "batches_sized (batch_size s) out" "builder_rest (in_progress s1) ?w = rs"
          "\<forall>j < length (cursors s). j \<noteq> ?w \<longrightarrow> aligned rk s1 j" "length (pending s1) < batch_size s"
          "\<forall>f. fetch s = Some f \<longrightarrow> produced s1 + length (pending s1) < f"
        and ex1: "\<exists>b p. s1 = s\<lparr>in_progress := b, produced := p\<rparr>"
        using push unfolding Row_Pushed row_result.case by blast+
      have f: "cursors s1 = cursors s" "loser_tree s1 = loser_tree s" "prev_cursors s1 = prev_cursors s"
          "streams s1 = streams s" "batch_size s1 = batch_size s" "fetch s1 = fetch s"
        using ex1 by auto
      have tree1: "loser_tree_ok s1"
        using tree f by (simp add: loser_tree_ok_def round_robin_tie_breaker_enabled_def)
      have beh: "behind rk s1 ?w" using Some row f p(6) by (simp add: behind_def)
      have st1: "\<forall>j < length (cursors s1). settled s1 j" using inv f by (simp add: loop_inv_def settled_def)
      note adv = advance_winner_ok [OF p(1) err tree1 _ beh _ st1, unfolded f, OF refl p(7)]
      show ?thesis
      proof (cases "advance_winner CV A I s1 ?w")
        case (Inl e)
        then have "err e" using adv by simp
        then have "run_ok A rk err s (out, Inl e)"
          using p(2,5) step0 unfolding run_ok_def by auto
        then show ?thesis using loop Row_Pushed Inl by simp
      next
        case (Inr s2)
        have a: "merge_inv A rk err s2" "loser_tree_ok s2" "\<forall>j < length (cursors s2). settled s2 j"
            "pending s2 = pending s1" "all_remaining s2 = all_remaining s1" "batch_size s2 = batch_size s"
            "fetch s2 = fetch s" "produced s2 = produced s1" "(prev_cursors s2 = None) = (prev_cursors s = None)"
          using adv Inr by simp_all
        have inv2: "loop_inv A rk err s2" using a p(8,9) by (simp add: loop_inv_def)
        have "length (concat (all_remaining s2)) < length (concat (all_remaining s))"
          using shorter a(5) p(3) by simp
        then obtain res where res: "merge_loop CV A I s2 = Some res" "run_ok A rk err s2 res"
          using less.hyps inv2 by blast
        have "run_ok A rk err s (out @ fst res, snd res)"
          using run_ok_prepend [OF res(2), of out s "[r]"] a p step0 by simp
        then show ?thesis using loop Row_Pushed Inr res(1) by simp
      qed
    qed
  qed
qed

end

context cursor_contract
begin

lemma flush_loop_ok:
  assumes A: "arrow_ok A" and err: "err_closed A I err" and "merge_core A rk err s" "length (pending s) \<le> n"
  shows "batches_sized n (fst (flush_loop A I s)) \<and>
    (case snd (flush_loop A I s) of
       Inl e \<Rightarrow> err e \<and> (\<exists>lost. emitted (fst (flush_loop A I s)) @ lost = pending s)
     | Inr s' \<Rightarrow> emitted (fst (flush_loop A I s)) = pending s)"
  using assms(3,4)
proof (induction "length (pending s)" arbitrary: s rule: less_induct)
  case less
  show ?case
  proof (cases "pending s = []")
    case True
    then have "emit_in_progress_batch A I s = Inr (None, s)"
      by (simp add: emit_in_progress_batch_def build_record_batch_def builder_is_empty_def builder_pending_def)
    then show ?thesis using True by (simp add: flush_loop.simps [of A I s])
  next
    case False
    from emit_ok [OF A less.prems(1) err False] show ?thesis
    proof
      assume "\<exists>e. emit_in_progress_batch A I s = Inl e \<and> err e"
      then show ?thesis by (auto simp: flush_loop.simps [of A I s])
    next
      assume "\<exists>batch b k. emit_in_progress_batch A I s =
          Inr (Some batch, s\<lparr>in_progress := b, produced := produced s + k\<rparr>) \<and>
        0 < k \<and> k \<le> length (pending s) \<and> rows_of batch = take k (pending s) \<and> rb_num_rows batch = k \<and>
        builder_pending b = drop k (pending s) \<and>
        merge_core A rk err (s\<lparr>in_progress := b, produced := produced s + k\<rparr>) \<and>
        (\<forall>i < length (cursors s). builder_rest b i = builder_rest (in_progress s) i)"
      then obtain batch b k where e: "emit_in_progress_batch A I s =
          Inr (Some batch, s\<lparr>in_progress := b, produced := produced s + k\<rparr>)"
        "0 < k" "k \<le> length (pending s)" "rows_of batch = take k (pending s)" "rb_num_rows batch = k"
        "builder_pending b = drop k (pending s)"
        "merge_core A rk err (s\<lparr>in_progress := b, produced := produced s + k\<rparr>)" by blast
      define s1 where "s1 = s\<lparr>in_progress := b, produced := produced s + k\<rparr>"
      have p1: "pending s1 = drop k (pending s)" using e(6) by (simp add: s1_def)
      have IH: "batches_sized n (fst (flush_loop A I s1)) \<and>
        (case snd (flush_loop A I s1) of
           Inl e \<Rightarrow> err e \<and> (\<exists>lost. emitted (fst (flush_loop A I s1)) @ lost = pending s1)
         | Inr s' \<Rightarrow> emitted (fst (flush_loop A I s1)) = pending s1)"
        using e(2,3,7) less.prems(2) p1 by (intro less.hyps) (simp_all add: s1_def [symmetric])
      have loop: "flush_loop A I s = (batch # fst (flush_loop A I s1), snd (flush_loop A I s1))"
        using e(1) by (simp add: flush_loop.simps [of A I s] s1_def case_prod_beta)
      have cat: "rows_of batch @ pending s1 = pending s" using e(4) p1 by simp
      show ?thesis
      proof (cases "snd (flush_loop A I s1)")
        case (Inl er)
        then obtain lost where "emitted (fst (flush_loop A I s1)) @ lost = pending s1" "err er" using IH by auto
        then have "err er \<and> (\<exists>lost. rows_of batch @ emitted (fst (flush_loop A I s1)) @ lost = pending s)"
          using cat by (intro conjI exI [of _ lost]) simp_all
        then show ?thesis using loop Inl IH e(2,3,5) less.prems(2) by simp
      next
        case (Inr s')
        then show ?thesis using loop cat IH e(2,3,5) less.prems(2) by auto
      qed
    qed
  qed
qed

lemma flush_ok:
  assumes "arrow_ok A" "err_closed A I err" "merge_core A rk err s" "length (pending s) \<le> n"
    and "flush_in_progress A I s = (out, r)"
  shows "batches_sized n out"
    "case r of Inl e \<Rightarrow> err e \<and> (\<exists>lost. emitted out @ lost = pending s) | Inr s' \<Rightarrow> emitted out = pending s"
proof -
  have "batches_sized n out \<and>
    (case r of Inl e \<Rightarrow> err e \<and> (\<exists>lost. emitted out @ lost = pending s) | Inr s' \<Rightarrow> emitted out = pending s)"
  proof (cases "builder_is_empty (in_progress s)")
    case True
    then show ?thesis
      using assms(5) by (auto simp: flush_in_progress_def builder_is_empty_def builder_pending_def)
  next
    case False
    then have "flush_loop A I s = (out, r)" using assms(5) by (simp add: flush_in_progress_def)
    then show ?thesis using flush_loop_ok [OF assms(1-4)] unfolding \<open>flush_loop A I s = (out, r)\<close> fst_conv snd_conv by blast
  qed
  then show "batches_sized n out"
    "case r of Inl e \<Rightarrow> err e \<and> (\<exists>lost. emitted out @ lost = pending s) | Inr s' \<Rightarrow> emitted out = pending s"
    by blast+
qed

text \<open>The whole stream, from its construction.\<close>

lemma create_stream_run:
  assumes A: "arrow_ok A" and err: "err_closed A I err" and inv: "merge_inv A rk err s"
    and fresh: "loser_tree s = []" "pending s = []" "produced s = 0"
    and n: "0 < length (cursors s)" "length (cursors s) \<le> USIZE_MAX" "0 < batch_size s" "fetch s \<noteq> Some 0"
  shows "\<exists>out r t R'. create_stream CV A I s = Some (out, r) \<and> batches_sized (batch_size s) out \<and>
    kmerge (row_le rk) (prev_cursors s = None) (all_remaining s) t R' \<and>
    (case r of
       Inl e \<Rightarrow> err e \<and> (\<exists>lost. emitted out @ lost = t)
     | Inr s' \<Rightarrow> emitted out = t \<and>
         (concat R' = [] \<and> (\<forall>f. fetch s = Some f \<longrightarrow> length t \<le> f) \<or> fetch s = Some (length t)))"
proof -
  have lens: "length (streams s) = length (cursors s)" using inv by (simp add: merge_inv_def merge_core_def)
  have "set [0..<length (streams s)] \<subseteq> {..<length (cursors s)}"
    "\<forall>j < length (cursors s). j \<notin> set [0..<length (streams s)] \<longrightarrow> settled s j" using lens by auto
  note init = await_initialized_ok [OF inv this(1) err fresh(1) this(2)]
  show ?thesis
  proof (cases "await_initialized A I s [0..<length (streams s)]")
    case (Inl e)
    then have "create_stream CV A I s = Some ([], Inl e)" "err e"
      using init lens by (auto simp: create_stream_def)
    then show ?thesis
      by (intro exI [of _ "[]"] exI [of _ "Inl e"] exI [of _ "all_remaining s"]) (auto intro: kmerge.km_done)
  next
    case (Inr us)
    obtain u s1 where us: "us = (u, s1)" by (cases us)
    have s1: "u = []" "merge_inv A rk err s1" "polled_all s s1" "\<forall>j < length (cursors s1). settled s1 j"
      using init Inr us lens by auto
    have p: "length (cursors s1) = length (cursors s)" "pending s1 = []" "batch_size s1 = batch_size s"
        "fetch s1 = fetch s" "produced s1 = 0" "all_remaining s1 = all_remaining s" "prev_cursors s1 = prev_cursors s"
      using s1(3) fresh by (auto simp: polled_all_def)
    obtain s2 where s2: "init_loser_tree CV s1 = Some s2" "loser_tree_ok s2" "same_frame s1 s2"
      using init_loser_tree_ok [of s1] s1(2) p(1) n by (auto simp: merge_inv_def merge_core_def)
    note m = same_frame_merge [OF s2(3)] and f = more_fields [of s2 s1]
    have q: "pending s2 = []" "batch_size s2 = batch_size s" "fetch s2 = fetch s" "produced s2 = 0"
        "all_remaining s2 = all_remaining s" "prev_cursors s2 = prev_cursors s" "cursors s2 = cursors s1"
      using p m f s2(3) by (auto simp: same_frame_def)
    have "loop_inv A rk err s2"
      using s1(2,4) m(1,3) s2(2) q n(3,4) by (auto simp: loop_inv_def)
    then obtain res where res: "merge_loop CV A I s2 = Some res" "run_ok A rk err s2 res"
      using merge_loop_ok [OF A err] by blast
    obtain out r where or: "res = (out, r)" by (cases res)
    obtain t R' where t: "kmerge (row_le rk) (prev_cursors s = None) (all_remaining s) t R'"
        "batches_sized (batch_size s) out"
      and c: "case r of
          Inl e \<Rightarrow> err e \<and> (\<exists>lost. emitted out @ lost = t)
        | Inr s' \<Rightarrow> emitted out @ pending s' = t \<and> merge_core A rk err s' \<and>
            produced s' = length (emitted out) \<and> length (pending s') \<le> batch_size s \<and>
            (concat R' = [] \<and> (\<forall>f. fetch s = Some f \<longrightarrow> produced s' + length (pending s') < f) \<or>
             fetch s = Some (produced s' + length (pending s')))"
      using res(2) unfolding run_ok_def or fst_conv snd_conv q append_Nil add_0 by blast
    have cs: "create_stream CV A I s = (case r of
          Inl e \<Rightarrow> Some (out, Inl e)
        | Inr s3 \<Rightarrow> (case flush_in_progress A I s3 of (rest, r) \<Rightarrow> Some (out @ rest, r)))"
      using Inr us s1(1) s2(1) res(1) or by (simp add: create_stream_def)
    show ?thesis
    proof (cases r)
      case (Inl e)
      then show ?thesis using cs t c by auto
    next
      case r: (Inr s3)
      obtain rest r2 where fl: "flush_in_progress A I s3 = (rest, r2)" by (cases "flush_in_progress A I s3")
      have c3: "emitted out @ pending s3 = t" "merge_core A rk err s3" "length (pending s3) \<le> batch_size s"
        "concat R' = [] \<and> (\<forall>f. fetch s = Some f \<longrightarrow> length t \<le> f) \<or> fetch s = Some (length t)"
        using c unfolding r sum.case by (blast, blast, blast, metis length_append less_imp_le)
      note F = flush_ok [OF A err c3(2,3) fl]
      have cs2: "create_stream CV A I s = Some (out @ rest, r2)" using cs r fl by simp
      show ?thesis
      proof (cases r2)
        case (Inl e)
        then obtain lost where "err e" "emitted rest @ lost = pending s3" using F(2) by auto
        then have "err e \<and> (\<exists>lost. emitted (out @ rest) @ lost = t)" using c3(1) by auto
        then show ?thesis using cs2 t F(1) Inl by auto
      next
        case (Inr s4)
        then have "emitted (out @ rest) = t" using F(2) c3(1) by auto
        then show ?thesis using cs2 t F(1) Inr c3(4)
          by (intro exI [of _ "out @ rest"] exI [of _ r2] exI [of _ t] exI [of _ R']) auto
      qed
    qed
  qed
qed

end

end
