(* ===== verification/Merge_Correct.thy ===== *)
theory Merge_Correct
  imports Sort_Merge
begin

text \<open>
  What \<open>SortPreservingMergeStream\<close> promises, for any implementation of \<open>CursorValues\<close> that meets the
  contract of \<open>Sort_Cursor\<close>: the emitted rows are the sorted merge of the inputs, cut at the fetch
  limit; without the tie breaker they are the stable sort of the concatenated inputs; the stream
  ends, and only errors of its inputs, of the memory pool or of \<open>interleave\<close> stop it early.
\<close>

section \<open>Inputs\<close>

text \<open>
  A batch arrives with cursor values that hold the sort key of each of its rows; batches are not
  empty, which the streams of cursors ensure.
\<close>

definition item_valid ::
  "('v \<Rightarrow> 'k list) \<Rightarrow> ('v \<Rightarrow> nat \<Rightarrow> bool) \<Rightarrow> nat \<Rightarrow> ('a list \<Rightarrow> 'k) \<Rightarrow> ('v, 'a, 'e) poll_item \<Rightarrow> bool" where
  "item_valid keys pos nf rk it =
     (case it of Item_Batch v b \<Rightarrow> pos v 0 \<and> keys v = map rk (rows_of b) \<and> batch_wf nf b | _ \<Rightarrow> True)"

definition inputs_valid ::
  "('k \<Rightarrow> 'k \<Rightarrow> ordering) \<Rightarrow> ('v \<Rightarrow> 'k list) \<Rightarrow> ('v \<Rightarrow> nat \<Rightarrow> bool) \<Rightarrow> ('a, 'e) arrow_ops \<Rightarrow> nat \<Rightarrow>
   ('a list \<Rightarrow> 'k) \<Rightarrow> ('v, 'a, 'e) poll_item list list \<Rightarrow> bool" where
  "inputs_valid kcmp keys pos A nf rk strs \<longleftrightarrow>
     0 < nf \<and> strs \<noteq> [] \<and> length strs \<le> USIZE_MAX \<and>
     (\<forall>items \<in> set strs. (\<forall>it \<in> set items. item_valid keys pos nf rk it) \<and>
        sorted_wrt (\<lambda>x y. kcmp (rk x) (rk y) \<noteq> Greater) (script_rows items)) \<and>
     sum_list (map (script_bytes A) strs) < 2 ^ 64 \<and> sum_list (map length strs) \<le> USIZE_MAX"

definition input_rows :: "('v, 'a, 'e) poll_item list list \<Rightarrow> 'a list list" where
  "input_rows strs = concat (map script_rows strs)"

text \<open>How many rows a run without error emits.\<close>

definition fetched :: "nat option \<Rightarrow> nat \<Rightarrow> nat" where
  "fetched limit n = (case limit of None \<Rightarrow> n | Some f \<Rightarrow> min f n)"

lemma merge_new_fields:
  fixes s :: "('v, 's, 'a, 'e, 'p) merge_state"
  assumes "merge_new strs nf bs limit st res tb = Inr s" "0 < nf"
  shows "0 < bs" "limit \<noteq> Some 0" "builder_ok A (in_progress s)" "length (bb_cursors (in_progress s)) = length strs"
    "bb_fields (in_progress s) = nf" "builder_pending (in_progress s) = []" "bb_batches (in_progress s) = []"
    "i < length strs \<Longrightarrow> builder_rest (in_progress s) i = []"
    "cursors s = replicate (length strs) None" "streams s = strs" "loser_tree s = []" "polls_ok s"
    "batch_size s = bs" "fetch s = limit" "produced s = 0" "prev_cursors s = None \<longleftrightarrow> \<not> tb"
proof -
  obtain b where b: "builder_new nf (length strs) st res = (Inr b :: 'e merge_error + _)"
    and s: "in_progress s = b" "cursors s = replicate (length strs) None" "streams s = strs" "loser_tree s = []"
      "polls_ok s" "batch_size s = bs" "fetch s = limit" "produced s = 0" "prev_cursors s = None \<longleftrightarrow> \<not> tb"
      "0 < bs" "limit \<noteq> Some 0"
    using assms(1) by (auto simp: merge_new_def Let_def polls_ok_def split: if_splits sum.splits)
  obtain v where v: "lookup_reservation st res = Some v"
    using b by (auto simp: builder_new_def reservation_size_def split: option.splits)
  obtain b' where n: "builder_new nf (length strs) st res = (Inr b' :: 'e merge_error + _)" "builder_ok A b'"
      "length (bb_cursors b') = length strs" "builder_pending b' = []" "\<forall>j < length strs. builder_rest b' j = []"
      "bb_fields b' = nf" "bb_batches b' = []"
    using builder_new_ok [OF v assms(2), of "length strs" A] by blast
  then have "b' = b" using b by simp
  then show "builder_ok A (in_progress s)" "length (bb_cursors (in_progress s)) = length strs"
    "bb_fields (in_progress s) = nf" "builder_pending (in_progress s) = []" "bb_batches (in_progress s) = []"
    "i < length strs \<Longrightarrow> builder_rest (in_progress s) i = []"
    using n s(1) by auto
  show "0 < bs" "limit \<noteq> Some 0" "cursors s = replicate (length strs) None" "streams s = strs" "loser_tree s = []"
    "polls_ok s" "batch_size s = bs" "fetch s = limit" "produced s = 0" "prev_cursors s = None \<longleftrightarrow> \<not> tb"
    using s by auto
qed

context cursor_contract
begin

lemma merge_new_inv:
  assumes new: "merge_new strs nf bs limit st res tb = Inr s"
    and ok: "inputs_valid kcmp keys pos A nf rk strs"
  shows "merge_inv A rk (error_source A I strs) s" "all_remaining s = map script_rows strs"
proof -
  have nf: "0 < nf" and items: "\<forall>items \<in> set strs. \<forall>it \<in> set items. item_valid keys pos nf rk it"
    using ok by (auto simp: inputs_valid_def)
  note F = merge_new_fields [OF new nf]
  have "item_ok nf rk (error_source A I strs) it" if "it \<in> set (strs ! i)" "i < length strs" for i it
  proof -
    have "item_valid keys pos nf rk it" "strs ! i \<in> set strs" using items that by auto
    then show ?thesis using that(1) by (cases it) (auto simp: item_valid_def item_ok_def error_source_def)
  qed
  moreover have "live_ok (cursors s)" using F(9) by (auto simp: live_ok_def)
  moreover have "aligned rk s i" if "i < length strs" for i using F that by (simp add: aligned_def)
  moreover have "budget_ok A s"
    using F ok by (simp add: budget_ok_def inputs_valid_def batches_nat_bytes_def outcomes_def)
  ultimately show "merge_inv A rk (error_source A I strs) s"
    using F by (simp add: merge_inv_def merge_core_def)
  show "all_remaining s = map script_rows strs"
    using F by (auto simp: all_remaining_def remaining_def intro!: nth_equalityI)
qed

lemma merge_run:
  assumes A: "arrow_ok A" and ok: "inputs_valid kcmp keys pos A nf rk strs"
    and new: "merge_new strs nf bs limit st res tb = Inr s"
  shows "\<exists>out r lost R'. create_stream CV A I s = Some (out, r) \<and> batches_sized bs out \<and>
    kmerge (row_le rk) (\<not> tb) (map script_rows strs) (emitted out @ lost) R' \<and>
    (case r of
       Inl e \<Rightarrow> error_source A I strs e
     | Inr s' \<Rightarrow> lost = [] \<and> length (emitted out) = fetched limit (length (input_rows strs)))"
proof -
  have nf: "0 < nf" "strs \<noteq> []" "length strs \<le> USIZE_MAX" using ok by (auto simp: inputs_valid_def)
  note F = merge_new_fields [OF new nf(1)] and inv = merge_new_inv [OF new ok]
  have hyps: "0 < length (cursors s)" "length (cursors s) \<le> USIZE_MAX" "0 < batch_size s" "fetch s \<noteq> Some 0"
    using F nf by simp_all
  obtain out r t R' where run: "create_stream CV A I s = Some (out, r)" "batches_sized bs out"
      "kmerge (row_le rk) (\<not> tb) (map script_rows strs) t R'"
      "case r of
         Inl e \<Rightarrow> error_source A I strs e \<and> (\<exists>lost. emitted out @ lost = t)
       | Inr s' \<Rightarrow> emitted out = t \<and>
           (concat R' = [] \<and> (\<forall>f. limit = Some f \<longrightarrow> length t \<le> f) \<or> limit = Some (length t))"
    using create_stream_run [OF A err_closed_source inv(1) F(11,6,15) hyps] unfolding inv(2) F(13,14,16) by blast
  show ?thesis
  proof (cases r)
    case (Inl e)
    then obtain lost where "error_source A I strs e" "emitted out @ lost = t" using run(4) by auto
    then show ?thesis using run Inl by (intro exI [of _ out] exI [of _ r] exI [of _ lost] exI [of _ R']) simp
  next
    case (Inr s')
    have e: "emitted out = t" "concat R' = [] \<and> (\<forall>f. limit = Some f \<longrightarrow> length t \<le> f) \<or> limit = Some (length t)"
      using run(4) Inr by simp_all
    have "length (input_rows strs) = length t + length (concat R')"
      using arg_cong [OF kmerge_mset [OF run(3)], of size] by (simp add: input_rows_def)
    then have "length t = fetched limit (length (input_rows strs))"
      using e(2) by (cases limit) (auto simp: fetched_def simp del: concat_eq_Nil_conv)
    then show ?thesis
      using run e(1) Inr by (intro exI [of _ out] exI [of _ r] exI [of _ "[]"] exI [of _ R']) simp
  qed
qed

end

section \<open>Properties\<close>

text \<open>
  C1. The merge stream sorts.  For every kind of cursor that meets the contract, every pool, every
  interleaving of pending polls and both tie breaking modes, the run ends and returns a result.
  The emitted rows are sorted by key; they are part of the input rows, and no row left out has a
  smaller key than an emitted one; every emitted batch has between one and \<open>batch_size\<close> rows.  If the
  run ends without an error, it emitted all rows, or as many as \<open>fetch\<close> asks for; otherwise the error is
  one an input stream, the memory pool or \<open>interleave\<close> returned: the stream itself neither
  panics nor raises an internal error.
\<close>

theorem merge_stream_sorts:
  assumes "cursor_contract kcmp CV keys pos skey" and "arrow_ok A"
    and "inputs_valid kcmp keys pos A nf rk strs"
    and "merge_new strs nf bs limit st res tb = Inr s"
  shows "\<exists>out r rest. create_stream CV A I s = Some (out, r) \<and>
    sorted_wrt (\<lambda>x y. kcmp (rk x) (rk y) \<noteq> Greater) (emitted out) \<and> batches_sized bs out \<and>
    mset (input_rows strs) = mset (emitted out) + mset rest \<and>
    (\<forall>x \<in> set (emitted out). \<forall>y \<in> set rest. kcmp (rk x) (rk y) \<noteq> Greater) \<and>
    (case r of
       Inl e \<Rightarrow> error_source A I strs e
     | Inr s' \<Rightarrow> length (emitted out) = fetched limit (length (input_rows strs)))"
proof -
  have total: "total_cmp kcmp" using assms(1) by (rule cursor_contract.axioms(1))
  have kle: "total_cmp.kle kcmp = (\<lambda>a b. kcmp a b \<noteq> Greater)"
    using total_cmp.kle_def [OF total] by (simp add: fun_eq_iff)
  obtain out r lost R' where run: "create_stream CV A I s = Some (out, r)" "batches_sized bs out"
      "kmerge (\<lambda>x y. kcmp (rk x) (rk y) \<noteq> Greater) (\<not> tb) (map script_rows strs) (emitted out @ lost) R'"
      "case r of
         Inl e \<Rightarrow> error_source A I strs e
       | Inr s' \<Rightarrow> lost = [] \<and> length (emitted out) = fetched limit (length (input_rows strs))"
    using cursor_contract.merge_run [OF assms(1-4), of I] unfolding kle by blast
  have sorted: "\<forall>l \<in> set (map script_rows strs). sorted_wrt (\<lambda>x y. kcmp (rk x) (rk y) \<noteq> Greater) l"
    using assms(3) by (auto simp: inputs_valid_def)
  have trans: "transp (\<lambda>x y. kcmp (rk x) (rk y) \<noteq> Greater)"
    using total_cmp.kcmp_trans [OF total] by (intro transpI)
  have "sorted_wrt (\<lambda>x y. kcmp (rk x) (rk y) \<noteq> Greater) (emitted out)"
    "\<forall>x \<in> set (emitted out). \<forall>y \<in> set (lost @ concat R'). kcmp (rk x) (rk y) \<noteq> Greater"
    using kmerge_sorted [OF run(3) sorted trans] by (auto simp: sorted_wrt_append)
  moreover have "mset (input_rows strs) = mset (emitted out) + mset (lost @ concat R')"
    using kmerge_mset [OF run(3)] by (simp add: input_rows_def)
  ultimately show ?thesis
    using run(1,2,4) by (intro exI [of _ out] exI [of _ r] exI [of _ "lost @ concat R'"]) (auto split: sum.splits)
qed

text \<open>A small run: two streams of 64 bit keys with a payload column, and an \<open>interleave\<close> that
  overflows on more than \<open>cap\<close> rows, if a cap is given.\<close>

definition demo_arrow :: "nat option \<Rightarrow> (64 word, unit) arrow_ops" where
  "demo_arrow cap = \<lparr>ar_memory_size = (\<lambda>b. 16 * of_nat (rb_num_rows b)),
     ar_interleave = (\<lambda>arrays is. if (case cap of None \<Rightarrow> False | Some n \<Rightarrow> n < length is) then Inl ()
       else Inr (map (\<lambda>(k, r). arrays ! k ! r) is)),
     ar_try_new = (\<lambda>nf cols. Inr \<lparr>rb_columns = cols, rb_num_rows = length (hd cols)\<rparr>),
     ar_is_offset_overflow = (\<lambda>_. True)\<rparr>"

definition demo_item :: "64 word list \<Rightarrow> 64 word list \<Rightarrow> (64 word primitive_values, 64 word, unit) poll_item" where
  "demo_item ks ps = Item_Batch (primitive_new signed_native ks) \<lparr>rb_columns = [ks, ps], rb_num_rows = length ks\<rparr>"

definition demo_streams :: "(64 word primitive_values, 64 word, unit) poll_item list list" where
  "demo_streams =
     [[Item_Pending, demo_item [- 1, 4] [10, 11]], [demo_item [4] [20], Item_Pending, demo_item [7] [30]]]"

definition demo_store :: "unbounded_pool store" where
  "demo_store = snd (register unbounded_impl (store_new \<lparr>ub_used = 0\<rparr>)
     \<lparr>consumer_name = ''merge'', can_spill = False, consumer_id = 0\<rparr>)"

lemma demo_arrow_ok: "arrow_ok (demo_arrow cap)"
proof -
  have "length (hd cols) = n" if "cols \<noteq> []" "\<forall>c \<in> set cols. length c = n" for cols :: "64 word list list" and n
    using that by (cases cols) auto
  then show ?thesis by (auto simp: arrow_ok_def demo_arrow_def split: if_splits)
qed

lemma demo_inputs_valid:
  "inputs_valid (nt_compare signed_native) pv_values primitive_pos (demo_arrow cap) 2 hd demo_streams"
  by (simp add: inputs_valid_def demo_streams_def demo_item_def item_valid_def primitive_pos_def primitive_new_def
      rows_of_def row_of_def batch_wf_def script_rows_def script_bytes_def USIZE_MAX_def signed_native_def
      ord_cmp_def demo_arrow_def Let_def)

lemma demo_merge_new:
  "\<exists>s. merge_new demo_streams 2 2 limit demo_store 0 tb =
     (Inr s :: unit merge_error + (64 word primitive_values, 64 word, 64 word, unit, unbounded_pool) merge_state)"
  if "limit \<noteq> Some 0"
  using that by (simp add: merge_new_def builder_new_def reservation_size_def lookup_reservation_def demo_store_def
      register_def store_new_def Let_def)

lemma demo_contract:
  "cursor_contract (nt_compare signed_native) (primitive_impl signed_native) pv_values primitive_pos (\<lambda>x :: 64 word. x)"
  by (rule signed_int.prim.cursor_contract_axioms)

lemma demo_rows: "input_rows demo_streams = [[- 1, 10], [4, 11], [4, 20], [7, 30]]"
  by (simp add: input_rows_def demo_streams_def demo_item_def script_rows_def rows_of_def row_of_def)

theorem merge_stream_sorts_witness:
  "\<exists>s out r. merge_new demo_streams 2 2 (Some 3) demo_store 0 True = Inr s \<and>
     create_stream (primitive_impl signed_native) (demo_arrow (Some 1)) unbounded_impl s = Some (out, r) \<and>
     sorted_wrt (\<lambda>x y. nt_compare signed_native (hd x) (hd y) \<noteq> Greater) (emitted out) \<and> batches_sized 2 out \<and>
     (\<forall>s'. r = Inr s' \<longrightarrow> length (emitted out) = 3)"
proof -
  obtain s :: "(64 word primitive_values, 64 word, 64 word, unit, unbounded_pool) merge_state"
    where s: "merge_new demo_streams 2 2 (Some 3) demo_store 0 True = Inr s"
    using demo_merge_new [of "Some 3"] by auto
  show ?thesis
    using merge_stream_sorts [OF demo_contract demo_arrow_ok demo_inputs_valid s, of "Some 1" unbounded_impl] s
    by (fastforce simp: demo_rows fetched_def split: sum.splits)
qed

text \<open>
  C2. The merge is stable without the tie breaker.  When the round-robin tie breaker is off, the
  emitted rows are a prefix of the stable sort of the concatenated input streams: rows with equal
  keys come out in the order of their streams and, within a stream, in their order.  A run
  without error emits that sort up to the \<open>fetch\<close> limit.
\<close>

theorem merge_stream_stable:
  assumes "cursor_contract kcmp CV keys pos skey" and "arrow_ok A"
    and "inputs_valid kcmp keys pos A nf rk strs"
    and "merge_new strs nf bs limit st res False = Inr s"
  shows "\<exists>out r. create_stream CV A I s = Some (out, r) \<and>
    emitted out = take (length (emitted out)) (sort_by (\<lambda>x y. kcmp (rk x) (rk y) \<noteq> Greater) (input_rows strs)) \<and>
    (case r of
       Inl e \<Rightarrow> error_source A I strs e
     | Inr s' \<Rightarrow> length (emitted out) = fetched limit (length (input_rows strs)))"
proof -
  have total: "total_cmp kcmp" using assms(1) by (rule cursor_contract.axioms(1))
  have kle: "total_cmp.kle kcmp = (\<lambda>a b. kcmp a b \<noteq> Greater)"
    using total_cmp.kle_def [OF total] by (simp add: fun_eq_iff)
  obtain out r lost R' where run: "create_stream CV A I s = Some (out, r)"
      "kmerge (\<lambda>x y. kcmp (rk x) (rk y) \<noteq> Greater) True (map script_rows strs) (emitted out @ lost) R'"
      "case r of
         Inl e \<Rightarrow> error_source A I strs e
       | Inr s' \<Rightarrow> lost = [] \<and> length (emitted out) = fetched limit (length (input_rows strs))"
    using cursor_contract.merge_run [OF assms(1-4), of I] unfolding kle not_False_eq_True by blast
  have "\<forall>l \<in> set (map script_rows strs). sorted_wrt (\<lambda>x y. kcmp (rk x) (rk y) \<noteq> Greater) l"
    using assms(3) by (auto simp: inputs_valid_def)
  moreover have "transp (\<lambda>x y. kcmp (rk x) (rk y) \<noteq> Greater)"
    using total_cmp.kcmp_trans [OF total] by (intro transpI)
  ultimately have "sort_by (\<lambda>x y. kcmp (rk x) (rk y) \<noteq> Greater) (input_rows strs) =
      (emitted out @ lost) @ sort_by (\<lambda>x y. kcmp (rk x) (rk y) \<noteq> Greater) (concat R')"
    unfolding input_rows_def by (rule kmerge_stable [OF run(2)])
  then show ?thesis using run(1,3) by (auto split: sum.splits)
qed

theorem merge_stream_stable_witness:
  "\<exists>s out r. merge_new demo_streams 2 2 None demo_store 0 False = Inr s \<and>
     create_stream (primitive_impl signed_native) (demo_arrow (Some 5)) unbounded_impl s = Some (out, r) \<and>
     (\<forall>s'. r = Inr s' \<longrightarrow> emitted out = [[- 1, 10], [4, 11], [4, 20], [7, 30]])"
proof -
  obtain s :: "(64 word primitive_values, 64 word, 64 word, unit, unbounded_pool) merge_state"
    where s: "merge_new demo_streams 2 2 None demo_store 0 False = Inr s"
    using demo_merge_new [of None] by auto
  obtain out r where "create_stream (primitive_impl signed_native) (demo_arrow (Some 5)) unbounded_impl s = Some (out, r)"
    "emitted out = take (length (emitted out)) (sort_by (\<lambda>x y. nt_compare signed_native (hd x) (hd y) \<noteq> Greater)
       (input_rows demo_streams))"
    "case r of Inl e \<Rightarrow> error_source (demo_arrow (Some 5)) unbounded_impl demo_streams e
     | Inr s' \<Rightarrow> length (emitted out) = fetched None (length (input_rows demo_streams))"
    using merge_stream_stable [OF demo_contract demo_arrow_ok demo_inputs_valid s] by blast
  then show ?thesis
    using s by (intro exI [of _ s] exI [of _ out] exI [of _ r])
      (auto simp: demo_rows fetched_def signed_native_def ord_cmp_def)
qed

text \<open>
  C3. The merge completes.  When no input stream fails, the pool grants every request and
  \<open>interleave\<close> never fails, the run ends without an error; without a \<open>fetch\<close> limit every input row is
  emitted exactly once, with a limit the given number of rows, or all of them if there are fewer.
\<close>

theorem merge_stream_completes:
  assumes "cursor_contract kcmp CV keys pos skey" and "arrow_ok A"
    and "inputs_valid kcmp keys pos A nf rk strs"
    and "merge_new strs nf bs limit st res tb = Inr s"
    and "\<forall>items \<in> set strs. \<forall>e. Item_Error e \<notin> set items"
    and "\<forall>p r n. \<not> isl (mp_try_grow I p r n)" and "\<forall>arrays is. \<not> isl (ar_interleave A arrays is)"
  shows "\<exists>out s'. create_stream CV A I s = Some (out, Inr s') \<and>
    mset (emitted out) \<subseteq># mset (input_rows strs) \<and>
    length (emitted out) = fetched limit (length (input_rows strs))"
proof -
  have "\<not> error_source A I strs e" for e
  proof
    assume "error_source A I strs e"
    then consider a arrays "is" where "ar_interleave A arrays is = Inl a" | p r n d where "mp_try_grow I p r n = Inl d"
      | items where "items \<in> set strs" "Item_Error e \<in> set items"
      by (auto simp: error_source_def interleave_error_def)
    then show False using assms(5-7) by (cases; metis sum.disc(1))
  qed
  moreover obtain out r lost R' where run: "create_stream CV A I s = Some (out, r)"
      "kmerge (\<lambda>x y. total_cmp.kle kcmp (rk x) (rk y)) (\<not> tb) (map script_rows strs) (emitted out @ lost) R'"
      "case r of
         Inl e \<Rightarrow> error_source A I strs e
       | Inr s' \<Rightarrow> lost = [] \<and> length (emitted out) = fetched limit (length (input_rows strs))"
    using cursor_contract.merge_run [OF assms(1-4), of I] by blast
  ultimately obtain s' where r: "r = Inr s'" "length (emitted out) = fetched limit (length (input_rows strs))"
    by (cases r) auto
  have "mset (input_rows strs) = mset (emitted out) + mset (lost @ concat R')"
    using kmerge_mset [OF run(2)] by (simp add: input_rows_def)
  then have "mset (emitted out) \<subseteq># mset (input_rows strs)" by simp
  then show ?thesis using run(1) r by auto
qed

theorem merge_stream_completes_witness:
  "\<exists>s out s'. merge_new demo_streams 2 2 None demo_store 0 True = Inr s \<and>
     create_stream (primitive_impl signed_native) (demo_arrow None) unbounded_impl s = Some (out, Inr s') \<and> length (emitted out) = 4"
proof -
  obtain s :: "(64 word primitive_values, 64 word, 64 word, unit, unbounded_pool) merge_state"
    where s: "merge_new demo_streams 2 2 None demo_store 0 True = Inr s"
    using demo_merge_new [of None] by auto
  have "\<forall>items \<in> set demo_streams. \<forall>e. Item_Error e \<notin> set items"
    by (simp add: demo_streams_def demo_item_def)
  moreover have "\<forall>p r n. \<not> isl (mp_try_grow unbounded_impl p r n)"
    by (simp add: unbounded_defs)
  moreover have "\<forall>arrays is. \<not> isl (ar_interleave (demo_arrow None) arrays is)" by (simp add: demo_arrow_def)
  ultimately obtain out s' where "create_stream (primitive_impl signed_native) (demo_arrow None) unbounded_impl s = Some (out, Inr s')"
      "length (emitted out) = fetched None (length (input_rows demo_streams))"
    using merge_stream_completes [OF demo_contract demo_arrow_ok demo_inputs_valid s, of unbounded_impl None] by blast
  then show ?thesis using s by (intro exI [of _ s] exI [of _ out] exI [of _ s']) (simp add: demo_rows fetched_def)
qed

text \<open>
  A merge of no streams at all panics: the loser tree is empty and its root is read before any
  check.  The callers build a merge only for at least one stream.
\<close>

theorem merge_no_streams_panics:
  assumes "merge_new [] nf bs limit st res tb = Inr s"
  shows "create_stream CV A I s = Some ([], Inl Merge_Panic)"
proof -
  have s: "streams s = []" "cursors s = []" "loser_tree s = []"
    using assms by (auto simp: merge_new_def Let_def split: if_splits sum.splits)
  have "await_initialized A I s [] = Inr ([], s)"
    using s by (simp add: await_initialized.simps [of A I s] initialize_all_partitions_def initialize_loop.simps [of A I s])
  moreover have "init_loser_tree CV s = Some s" using s by (simp add: init_loser_tree_def)
  moreover have "merge_loop CV A I s = Some ([], Inl Merge_Panic)"
    using s by (simp add: merge_loop.simps [of CV A I s] is_exhausted_def vec_get_def)
  ultimately show ?thesis using s(1) by (simp add: create_stream_def)
qed

theorem merge_no_streams_panics_witness:
  "\<exists>s. merge_new [] 1 8 None demo_store 0 False = Inr s \<and>
     create_stream (primitive_impl (signed_native :: 64 word native_ops)) (demo_arrow (Some 5)) unbounded_impl s =
       Some ([], Inl Merge_Panic)"
proof -
  obtain s :: "(64 word primitive_values, 64 word, 64 word, unit, unbounded_pool) merge_state"
    where s: "merge_new [] 1 8 None demo_store 0 False = Inr s"
    by (simp add: merge_new_def builder_new_def reservation_size_def lookup_reservation_def demo_store_def
      register_def store_new_def Let_def)
  show ?thesis by (intro exI [of _ s] conjI s merge_no_streams_panics [OF s])
qed

end
