(* ===== verification/Cursor_Stream.thy ===== *)
theory Cursor_Stream
  imports Merge_Correct
begin

text \<open>
  The streams of cursors that feed the merge, and the incremental sort, of
  \<open>physical-plan/src/sorts/stream.rs\<close>.  An input stream is the list of what its polls return; a
  finished stream keeps returning \<open>None\<close>.  Evaluation of expressions, the row format, sorting and
  taking of rows are operations of other crates and parameters here.  A failed index or \<open>expect\<close>
  is the error \<open>Merge_Panic\<close>.
\<close>

section \<open>Fused streams\<close>

datatype ('a, 'e) batch_poll =
  Poll_Wait
| Poll_Batch "'a record_batch"
| Poll_Fail "'e merge_error"

datatype ('b, 'e) polled =
  Polled_Pending
| Polled_None
| Polled_Err "'e merge_error"
| Polled_Ok 'b

text \<open>
  The loop of \<open>FusedStreams::poll_next\<close>: empty batches are skipped; a finished or failed stream is
  replaced by an empty one.
\<close>

fun fused_poll :: "('a, 'e) batch_poll list \<Rightarrow> ('a record_batch, 'e) polled \<times> ('a, 'e) batch_poll list" where
  "fused_poll [] = (Polled_None, [])"
| "fused_poll (Poll_Wait # rest) = (Polled_Pending, rest)"
| "fused_poll (Poll_Batch b # rest) =
     (if rb_num_rows b = 0 then fused_poll rest else (Polled_Ok b, rest))"
| "fused_poll (Poll_Fail e # rest) = (Polled_Err e, [])"

definition fused_poll_next ::
  "('a, 'e) batch_poll list list \<Rightarrow> nat
   \<Rightarrow> (('a record_batch, 'e) polled \<times> ('a, 'e) batch_poll list list) option" where
  "fused_poll_next strs stream_idx = do {
     items \<leftarrow> vec_get strs stream_idx;
     let (r, rest) = fused_poll items;
     Some (r, strs[stream_idx := rest]) }"

section \<open>Reusable rows\<close>

text \<open>What the code uses of the row format of arrow; a buffer keeps its capacity when cleared.\<close>

record ('c, 'r, 'x, 'a, 'e) row_ops =
  ro_eval :: "'a record_batch \<Rightarrow> 'e + 'x"
  ro_append :: "'c \<Rightarrow> 'r \<Rightarrow> 'x \<Rightarrow> 'e + 'c \<times> 'r"
  ro_clear :: "'r \<Rightarrow> 'r"
  ro_empty :: "'c \<Rightarrow> 'r"
  ro_size :: "'r \<Rightarrow> usize"
  ro_content :: "'r \<Rightarrow> byte list list"
  ro_converter_size :: "'c \<Rightarrow> usize"

record 'r reusable_rows =
  rr_inner :: "'r option list"
  rr_reserved_sizes :: "usize list"
  rr_reservation :: nat

text \<open>
  \<open>take_next\<close>.  The argument \<open>held\<close> says whether the consumer still owns a handle to the buffer, in
  which case \<open>Arc::try_unwrap\<close> fails.
\<close>

definition take_next ::
  "('c, 'r, 'x, 'a, 'e) row_ops \<Rightarrow> bool \<Rightarrow> 'r reusable_rows \<Rightarrow> nat \<Rightarrow> 'c
   \<Rightarrow> ('e merge_error + 'r) \<times> 'r reusable_rows" where
  "take_next RO held rr stream_idx converter =
     (case vec_get (rr_inner rr) stream_idx of
        None \<Rightarrow> (Inl Merge_Panic, rr)
      | Some slot \<Rightarrow>
          (let rr' = rr\<lparr>rr_inner := (rr_inner rr)[stream_idx := None]\<rparr>
           in case slot of
                Some rows \<Rightarrow>
                  if held
                  then (Inl (Merge_Internal ''Rows from RowCursorStream is still in use by consumer''), rr')
                  else (Inr rows, rr')
              | None \<Rightarrow> (Inr (ro_empty RO converter), rr')))"

definition release ::
  "'p memory_pool_impl \<Rightarrow> 'p store \<Rightarrow> 'r reusable_rows \<Rightarrow> nat
   \<Rightarrow> 'e merge_error + 'p store \<times> 'r reusable_rows" where
  "release I s rr stream_idx =
     (case (vec_set (rr_inner rr) stream_idx None, vec_get (rr_reserved_sizes rr) stream_idx) of
        (Some inner, Some reserved) \<Rightarrow>
          (let rr' = rr\<lparr>rr_inner := inner,
                        rr_reserved_sizes := (rr_reserved_sizes rr)[stream_idx := 0]\<rparr>
           in case reservation_size s (rr_reservation rr) of
                Inl e \<Rightarrow> Inl (Pool_Error e)
              | Inr sz \<Rightarrow>
                  (case resize I s (rr_reservation rr) (sz - reserved) of
                     Inl e \<Rightarrow> Inl (Pool_Error e)
                   | Inr s' \<Rightarrow> Inr (s', rr')))
      | _ \<Rightarrow> Inl Merge_Panic)"

definition save ::
  "'p memory_pool_impl \<Rightarrow> ('c, 'r, 'x, 'a, 'e) row_ops \<Rightarrow> 'p store \<Rightarrow> 'r reusable_rows \<Rightarrow> nat \<Rightarrow> 'r
   \<Rightarrow> ('e merge_error + unit) \<times> 'p store \<times> 'r reusable_rows" where
  "save I RO s rr stream_idx rows =
     (let size = ro_size RO rows
      in case (reservation_size s (rr_reservation rr), vec_get (rr_reserved_sizes rr) stream_idx) of
           (Inr sz, Some reserved) \<Rightarrow>
             (let retained = sz - reserved + size
              in case try_resize I s (rr_reservation rr) retained of
                   Inl e \<Rightarrow>
                     (case release I s rr stream_idx of
                        Inl p \<Rightarrow> (Inl p, s, rr)
                      | Inr (s', rr') \<Rightarrow> (Inl (Pool_Error e), s', rr'))
                 | Inr s' \<Rightarrow>
                     (case vec_set (rr_inner rr) stream_idx (Some rows) of
                        None \<Rightarrow> (Inl Merge_Panic, s', rr)
                      | Some inner \<Rightarrow>
                          (Inr (), s',
                           rr\<lparr>rr_inner := inner,
                              rr_reserved_sizes := (rr_reserved_sizes rr)[stream_idx := size]\<rparr>)))
         | (Inl e, _) \<Rightarrow> (Inl (Pool_Error e), s, rr)
         | (_, None) \<Rightarrow> (Inl Merge_Panic, s, rr))"

definition retained_size :: "('c, 'r, 'x, 'a, 'e) row_ops \<Rightarrow> 'r reusable_rows \<Rightarrow> usize" where
  "retained_size RO rr =
     sum_list (map (ro_size RO) (List.map_filter (\<lambda>slot. slot) (rr_inner rr)))"

section \<open>Row cursors\<close>

record ('c, 'r, 'a, 'e, 'p) row_cursor_stream =
  rcs_converter :: 'c
  rcs_streams :: "('a, 'e) batch_poll list list"
  rcs_store :: "'p store"
  rcs_reservation :: nat
  rcs_rows :: "'r reusable_rows"

text \<open>\<open>try_new\<close>, with the result of building the converter from the sort fields.\<close>

definition row_cursor_try_new ::
  "'e + 'c \<Rightarrow> ('a, 'e) batch_poll list list \<Rightarrow> 'p store \<Rightarrow> nat
   \<Rightarrow> 'e merge_error + ('c, 'r, 'a, 'e, 'p) row_cursor_stream" where
  "row_cursor_try_new conv strs s reservation =
     (case conv of
        Inl e \<Rightarrow> Inl (Arrow_Error e)
      | Inr converter \<Rightarrow>
          (let stream_count = length strs
           in case new_empty s reservation of
                Inl e \<Rightarrow> Inl (Pool_Error e)
              | Inr (rows_reservation, s') \<Rightarrow>
                  Inr \<lparr> rcs_converter = converter, rcs_streams = strs, rcs_store = s',
                        rcs_reservation = reservation,
                        rcs_rows = \<lparr> rr_inner = replicate stream_count None,
                                     rr_reserved_sizes = replicate stream_count 0,
                                     rr_reservation = rows_reservation \<rparr> \<rparr>))"

text \<open>\<open>convert_batch\<close>: the cursor values and the empty reservation they are handed.\<close>

definition row_convert_batch ::
  "'p memory_pool_impl \<Rightarrow> ('c, 'r, 'x, 'a, 'e) row_ops \<Rightarrow> bool
   \<Rightarrow> ('c, 'r, 'a, 'e, 'p) row_cursor_stream \<Rightarrow> 'a record_batch \<Rightarrow> nat
   \<Rightarrow> ('e merge_error + row_values \<times> nat) \<times> ('c, 'r, 'a, 'e, 'p) row_cursor_stream" where
  "row_convert_batch I RO held st batch stream_idx =
     (case ro_eval RO batch of
        Inl e \<Rightarrow> (Inl (Arrow_Error e), st)
      | Inr cols \<Rightarrow>
          (case take_next RO held (rcs_rows st) stream_idx (rcs_converter st) of
             (Inl e, rr) \<Rightarrow> (Inl e, st\<lparr>rcs_rows := rr\<rparr>)
           | (Inr rows0, rr) \<Rightarrow>
               (case ro_append RO (rcs_converter st) (ro_clear RO rows0) cols of
                  Inl e \<Rightarrow> (Inl (Arrow_Error e), st\<lparr>rcs_rows := rr\<rparr>)
                | Inr (c, rows) \<Rightarrow>
                    (let st1 = st\<lparr>rcs_converter := c, rcs_rows := rr\<rparr>
                     in case try_resize I (rcs_store st1) (rcs_reservation st1) (ro_converter_size RO c) of
                          Inl e \<Rightarrow> (Inl (Pool_Error e), st1)
                        | Inr s1 \<Rightarrow>
                            (case save I RO s1 rr stream_idx rows of
                               (Inl e, s2, rr2) \<Rightarrow> (Inl e, st1\<lparr>rcs_store := s2, rcs_rows := rr2\<rparr>)
                             | (Inr _, s2, rr2) \<Rightarrow>
                                 (case new_empty s2 (rcs_reservation st1) of
                                    Inl e \<Rightarrow> (Inl (Pool_Error e), st1\<lparr>rcs_store := s2, rcs_rows := rr2\<rparr>)
                                  | Inr (j, s3) \<Rightarrow>
                                      (let st3 = st1\<lparr>rcs_store := s3, rcs_rows := rr2\<rparr>
                                       in case row_values_new (ro_content RO rows) (ro_size RO rows) 0 of
                                            None \<Rightarrow> (Inl Merge_Panic, st3)
                                          | Some v \<Rightarrow> (Inr (v, j), st3))))))))"

definition row_poll_next ::
  "'p memory_pool_impl \<Rightarrow> ('c, 'r, 'x, 'a, 'e) row_ops \<Rightarrow> bool
   \<Rightarrow> ('c, 'r, 'a, 'e, 'p) row_cursor_stream \<Rightarrow> nat
   \<Rightarrow> (row_values \<times> nat \<times> 'a record_batch, 'e) polled \<times> ('c, 'r, 'a, 'e, 'p) row_cursor_stream" where
  "row_poll_next I RO held st stream_idx =
     (case fused_poll_next (rcs_streams st) stream_idx of
        None \<Rightarrow> (Polled_Err Merge_Panic, st)
      | Some (p, strs) \<Rightarrow>
          (let st1 = st\<lparr>rcs_streams := strs\<rparr>
           in case p of
                Polled_Pending \<Rightarrow> (Polled_Pending, st1)
              | Polled_None \<Rightarrow>
                  (case release I (rcs_store st1) (rcs_rows st1) stream_idx of
                     Inl e \<Rightarrow> (Polled_Err e, st1)
                   | Inr (s, rr) \<Rightarrow> (Polled_None, st1\<lparr>rcs_store := s, rcs_rows := rr\<rparr>))
              | Polled_Err e \<Rightarrow> (Polled_Err e, st1)
              | Polled_Ok batch \<Rightarrow>
                  (case row_convert_batch I RO held st1 batch stream_idx of
                     (Inl e, st2) \<Rightarrow> (Polled_Err e, st2)
                   | (Inr (v, j), st2) \<Rightarrow> (Polled_Ok (v, j, batch), st2))))"

definition row_partitions :: "('c, 'r, 'a, 'e, 'p) row_cursor_stream \<Rightarrow> nat" where
  "row_partitions st = length (rcs_streams st)"

section \<open>Field cursors\<close>

text \<open>Evaluation of the sort expression to an array, and what the code reads of the array.\<close>

record ('x, 'v, 'a, 'e) field_ops =
  fo_eval :: "'a record_batch \<Rightarrow> 'e + 'x"
  fo_buffer_memory_size :: "'x \<Rightarrow> usize"
  fo_downcast :: "'x \<Rightarrow> 'v option"
  fo_len :: "'x \<Rightarrow> nat"
  fo_null_count :: "'x \<Rightarrow> nat"
  fo_options :: sort_options

record ('a, 'e, 'p) field_cursor_stream =
  fcs_streams :: "('a, 'e) batch_poll list list"
  fcs_store :: "'p store"
  fcs_reservation :: nat

definition field_cursor_new ::
  "('a, 'e) batch_poll list list \<Rightarrow> 'p store \<Rightarrow> nat \<Rightarrow> ('a, 'e, 'p) field_cursor_stream" where
  "field_cursor_new strs s reservation =
     \<lparr> fcs_streams = strs, fcs_store = s, fcs_reservation = reservation \<rparr>"

text \<open>A reservation that cannot grow is dropped again by the early return.\<close>

definition field_convert_batch ::
  "'p memory_pool_impl \<Rightarrow> ('x, 'v, 'a, 'e) field_ops \<Rightarrow> ('a, 'e, 'p) field_cursor_stream \<Rightarrow> 'a record_batch
   \<Rightarrow> ('e merge_error + 'v array_values \<times> nat) \<times> ('a, 'e, 'p) field_cursor_stream" where
  "field_convert_batch I FO st batch =
     (case fo_eval FO batch of
        Inl e \<Rightarrow> (Inl (Arrow_Error e), st)
      | Inr array \<Rightarrow>
          (let size_in_mem = fo_buffer_memory_size FO array
           in case fo_downcast FO array of
                None \<Rightarrow> (Inl Merge_Panic, st)
              | Some values \<Rightarrow>
                  (case new_empty (fcs_store st) (fcs_reservation st) of
                     Inl e \<Rightarrow> (Inl (Pool_Error e), st)
                   | Inr (j, s1) \<Rightarrow>
                       (case try_grow I s1 j size_in_mem of
                          Inl e \<Rightarrow>
                            (case drop_reservation I s1 j of
                               Inl p \<Rightarrow> (Inl Merge_Panic, st\<lparr>fcs_store := s1\<rparr>)
                             | Inr s2 \<Rightarrow> (Inl (Pool_Error e), st\<lparr>fcs_store := s2\<rparr>))
                        | Inr s2 \<Rightarrow>
                            (case array_values_new (fo_options FO) (fo_len FO array)
                                    (fo_null_count FO array) values of
                               None \<Rightarrow> (Inl Merge_Panic, st\<lparr>fcs_store := s2\<rparr>)
                             | Some v \<Rightarrow> (Inr (v, j), st\<lparr>fcs_store := s2\<rparr>))))))"

definition field_poll_next ::
  "'p memory_pool_impl \<Rightarrow> ('x, 'v, 'a, 'e) field_ops \<Rightarrow> ('a, 'e, 'p) field_cursor_stream \<Rightarrow> nat
   \<Rightarrow> ('v array_values \<times> nat \<times> 'a record_batch, 'e) polled \<times> ('a, 'e, 'p) field_cursor_stream" where
  "field_poll_next I FO st stream_idx =
     (case fused_poll_next (fcs_streams st) stream_idx of
        None \<Rightarrow> (Polled_Err Merge_Panic, st)
      | Some (p, strs) \<Rightarrow>
          (let st1 = st\<lparr>fcs_streams := strs\<rparr>
           in case p of
                Polled_Pending \<Rightarrow> (Polled_Pending, st1)
              | Polled_None \<Rightarrow> (Polled_None, st1)
              | Polled_Err e \<Rightarrow> (Polled_Err e, st1)
              | Polled_Ok batch \<Rightarrow>
                  (case field_convert_batch I FO st1 batch of
                     (Inl e, st2) \<Rightarrow> (Polled_Err e, st2)
                   | (Inr (v, j), st2) \<Rightarrow> (Polled_Ok (v, j, batch), st2))))"

section \<open>Incremental sort\<close>

text \<open>
  What the iterator uses of arrow: the sort columns and their \<open>lexsort_to_indices\<close>, \<open>take\<close>, and the
  empty batch of a schema.
\<close>

record ('b, 'e) sort_ops =
  so_num_rows :: "'b \<Rightarrow> nat"
  so_sort_indices :: "'b \<Rightarrow> 'e + nat list"
  so_take :: "'b \<Rightarrow> nat list \<Rightarrow> 'e + 'b"
  so_new_empty :: "'b \<Rightarrow> 'b"

record 'b sort_iterator =
  si_batch :: 'b
  si_batch_size :: nat
  si_indices :: "nat list option"
  si_cursor :: nat

definition sort_iterator_new :: "'b \<Rightarrow> nat \<Rightarrow> 'b sort_iterator" where
  "sort_iterator_new batch bsize =
     \<lparr> si_batch = batch, si_batch_size = bsize, si_indices = None, si_cursor = 0 \<rparr>"

text \<open>The branch of \<open>next\<close> with the indices at hand.\<close>

definition sort_iterator_chunk ::
  "('b, 'e) sort_ops \<Rightarrow> 'b sort_iterator \<Rightarrow> nat list \<Rightarrow> ('e + 'b) option \<times> 'b sort_iterator" where
  "sort_iterator_chunk S it indices =
     (let n = so_num_rows S (si_batch it);
          bsize = min (si_batch_size it) (n - si_cursor it);
          new_batch_indices = take bsize (drop (si_cursor it) indices)
      in case so_take S (si_batch it) new_batch_indices of
           Inl e \<Rightarrow> (Some (Inl e), it)
         | Inr new_batch \<Rightarrow>
             (let it1 = it\<lparr>si_cursor := si_cursor it + bsize\<rparr>;
                  it2 = (if n \<le> si_cursor it1
                         then it1\<lparr>si_batch := so_new_empty S (si_batch it), si_indices := None\<rparr>
                         else it1)
              in (Some (Inr new_batch), it2)))"

definition sort_iterator_next ::
  "('b, 'e) sort_ops \<Rightarrow> 'b sort_iterator \<Rightarrow> ('e + 'b) option \<times> 'b sort_iterator" where
  "sort_iterator_next S it =
     (if so_num_rows S (si_batch it) \<le> si_cursor it then (None, it)
      else case si_indices it of
             None \<Rightarrow>
               (case so_sort_indices S (si_batch it) of
                  Inl e \<Rightarrow> (Some (Inl e), it)
                | Inr indices \<Rightarrow> sort_iterator_chunk S (it\<lparr>si_indices := Some indices\<rparr>) indices)
           | Some indices \<Rightarrow> sort_iterator_chunk S it indices)"


section \<open>Fused streams return the batches that have rows\<close>

text \<open>The rows a stream still returns, up to its first failure.\<close>

fun stream_rows :: "('a, 'e) batch_poll list \<Rightarrow> 'a list list" where
  "stream_rows [] = []"
| "stream_rows (Poll_Wait # rest) = stream_rows rest"
| "stream_rows (Poll_Batch b # rest) = rows_of b @ stream_rows rest"
| "stream_rows (Poll_Fail e # rest) = []"

lemma fused_poll_cases:
  assumes "fused_poll items = (r, rest)"
  shows "case r of
      Polled_Ok b \<Rightarrow> 0 < rb_num_rows b \<and> Poll_Batch b \<in> set items \<and> set rest \<subseteq> set items
        \<and> stream_rows items = rows_of b @ stream_rows rest
    | Polled_None \<Rightarrow> rest = [] \<and> stream_rows items = []
    | Polled_Err e \<Rightarrow> rest = [] \<and> Poll_Fail e \<in> set items \<and> stream_rows items = []
    | Polled_Pending \<Rightarrow> stream_rows items = stream_rows rest \<and> set rest \<subseteq> set items"
  using assms
proof (induction items arbitrary: r rest rule: fused_poll.induct)
  case (3 b items)
  show ?case
  proof (cases "rb_num_rows b = 0")
    case True
    then have "rows_of b = []" by (simp add: rows_of_def)
    then show ?thesis using 3 True by (auto split: polled.splits)
  next
    case False
    then show ?thesis using 3(2) by auto
  qed
qed auto

section \<open>The accounting of the reused buffers\<close>

lemma grow_result:
  assumes "lookup_reservation s i = Some v"
  shows "\<exists>t. grow I s i n = Inr t \<and> lookup_reservation t i = Some (v\<lparr>rsv_size := rsv_size v + n\<rparr>)
    \<and> (\<forall>j. j \<noteq> i \<longrightarrow> lookup_reservation t j = lookup_reservation s j)"
  using assms lookup_reservationD(1) [OF assms]
  by (simp add: grow_def lookup_reservation_def)

lemma lookup_put_other:
  "j \<noteq> i \<Longrightarrow> lookup_reservation (put_reservation s i v) j = lookup_reservation s j"
  by (simp add: lookup_reservation_def put_reservation_def)

lemma shrink_result:
  assumes "lookup_reservation s i = Some v" and "n \<le> rsv_size v"
  shows "\<exists>t. shrink I s i n = Inr t \<and> lookup_reservation t i = Some (v\<lparr>rsv_size := rsv_size v - n\<rparr>)
    \<and> (\<forall>j. j \<noteq> i \<longrightarrow> lookup_reservation t j = lookup_reservation s j)"
  using assms
  by (simp add: shrink_def try_sub_size_def checked_sub_def lookup_put_other)

lemma resize_result:
  assumes "lookup_reservation s i = Some v"
  shows "\<exists>t. resize I s i n = Inr t \<and> lookup_reservation t i = Some (v\<lparr>rsv_size := n\<rparr>)
    \<and> (\<forall>j. j \<noteq> i \<longrightarrow> lookup_reservation t j = lookup_reservation s j)"
proof -
  have sz: "reservation_size s i = Inr (rsv_size v)" using assms by (simp add: reservation_size_def)
  consider "rsv_size v < n" | "n < rsv_size v" | "n = rsv_size v" by fastforce
  then show ?thesis
  proof cases
    case 1
    then show ?thesis using grow_result [OF assms, of I "n - rsv_size v"] sz by (simp add: resize_def)
  next
    case 2
    have "rsv_size v - n \<le> rsv_size v" using 2 by (simp add: word_sub_le)
    then show ?thesis using shrink_result [OF assms, of "rsv_size v - n" I] 2 sz by (auto simp: resize_def)
  next
    case 3
    then show ?thesis using sz assms by (simp add: resize_def)
  qed
qed

lemma try_resize_result:
  assumes v: "lookup_reservation s i = Some v" and t: "try_resize I s i n = Inr t"
  shows "lookup_reservation t i = Some (v\<lparr>rsv_size := n\<rparr>)"
    and "j \<noteq> i \<Longrightarrow> lookup_reservation t j = lookup_reservation s j"
proof -
  have sz: "reservation_size s i = Inr (rsv_size v)" using v by (simp add: reservation_size_def)
  have "lookup_reservation t i = Some (v\<lparr>rsv_size := n\<rparr>) \<and>
      (\<forall>j. j \<noteq> i \<longrightarrow> lookup_reservation t j = lookup_reservation s j)"
  proof (cases "n = rsv_size v")
    case True
    then show ?thesis using t sz v by (simp add: try_resize_def)
  next
    case False
    then show ?thesis
      using t v sz
      by (auto simp: try_resize_def try_grow_def try_shrink_def try_sub_size_def checked_sub_def
          lookup_put_other split: if_splits sum.splits option.splits)
  qed
  then show "lookup_reservation t i = Some (v\<lparr>rsv_size := n\<rparr>)"
    and "j \<noteq> i \<Longrightarrow> lookup_reservation t j = lookup_reservation s j" by auto
qed

text \<open>
  The balance of the buffers: each stream has its slot and its charge, and the charges add up to
  the size of the reservation, as the comment of the type says.
\<close>

definition rows_balanced :: "'p store \<Rightarrow> 'r reusable_rows \<Rightarrow> nat \<Rightarrow> bool" where
  "rows_balanced s rr n \<longleftrightarrow>
     length (rr_inner rr) = n \<and> length (rr_reserved_sizes rr) = n
     \<and> reservation_size s (rr_reservation rr) = Inr (sum_list (rr_reserved_sizes rr))"

lemma reservation_size_eq_Inr: "reservation_size s i = Inr n \<longleftrightarrow> (\<exists>v. lookup_reservation s i = Some v \<and> rsv_size v = n)"
  by (auto simp: reservation_size_def split: option.splits)

lemma release_balanced:
  fixes s :: "'p store" and rr :: "'r reusable_rows"
  assumes b: "rows_balanced s rr n" and i: "i < n"
  shows "\<exists>s' rr'. (release I s rr i :: 'e merge_error + _) = Inr (s', rr') \<and> rows_balanced s' rr' n
    \<and> rr_reservation rr' = rr_reservation rr \<and> rr_inner rr' ! i = None \<and> rr_reserved_sizes rr' ! i = 0
    \<and> (\<forall>j. j \<noteq> rr_reservation rr \<longrightarrow> lookup_reservation s' j = lookup_reservation s j)"
proof -
  obtain v where v: "lookup_reservation s (rr_reservation rr) = Some v"
    "rsv_size v = sum_list (rr_reserved_sizes rr)"
    using b by (auto simp: rows_balanced_def reservation_size_eq_Inr)
  have len: "i < length (rr_inner rr)" "i < length (rr_reserved_sizes rr)"
    using b i by (auto simp: rows_balanced_def)
  obtain t where t: "resize I s (rr_reservation rr) (rsv_size v - rr_reserved_sizes rr ! i) = Inr t"
      "lookup_reservation t (rr_reservation rr)
        = Some (v\<lparr>rsv_size := rsv_size v - rr_reserved_sizes rr ! i\<rparr>)"
      "\<forall>j. j \<noteq> rr_reservation rr \<longrightarrow> lookup_reservation t j = lookup_reservation s j"
    using resize_result [OF v(1)] by blast
  let ?rr = "rr\<lparr>rr_inner := (rr_inner rr)[i := None], rr_reserved_sizes := (rr_reserved_sizes rr)[i := 0]\<rparr>"
  have rel: "(release I s rr i :: 'e merge_error + _) = Inr (t, ?rr)"
    using len v(1) t(1) by (simp add: release_def reservation_size_def)
  have "rows_balanced t ?rr n"
    using b t(2) v(2) len(2) by (simp add: rows_balanced_def reservation_size_def sum_list_update)
  then show ?thesis using rel t(3) len by (intro exI [of _ t] exI [of _ ?rr]) simp
qed

lemma save_balanced:
  fixes s :: "'p store" and RO :: "('c, 'r, 'x, 'a, 'e) row_ops"
  assumes b: "rows_balanced s rr n" and i: "i < n" and save: "save I RO s rr i rows = (r, s', rr')"
  shows "rows_balanced s' rr' n \<and> rr_reservation rr' = rr_reservation rr
    \<and> (\<forall>j. j \<noteq> rr_reservation rr \<longrightarrow> lookup_reservation s' j = lookup_reservation s j)
    \<and> (case r of
         Inr _ \<Rightarrow> rr_inner rr' ! i = Some rows \<and> rr_reserved_sizes rr' ! i = ro_size RO rows
       | Inl e \<Rightarrow> e \<noteq> Merge_Panic)"
proof -
  obtain v where v: "lookup_reservation s (rr_reservation rr) = Some v"
    "rsv_size v = sum_list (rr_reserved_sizes rr)"
    using b by (auto simp: rows_balanced_def reservation_size_eq_Inr)
  have len: "i < length (rr_inner rr)" "i < length (rr_reserved_sizes rr)"
    using b i by (auto simp: rows_balanced_def)
  let ?n = "rsv_size v - rr_reserved_sizes rr ! i + ro_size RO rows"
  show ?thesis
  proof (cases "try_resize I s (rr_reservation rr) ?n")
    case (Inl e)
    obtain t rr2 where rel: "release I s rr i = (Inr (t, rr2) :: 'e merge_error + 'p store \<times> 'r reusable_rows)"
        "rows_balanced t rr2 n" "rr_reservation rr2 = rr_reservation rr"
        "\<forall>j. j \<noteq> rr_reservation rr \<longrightarrow> lookup_reservation t j = lookup_reservation s j"
      using release_balanced [OF b i] by blast
    then show ?thesis
      using save Inl v(1) len by (auto simp: save_def Let_def reservation_size_def)
  next
    case (Inr t)
    note R = try_resize_result [OF v(1) Inr]
    have eqs: "r = Inr ()" "s' = t"
        "rr' = rr\<lparr>rr_inner := (rr_inner rr)[i := Some rows],
                  rr_reserved_sizes := (rr_reserved_sizes rr)[i := ro_size RO rows]\<rparr>"
      using save Inr v(1) len by (auto simp: save_def Let_def reservation_size_def)
    have "rows_balanced s' rr' n"
      using b R(1) v(2) len(2)
      unfolding eqs by (simp add: rows_balanced_def reservation_size_def sum_list_update)
    then show ?thesis using R(2) len unfolding eqs by simp
  qed
qed

section \<open>Row cursors\<close>

definition row_stream_ok :: "('c, 'r, 'a, 'e, 'p) row_cursor_stream \<Rightarrow> nat \<Rightarrow> bool" where
  "row_stream_ok st n \<longleftrightarrow>
     length (rcs_streams st) = n \<and> rows_balanced (rcs_store st) (rcs_rows st) n
     \<and> lookup_reservation (rcs_store st) (rcs_reservation st) \<noteq> None
     \<and> rcs_reservation st \<noteq> rr_reservation (rcs_rows st)"

text \<open>
  What the code relies on from the row format: appending the sort columns of a batch to a cleared
  buffer encodes its rows.
\<close>

definition encodes :: "('c, 'r, 'x, 'a, 'e) row_ops \<Rightarrow> ('a list \<Rightarrow> byte list) \<Rightarrow> bool" where
  "encodes RO rk \<longleftrightarrow>
     (\<forall>b cols c rows c' rows'. ro_eval RO b = Inr cols
        \<longrightarrow> ro_append RO c (ro_clear RO rows) cols = Inr (c', rows')
        \<longrightarrow> ro_content RO rows' = map rk (rows_of b))"

lemma new_empty_result:
  assumes "lookup_reservation s i = Some v"
  shows "\<exists>j t. new_empty s i = Inr (j, t) \<and> reservation_size t j = Inr 0
    \<and> (\<forall>k. k \<noteq> j \<longrightarrow> lookup_reservation t k = lookup_reservation s k) \<and> lookup_reservation s j = None"
  using assms
  by (simp add: new_empty_def alloc_reservation_def lookup_reservation_def reservation_size_def nth_append)

lemma rows_balanced_frame:
  assumes "rows_balanced s rr n"
    and "lookup_reservation t (rr_reservation rr) = lookup_reservation s (rr_reservation rr)"
  shows "rows_balanced t rr n"
  using assms by (simp add: rows_balanced_def reservation_size_def)

lemma row_cursor_try_new_ok:
  assumes "lookup_reservation s reservation \<noteq> None"
  shows "\<exists>st. row_cursor_try_new (Inr c) strs s reservation = Inr st \<and> row_stream_ok st (length strs)
    \<and> rcs_streams st = strs"
proof -
  obtain v where v: "lookup_reservation s reservation = Some v" using assms by blast
  obtain j t where n: "new_empty s reservation = Inr (j, t)" "reservation_size t j = Inr 0"
      "\<forall>k. k \<noteq> j \<longrightarrow> lookup_reservation t k = lookup_reservation s k" "lookup_reservation s j = None"
    using new_empty_result [OF v] by blast
  have "j \<noteq> reservation" using v n(4) by auto
  then show ?thesis
    using n v by (simp add: row_cursor_try_new_def row_stream_ok_def Let_def rows_balanced_def sum_list_replicate)
qed

lemma take_next_ok:
  assumes "rows_balanced s rr n" and "i < n" and "take_next RO held rr i c = (r, rr')"
  shows "rows_balanced s rr' n" and "rr_reservation rr' = rr_reservation rr"
    and "r \<noteq> Inl Merge_Panic"
  using assms by (auto simp: take_next_def rows_balanced_def Let_def split: option.splits if_splits)

lemma row_convert_batch_ok:
  fixes RO :: "('c, 'r, 'x, 'a, 'e) row_ops"
  assumes ok: "row_stream_ok st n" and i: "i < n" and enc: "encodes RO rk" and b: "0 < rb_num_rows b"
    and run: "row_convert_batch I RO held st b i = (r, st')"
  shows "row_stream_ok st' n \<and> rcs_streams st' = rcs_streams st
    \<and> (case r of
         Inr (v, j) \<Rightarrow> rv_rows v = map rk (rows_of b) \<and> row_values_pos v 0
           \<and> reservation_size (rcs_store st') j = Inr 0
       | Inl e \<Rightarrow> e \<noteq> Merge_Panic)"
proof -
  have bal: "rows_balanced (rcs_store st) (rcs_rows st) n"
    and ne: "rcs_reservation st \<noteq> rr_reservation (rcs_rows st)"
    using ok by (auto simp: row_stream_ok_def)
  obtain v0 where v0: "lookup_reservation (rcs_store st) (rcs_reservation st) = Some v0"
    using ok by (auto simp: row_stream_ok_def)
  show ?thesis
  proof (cases "ro_eval RO b")
    case (Inl e)
    then show ?thesis using run ok by (auto simp: row_convert_batch_def)
  next
    case cols: (Inr cols)
    obtain q rr where take: "take_next RO held (rcs_rows st) i (rcs_converter st) = (q, rr)" by fastforce
    note T = take_next_ok [OF bal i take]
    show ?thesis
    proof (cases q)
      case (Inl e)
      then show ?thesis
        using run cols take T ok by (auto simp: row_convert_batch_def row_stream_ok_def)
    next
      case q: (Inr rows0)
      show ?thesis
      proof (cases "ro_append RO (rcs_converter st) (ro_clear RO rows0) cols")
        case (Inl e)
        then show ?thesis
          using run cols take q T ok by (auto simp: row_convert_batch_def row_stream_ok_def)
      next
        case app: (Inr cr)
        obtain c rows where cr: "cr = (c, rows)" by fastforce
        have content: "ro_content RO rows = map rk (rows_of b)"
          using enc cols app cr unfolding encodes_def by blast
        show ?thesis
        proof (cases "try_resize I (rcs_store st) (rcs_reservation st) (ro_converter_size RO c)")
          case (Inl e)
          then show ?thesis
            using run cols take q T ok app cr
            by (auto simp: row_convert_batch_def row_stream_ok_def Let_def)
        next
          case rs: (Inr s1)
          note R = try_resize_result [OF v0 rs]
          have bal1: "rows_balanced s1 rr n"
            by (rule rows_balanced_frame [OF T(1)]) (use R(2) ne T(2) in auto)
          obtain q2 s2 rr2 where sv: "save I RO s1 rr i rows = (q2, s2, rr2)" by (cases "save I RO s1 rr i rows") auto
          note S = save_balanced [OF bal1 i sv]
          have live2: "lookup_reservation s2 (rcs_reservation st) \<noteq> None"
            using S R(1) ne T(2) by auto
          show ?thesis
          proof (cases q2)
            case (Inl e)
            then show ?thesis
              using run cols take q app cr rs sv S live2 ok ne T(2)
              by (auto simp: row_convert_batch_def row_stream_ok_def Let_def)
          next
            case q2: (Inr u)
            obtain v2 where v2: "lookup_reservation s2 (rcs_reservation st) = Some v2" using live2 by blast
            obtain j s3 where ne3: "new_empty s2 (rcs_reservation st) = Inr (j, s3)"
                "reservation_size s3 j = Inr 0"
                "\<forall>k. k \<noteq> j \<longrightarrow> lookup_reservation s3 k = lookup_reservation s2 k" "lookup_reservation s2 j = None"
              using new_empty_result [OF v2] by blast
            obtain w where w: "lookup_reservation s2 (rr_reservation rr2) = Some w"
              using S by (auto simp: rows_balanced_def reservation_size_eq_Inr)
            have j: "j \<noteq> rr_reservation rr2" "j \<noteq> rcs_reservation st" using ne3(4) w v2 by auto
            have "rows_balanced s3 rr2 n"
              by (rule rows_balanced_frame [of s2]) (use S ne3(3) j in auto)
            moreover obtain v where v: "row_values_new (ro_content RO rows) (ro_size RO rows) 0 = Some v"
                "rv_rows v = ro_content RO rows" "row_values_pos v 0"
              using row_values_new_pos [of "ro_content RO rows" 0 "ro_size RO rows"] content b by (auto simp: rows_of_def)
            ultimately show ?thesis
              using run cols take q app cr rs sv q2 ne3 v v2 j S T(2) ne ok content
              by (auto simp: row_convert_batch_def row_stream_ok_def Let_def)
          qed
        qed
      qed
    qed
  qed
qed

lemma take_next_slots:
  "take_next RO held rr i c = (r, rr') \<Longrightarrow> k \<noteq> i \<Longrightarrow>
     rr_inner rr' ! k = rr_inner rr ! k \<and> rr_reserved_sizes rr' ! k = rr_reserved_sizes rr ! k"
  by (auto simp: take_next_def Let_def split: option.splits if_splits)

lemma release_slots:
  "release I s rr i = Inr (s', rr') \<Longrightarrow> k \<noteq> i \<Longrightarrow>
     rr_inner rr' ! k = rr_inner rr ! k \<and> rr_reserved_sizes rr' ! k = rr_reserved_sizes rr ! k"
  by (auto simp: release_def vec_set_def Let_def split: option.splits sum.splits if_splits)

lemma save_slots:
  "save I RO s rr i rows = (r, s', rr') \<Longrightarrow> k \<noteq> i \<Longrightarrow>
     rr_inner rr' ! k = rr_inner rr ! k \<and> rr_reserved_sizes rr' ! k = rr_reserved_sizes rr ! k"
  by (auto simp: save_def vec_set_def Let_def split: option.splits sum.splits if_splits prod.splits
      dest: release_slots)

lemma row_convert_batch_slots:
  assumes "row_convert_batch I RO held st b i = (r, st')" and "k \<noteq> i"
  shows "rr_inner (rcs_rows st') ! k = rr_inner (rcs_rows st) ! k
    \<and> rr_reserved_sizes (rcs_rows st') ! k = rr_reserved_sizes (rcs_rows st) ! k"
  using assms
  by (auto simp: row_convert_batch_def Let_def split: option.splits sum.splits prod.splits
      dest!: take_next_slots [OF _ assms(2)] save_slots [OF _ assms(2)])

text \<open>What one poll does: the books, the other streams, and the outcome.\<close>

lemma row_poll_ok:
  fixes RO :: "('c, 'r, 'x, 'a, 'e) row_ops"
  assumes ok: "row_stream_ok st n" and i: "i < n" and enc: "encodes RO rk"
    and run: "row_poll_next I RO held st i = (r, st')"
  shows "row_stream_ok st' n"
    and "k \<noteq> i \<Longrightarrow> rcs_streams st' ! k = rcs_streams st ! k
      \<and> rr_inner (rcs_rows st') ! k = rr_inner (rcs_rows st) ! k
      \<and> rr_reserved_sizes (rcs_rows st') ! k = rr_reserved_sizes (rcs_rows st) ! k"
    and "set (rcs_streams st' ! i) \<subseteq> set (rcs_streams st ! i)"
    and "case r of
       Polled_Ok (v, j, b) \<Rightarrow> Poll_Batch b \<in> set (rcs_streams st ! i) \<and> rv_rows v = map rk (rows_of b)
         \<and> row_values_pos v 0 \<and> reservation_size (rcs_store st') j = Inr 0
         \<and> stream_rows (rcs_streams st ! i) = rows_of b @ stream_rows (rcs_streams st' ! i)
     | Polled_None \<Rightarrow> stream_rows (rcs_streams st ! i) = [] \<and> rcs_streams st' ! i = []
         \<and> rr_inner (rcs_rows st') ! i = None \<and> rr_reserved_sizes (rcs_rows st') ! i = 0
     | Polled_Pending \<Rightarrow> stream_rows (rcs_streams st ! i) = stream_rows (rcs_streams st' ! i)
     | Polled_Err e \<Rightarrow> e = Merge_Panic \<longrightarrow> Poll_Fail Merge_Panic \<in> set (rcs_streams st ! i)"
proof -
  have len: "i < length (rcs_streams st)" using ok i by (simp add: row_stream_ok_def)
  obtain p rest where p: "fused_poll (rcs_streams st ! i) = (p, rest)" by fastforce
  note F = fused_poll_cases [OF p]
  let ?st = "st\<lparr>rcs_streams := (rcs_streams st)[i := rest]\<rparr>"
  have ok1: "row_stream_ok ?st n" using ok by (simp add: row_stream_ok_def)
  have step: "row_poll_next I RO held st i =
      (case p of
         Polled_Pending \<Rightarrow> (Polled_Pending, ?st)
       | Polled_None \<Rightarrow>
           (case release I (rcs_store st) (rcs_rows st) i of
              Inl e \<Rightarrow> (Polled_Err e, ?st)
            | Inr (s, rr) \<Rightarrow> (Polled_None, ?st\<lparr>rcs_store := s, rcs_rows := rr\<rparr>))
       | Polled_Err e \<Rightarrow> (Polled_Err e, ?st)
       | Polled_Ok batch \<Rightarrow>
           (case row_convert_batch I RO held ?st batch i of
              (Inl e, st2) \<Rightarrow> (Polled_Err e, st2)
            | (Inr (v, j), st2) \<Rightarrow> (Polled_Ok (v, j, batch), st2)))"
    using len p by (simp add: row_poll_next_def fused_poll_next_def Let_def split: polled.split)
  have "row_stream_ok st' n
    \<and> (\<forall>k. k \<noteq> i \<longrightarrow> rcs_streams st' ! k = rcs_streams st ! k
      \<and> rr_inner (rcs_rows st') ! k = rr_inner (rcs_rows st) ! k
      \<and> rr_reserved_sizes (rcs_rows st') ! k = rr_reserved_sizes (rcs_rows st) ! k)
    \<and> set (rcs_streams st' ! i) \<subseteq> set (rcs_streams st ! i)
    \<and> (case r of
       Polled_Ok (v, j, b) \<Rightarrow> Poll_Batch b \<in> set (rcs_streams st ! i) \<and> rv_rows v = map rk (rows_of b)
         \<and> row_values_pos v 0 \<and> reservation_size (rcs_store st') j = Inr 0
         \<and> stream_rows (rcs_streams st ! i) = rows_of b @ stream_rows (rcs_streams st' ! i)
     | Polled_None \<Rightarrow> stream_rows (rcs_streams st ! i) = [] \<and> rcs_streams st' ! i = []
         \<and> rr_inner (rcs_rows st') ! i = None \<and> rr_reserved_sizes (rcs_rows st') ! i = 0
     | Polled_Pending \<Rightarrow> stream_rows (rcs_streams st ! i) = stream_rows (rcs_streams st' ! i)
     | Polled_Err e \<Rightarrow> e = Merge_Panic \<longrightarrow> Poll_Fail Merge_Panic \<in> set (rcs_streams st ! i))"
  proof (cases p)
    case Polled_Pending
    then have "r = Polled_Pending" "st' = ?st" using run step by simp_all
    then show ?thesis using F Polled_Pending ok1 len by simp
  next
    case Polled_None
    have bal: "rows_balanced (rcs_store st) (rcs_rows st) n" using ok by (simp add: row_stream_ok_def)
    obtain s rr where rel: "(release I (rcs_store st) (rcs_rows st) i :: 'e merge_error + _) = Inr (s, rr)"
        "rows_balanced s rr n" "rr_reservation rr = rr_reservation (rcs_rows st)"
        "rr_inner rr ! i = None" "rr_reserved_sizes rr ! i = 0"
        "\<forall>j. j \<noteq> rr_reservation (rcs_rows st) \<longrightarrow> lookup_reservation s j = lookup_reservation (rcs_store st) j"
      using release_balanced [OF bal i] by blast
    have eqs: "r = Polled_None" "st' = ?st\<lparr>rcs_store := s, rcs_rows := rr\<rparr>"
      using run step rel(1) Polled_None by simp_all
    have "row_stream_ok st' n"
      using ok rel unfolding eqs by (auto simp: row_stream_ok_def)
    then show ?thesis using F Polled_None rel len release_slots [OF rel(1)] unfolding eqs by simp
  next
    case (Polled_Err e)
    then have "r = Polled_Err e" "st' = ?st" using run step by simp_all
    then show ?thesis using F Polled_Err ok1 len by auto
  next
    case (Polled_Ok b)
    obtain q st2 where cv: "row_convert_batch I RO held ?st b i = (q, st2)" by fastforce
    have b: "0 < rb_num_rows b" using F Polled_Ok by simp
    note C = row_convert_batch_ok [OF ok1 i enc b cv] and S = row_convert_batch_slots [OF cv]
    have eqs: "st' = st2" "r = (case q of Inl e \<Rightarrow> Polled_Err e | Inr (v, j) \<Rightarrow> Polled_Ok (v, j, b))"
      using run step cv Polled_Ok by (auto split: sum.splits)
    show ?thesis using C S F Polled_Ok len unfolding eqs by (auto split: sum.splits)
  qed
  then show "row_stream_ok st' n"
    and "k \<noteq> i \<Longrightarrow> rcs_streams st' ! k = rcs_streams st ! k
      \<and> rr_inner (rcs_rows st') ! k = rr_inner (rcs_rows st) ! k
      \<and> rr_reserved_sizes (rcs_rows st') ! k = rr_reserved_sizes (rcs_rows st) ! k"
    and "set (rcs_streams st' ! i) \<subseteq> set (rcs_streams st ! i)"
    and "case r of
       Polled_Ok (v, j, b) \<Rightarrow> Poll_Batch b \<in> set (rcs_streams st ! i) \<and> rv_rows v = map rk (rows_of b)
         \<and> row_values_pos v 0 \<and> reservation_size (rcs_store st') j = Inr 0
         \<and> stream_rows (rcs_streams st ! i) = rows_of b @ stream_rows (rcs_streams st' ! i)
     | Polled_None \<Rightarrow> stream_rows (rcs_streams st ! i) = [] \<and> rcs_streams st' ! i = []
         \<and> rr_inner (rcs_rows st') ! i = None \<and> rr_reserved_sizes (rcs_rows st') ! i = 0
     | Polled_Pending \<Rightarrow> stream_rows (rcs_streams st ! i) = stream_rows (rcs_streams st' ! i)
     | Polled_Err e \<Rightarrow> e = Merge_Panic \<longrightarrow> Poll_Fail Merge_Panic \<in> set (rcs_streams st ! i)"
    by blast+
qed

section \<open>Sequences of polls\<close>

text \<open>
  A consumer polls the streams in any order; each poll names the stream and says whether the
  consumer still holds the cursor it got there before.
\<close>

fun row_polls ::
  "'p memory_pool_impl \<Rightarrow> ('c, 'r, 'x, 'a, 'e) row_ops \<Rightarrow> ('c, 'r, 'a, 'e, 'p) row_cursor_stream
   \<Rightarrow> (nat \<times> bool) list
   \<Rightarrow> (nat \<times> (row_values \<times> nat \<times> 'a record_batch, 'e) polled) list \<times> ('c, 'r, 'a, 'e, 'p) row_cursor_stream" where
  "row_polls I RO st [] = ([], st)"
| "row_polls I RO st ((i, held) # ps) =
     (let (r, st1) = row_poll_next I RO held st i;
          (rs, st2) = row_polls I RO st1 ps
      in ((i, r) # rs, st2))"

text \<open>What the merge sees of the polls of one stream.\<close>

fun polled_item :: "(row_values \<times> nat \<times> 'a record_batch, 'e) polled \<Rightarrow> (row_values, 'a, 'e) poll_item option" where
  "polled_item Polled_Pending = Some Item_Pending"
| "polled_item Polled_None = None"
| "polled_item (Polled_Err e) = Some (Item_Error e)"
| "polled_item (Polled_Ok (v, j, b)) = Some (Item_Batch v b)"

fun items_of ::
  "nat \<Rightarrow> (nat \<times> (row_values \<times> nat \<times> 'a record_batch, 'e) polled) list \<Rightarrow> (row_values, 'a, 'e) poll_item list" where
  "items_of i [] = []"
| "items_of i ((k, r) # rs) =
     (if k = i then (case polled_item r of None \<Rightarrow> [] | Some it \<Rightarrow> [it]) else []) @ items_of i rs"

text \<open>A finished stream has nothing left and holds nothing.\<close>

definition row_finished :: "('c, 'r, 'a, 'e, 'p) row_cursor_stream \<Rightarrow> nat \<Rightarrow> bool" where
  "row_finished st i \<longleftrightarrow> rcs_streams st ! i = [] \<and> rr_inner (rcs_rows st) ! i = None
     \<and> rr_reserved_sizes (rcs_rows st) ! i = 0"

lemma row_poll_finished:
  fixes RO :: "('c, 'r, 'x, 'a, 'e) row_ops"
  assumes "row_stream_ok st n" and "k < n" and "encodes RO rk"
    and "row_poll_next I RO held st k = (r, st')" and "row_finished st i"
  shows "row_finished st' i"
proof (cases "k = i")
  case True
  have bal: "rows_balanced (rcs_store st) (rcs_rows st) n" and len: "k < length (rcs_streams st)"
    using assms(1,2) by (simp_all add: row_stream_ok_def)
  obtain s rr where "(release I (rcs_store st) (rcs_rows st) k :: 'e merge_error + _) = Inr (s, rr)"
    using release_balanced [OF bal assms(2)] by blast
  then have "r = Polled_None"
    using assms(4,5) True len
    by (simp add: row_poll_next_def fused_poll_next_def row_finished_def Let_def)
  then show ?thesis using row_poll_ok(4) [OF assms(1-4)] True by (simp add: row_finished_def)
next
  case False
  then show ?thesis using row_poll_ok(2) [OF assms(1-4), of i] assms(5) by (simp add: row_finished_def)
qed

lemma row_polls_ok:
  assumes "row_stream_ok st n" and "encodes RO rk" and "\<forall>(k, h) \<in> set ps. k < n"
    and "row_polls I RO st ps = (rs, st')"
  shows "row_stream_ok st' n \<and> (row_finished st i \<longrightarrow> row_finished st' i)
    \<and> ((i, Polled_None) \<in> set rs \<longrightarrow> row_finished st' i)"
  using assms(1,3,4)
proof (induction ps arbitrary: st rs)
  case (Cons p ps)
  obtain k h where p: "p = (k, h)" by fastforce
  obtain r st1 where r: "row_poll_next I RO h st k = (r, st1)" by fastforce
  obtain rs1 st2 where rest: "row_polls I RO st1 ps = (rs1, st2)" by fastforce
  have k: "k < n" using Cons.prems(2) p by simp
  have eqs: "rs = (k, r) # rs1" "st' = st2" using Cons.prems(3) p r rest by auto
  note P = row_poll_ok [OF Cons.prems(1) k assms(2) r] and Fin = row_poll_finished [OF Cons.prems(1) k assms(2) r]
  have "row_stream_ok st2 n \<and> (row_finished st1 i \<longrightarrow> row_finished st2 i)
      \<and> ((i, Polled_None) \<in> set rs1 \<longrightarrow> row_finished st2 i)"
    using Cons.IH [of st1 rs1] P(1) Cons.prems(2) rest eqs(2) by auto
  moreover have "row_finished st1 i" if "k = i" "r = Polled_None"
    using P(4) that by (simp add: row_finished_def)
  ultimately show ?case using Fin [of i] unfolding eqs by auto
qed simp

lemma row_polls_feed:
  assumes "row_stream_ok st n" and "encodes RO rk" and "\<forall>(k, h) \<in> set ps. k < n"
    and "\<forall>b. Poll_Batch b \<in> set (rcs_streams st ! i) \<longrightarrow> batch_wf nf b"
    and "row_polls I RO st ps = (rs, st')" and "\<forall>e. (i, Polled_Err e) \<notin> set rs"
  shows "(\<forall>it \<in> set (items_of i rs). item_valid rv_rows row_values_pos nf rk it)
    \<and> stream_rows (rcs_streams st ! i) = script_rows (items_of i rs) @ stream_rows (rcs_streams st' ! i)"
  using assms(1,3-6)
proof (induction ps arbitrary: st rs)
  case (Cons p ps)
  obtain k h where p: "p = (k, h)" by fastforce
  obtain r st1 where r: "row_poll_next I RO h st k = (r, st1)" by fastforce
  obtain rs1 st2 where rest: "row_polls I RO st1 ps = (rs1, st2)" by fastforce
  have k: "k < n" using Cons.prems(2) p by simp
  have eqs: "rs = (k, r) # rs1" "st' = st2" using Cons.prems(4) p r rest by auto
  note P = row_poll_ok [OF Cons.prems(1) k assms(2) r]
  have sub: "set (rcs_streams st1 ! i) \<subseteq> set (rcs_streams st ! i)" using P(2) [of i] P(3) by (cases "k = i") auto
  have IH: "(\<forall>it \<in> set (items_of i rs1). item_valid rv_rows row_values_pos nf rk it)
      \<and> stream_rows (rcs_streams st1 ! i) = script_rows (items_of i rs1) @ stream_rows (rcs_streams st' ! i)"
    by (rule Cons.IH) (use P(1) Cons.prems sub rest eqs in auto)
  show ?case
  proof (cases "k = i")
    case False
    then show ?thesis using IH P(2) [of i] eqs by simp
  next
    case True
    then show ?thesis
      using IH P(4) Cons.prems(3,5) eqs
      by (cases r) (auto simp: item_valid_def script_rows_def)
  qed
qed (simp add: script_rows_def)

text \<open>
  C12.  The buffers stay on the books.  Whatever order the streams are polled in, whatever the pool
  refuses, the converter rejects or the consumer holds on to, the charges of the streams add up to
  the size of the reservation that covers the buffers, and a stream that returned \<open>None\<close> holds neither
  a buffer nor a charge.
\<close>

theorem row_stream_books:
  fixes RO :: "('c, 'r, 'x, 'a, 'e) row_ops"
  assumes "row_cursor_try_new (Inr c) strs s reservation = Inr st"
    and "lookup_reservation s reservation \<noteq> None" and "encodes RO rk"
    and "\<forall>(k, held) \<in> set ps. k < length strs" and "row_polls I RO st ps = (rs, st')"
  shows "reservation_size (rcs_store st') (rr_reservation (rcs_rows st'))
      = Inr (sum_list (rr_reserved_sizes (rcs_rows st')))
    \<and> (\<forall>i. (i, Polled_None) \<in> set rs \<longrightarrow>
         rr_inner (rcs_rows st') ! i = None \<and> rr_reserved_sizes (rcs_rows st') ! i = 0)"
proof -
  have ok: "row_stream_ok st (length strs)"
    using row_cursor_try_new_ok [OF assms(2), of c strs] assms(1) by (metis sum.inject(2))
  note P = row_polls_ok [OF ok assms(3-5)]
  have "row_stream_ok st' (length strs)" using P by blast
  moreover have "row_finished st' i" if "(i, Polled_None) \<in> set rs" for i using P that by blast
  ultimately show ?thesis by (auto simp: row_stream_ok_def rows_balanced_def row_finished_def)
qed

text \<open>
  C11.  The row cursors feed the merge.  Whatever order the streams are polled in, what a stream
  returns while its polls succeed is what the merge requires of its inputs: cursors at the first
  row with the encoded sort key of every row of a batch, which is not empty.  The rows of these
  batches, with the rows the stream still has, are the rows of the input in order; once the
  stream returned \<open>None\<close> they are all of them.
\<close>

theorem row_stream_feeds_merge:
  fixes RO :: "('c, 'r, 'x, 'a, 'e) row_ops"
  assumes "row_cursor_try_new (Inr c) strs s reservation = Inr st"
    and "lookup_reservation s reservation \<noteq> None" and "encodes RO rk"
    and "\<forall>b. Poll_Batch b \<in> set (strs ! i) \<longrightarrow> batch_wf nf b"
    and "\<forall>(k, held) \<in> set ps. k < length strs" and "row_polls I RO st ps = (rs, st')"
    and "\<forall>e. (i, Polled_Err e) \<notin> set rs"
  shows "(\<forall>it \<in> set (items_of i rs). item_valid rv_rows row_values_pos nf rk it)
    \<and> stream_rows (strs ! i) = script_rows (items_of i rs) @ stream_rows (rcs_streams st' ! i)
    \<and> ((i, Polled_None) \<in> set rs \<longrightarrow> script_rows (items_of i rs) = stream_rows (strs ! i))"
proof -
  have ok: "row_stream_ok st (length strs)" and strs: "rcs_streams st = strs"
    using row_cursor_try_new_ok [OF assms(2), of c strs] assms(1) by (metis sum.inject(2))+
  have "(\<forall>it \<in> set (items_of i rs). item_valid rv_rows row_values_pos nf rk it)
      \<and> stream_rows (rcs_streams st ! i) = script_rows (items_of i rs) @ stream_rows (rcs_streams st' ! i)"
    using row_polls_feed [OF ok assms(3,5) _ assms(6,7)] assms(4) strs by blast
  moreover have "row_finished st' i" if "(i, Polled_None) \<in> set rs"
    using row_polls_ok [OF ok assms(3,5,6)] that by blast
  ultimately show ?thesis using strs by (auto simp: row_finished_def)
qed

text \<open>A row format that copies the bytes, and two streams.\<close>

definition demo_rows_ops :: "(unit, byte list list, byte list list, byte, unit) row_ops" where
  "demo_rows_ops =
     \<lparr> ro_eval = (\<lambda>b. Inr (rows_of b)), ro_append = (\<lambda>c rows cols. Inr (c, rows @ cols)), ro_clear = (\<lambda>_. []),
       ro_empty = (\<lambda>_. []), ro_size = (\<lambda>rows. of_nat (length rows)), ro_content = (\<lambda>rows. rows),
       ro_converter_size = (\<lambda>_. 7) \<rparr>"

definition demo_polled :: "(byte, unit) batch_poll list list" where
  "demo_polled =
     [[Poll_Batch \<lparr>rb_columns = [[1, 2]], rb_num_rows = 2\<rparr>, Poll_Batch \<lparr>rb_columns = [[]], rb_num_rows = 0\<rparr>],
      [Poll_Wait, Poll_Batch \<lparr>rb_columns = [[5]], rb_num_rows = 1\<rparr>]]"

lemma demo_encodes: "encodes demo_rows_ops (\<lambda>row. row)"
  by (simp add: encodes_def demo_rows_ops_def)

lemma demo_live: "lookup_reservation demo_store 0 \<noteq> None"
  by (simp add: demo_store_def register_def store_new_def lookup_reservation_def Let_def)

definition demo_row_stream :: "(unit, byte list list, byte, unit, unbounded_pool) row_cursor_stream" where
  "demo_row_stream = projr (row_cursor_try_new (Inr ()) demo_polled demo_store 0 :: unit merge_error + _)"

definition demo_row_run ::
  "(nat \<times> (row_values \<times> nat \<times> byte record_batch, unit) polled) list
   \<times> (unit, byte list list, byte, unit, unbounded_pool) row_cursor_stream" where
  "demo_row_run = row_polls unbounded_impl demo_rows_ops demo_row_stream [(0, False), (1, False), (0, False)]"

lemma demo_row_stream_new:
  "row_cursor_try_new (Inr ()) demo_polled demo_store 0 = (Inr demo_row_stream :: unit merge_error + _)"
proof -
  obtain st where "row_cursor_try_new (Inr ()) demo_polled demo_store 0
      = (Inr st :: unit merge_error + (unit, byte list list, byte, unit, unbounded_pool) row_cursor_stream)"
    using row_cursor_try_new_ok [OF demo_live, of "()" demo_polled] by blast
  then show ?thesis by (simp add: demo_row_stream_def)
qed

lemma demo_row_run_eq:
  "row_polls unbounded_impl demo_rows_ops demo_row_stream [(0, False), (1, False), (0, False)]
     = (fst demo_row_run, snd demo_row_run)"
  by (simp add: demo_row_run_def)

lemma demo_row_outcomes:
  "map (\<lambda>(i, r). (i, case r of Polled_Err _ \<Rightarrow> True | _ \<Rightarrow> False, case r of Polled_None \<Rightarrow> True | _ \<Rightarrow> False))
     (fst demo_row_run) = [(0, False, False), (1, False, False), (0, False, True)]"
  by code_simp

lemma demo_row_outcomes_set:
  "(0, Polled_None) \<in> set (fst demo_row_run)" "(i, Polled_Err e) \<notin> set (fst demo_row_run)"
  using demo_row_outcomes by (auto split: polled.splits)

lemma demo_schedule: "\<forall>(k, held) \<in> set [(0, False), (1, False), (0, False)]. k < length demo_polled"
  by (simp add: demo_polled_def)

theorem row_stream_books_witness:
  "reservation_size (rcs_store (snd demo_row_run)) (rr_reservation (rcs_rows (snd demo_row_run)))
     = Inr (sum_list (rr_reserved_sizes (rcs_rows (snd demo_row_run))))
   \<and> rr_inner (rcs_rows (snd demo_row_run)) ! 0 = None"
  using row_stream_books [OF demo_row_stream_new demo_live demo_encodes demo_schedule demo_row_run_eq]
    demo_row_outcomes_set(1) by blast

theorem row_stream_feeds_merge_witness:
  "script_rows (items_of 0 (fst demo_row_run)) = [[1], [2]]
   \<and> list_all (item_valid rv_rows row_values_pos 1 (\<lambda>row. row)) (items_of 0 (fst demo_row_run))"
proof -
  have wf: "\<forall>b. Poll_Batch b \<in> set (demo_polled ! 0) \<longrightarrow> batch_wf 1 b"
    by (auto simp: demo_polled_def batch_wf_def)
  have rows: "stream_rows (demo_polled ! 0) = [[1], [2]]"
    by code_simp
  have "\<forall>e. (0, Polled_Err e) \<notin> set (fst demo_row_run)" using demo_row_outcomes_set(2) by blast
  note F = row_stream_feeds_merge [OF demo_row_stream_new demo_live demo_encodes wf demo_schedule demo_row_run_eq this]
  have "script_rows (items_of 0 (fst demo_row_run)) = stream_rows (demo_polled ! 0)"
    using F demo_row_outcomes_set(1) by blast
  moreover have "\<forall>it \<in> set (items_of 0 (fst demo_row_run)). item_valid rv_rows row_values_pos 1 (\<lambda>row. row) it"
    using F by blast
  ultimately show ?thesis unfolding list_all_iff rows by blast
qed

section \<open>Field cursors pay for their arrays\<close>

text \<open>
  The cursor of a batch owns a reservation of the size of the array, a new one; when the pool
  refuses it, the reservations that lived before are as they were.
\<close>

lemma field_convert_batch_charged:
  assumes live: "lookup_reservation (fcs_store st) (fcs_reservation st) \<noteq> None"
    and run: "field_convert_batch I FO st b = (Inr (v, j), st')"
  shows "\<exists>array. fo_eval FO b = Inr array
    \<and> reservation_size (fcs_store st') j = Inr (fo_buffer_memory_size FO array)
    \<and> lookup_reservation (fcs_store st) j = None
    \<and> (\<forall>k. k \<noteq> j \<longrightarrow> lookup_reservation (fcs_store st') k = lookup_reservation (fcs_store st) k)"
proof -
  obtain u where u: "lookup_reservation (fcs_store st) (fcs_reservation st) = Some u" using live by blast
  obtain i s1 where n: "new_empty (fcs_store st) (fcs_reservation st) = Inr (i, s1)" "reservation_size s1 i = Inr 0"
      "\<forall>k. k \<noteq> i \<longrightarrow> lookup_reservation s1 k = lookup_reservation (fcs_store st) k"
      "lookup_reservation (fcs_store st) i = None"
    using new_empty_result [OF u] by blast
  obtain w where w: "lookup_reservation s1 i = Some w" "rsv_size w = 0" using n(2) by (auto simp: reservation_size_eq_Inr)
  have len: "i < length (st_reservations s1)" using w(1) by (auto simp: lookup_reservation_def split: if_splits)
  have "reservation_size t i = Inr c" "k \<noteq> i \<Longrightarrow> lookup_reservation t k = lookup_reservation s1 k"
    if "try_grow I s1 i c = Inr t" for t c k
    using that w len
    by (auto simp: try_grow_def reservation_size_def lookup_reservation_def put_reservation_def with_pool_def split: sum.splits)
  then show ?thesis
    using run n by (auto simp: field_convert_batch_def Let_def split: sum.splits option.splits)
qed

lemma field_poll_next_item:
  assumes "i < length (fcs_streams st)" and "field_poll_next I FO st i = (r, st')"
  shows "case r of
      Polled_Ok (v, j, b) \<Rightarrow> 0 < rb_num_rows b
        \<and> stream_rows (fcs_streams st ! i) = rows_of b @ stream_rows (fcs_streams st' ! i)
    | Polled_None \<Rightarrow> stream_rows (fcs_streams st ! i) = [] \<and> fcs_streams st' ! i = []
    | Polled_Pending \<Rightarrow> stream_rows (fcs_streams st ! i) = stream_rows (fcs_streams st' ! i)
    | Polled_Err e \<Rightarrow> True"
proof -
  obtain p rest where p: "fused_poll (fcs_streams st ! i) = (p, rest)" by fastforce
  have str: "fcs_streams st2 = fcs_streams st1" if "field_convert_batch I FO st1 b = (q, st2)" for st1 st2 b q
    using that by (auto simp: field_convert_batch_def Let_def split: sum.splits option.splits)
  show ?thesis
    using assms fused_poll_cases [OF p] p
    by (cases p) (auto simp: field_poll_next_def fused_poll_next_def split: prod.splits sum.splits dest!: str)
qed

section \<open>The incremental sort\<close>


text \<open>The results of the first calls of \<open>next\<close>.\<close>

fun sort_iterator_run :: "('b, 'e) sort_ops \<Rightarrow> 'b sort_iterator \<Rightarrow> nat \<Rightarrow> ('e + 'b) option list" where
  "sort_iterator_run S it 0 = []"
| "sort_iterator_run S it (Suc n) =
     (let (r, it') = sort_iterator_next S it in r # sort_iterator_run S it' n)"







text \<open>A sort that fails keeps failing: every later call returns the error again.\<close>

lemma incremental_sort_error_repeats:
  assumes "so_sort_indices S b = Inl e" and "0 < so_num_rows S b"
  shows "sort_iterator_run S (sort_iterator_new b bs) n = replicate n (Some (Inl e))"
  using assms by (induction n) (auto simp: sort_iterator_next_def sort_iterator_new_def)

end
