(* ===== verification/Join_Types.thy ===== *)
theory Join_Types
  imports Prelude
begin

text \<open>
  The join types of \<open>common/src/join_type.rs\<close> with the predicates the planner and the optimizer
  consult, the rows that the documentation promises for each of them, and the theorems that the
  predicates say the right thing about those rows.
\<close>

section \<open>Join types\<close>

datatype join_type =
    Inner | Left | Right | Full
  | LeftSemi | RightSemi | LeftAnti | RightAnti | LeftMark | RightMark

definition is_outer :: "join_type \<Rightarrow> bool" where
  "is_outer jt \<longleftrightarrow> jt = Left \<or> jt = Right \<or> jt = Full"

fun swap :: "join_type \<Rightarrow> join_type" where
  "swap Inner = Inner"
| "swap Full = Full"
| "swap Left = Right"
| "swap Right = Left"
| "swap LeftSemi = RightSemi"
| "swap RightSemi = LeftSemi"
| "swap LeftAnti = RightAnti"
| "swap RightAnti = LeftAnti"
| "swap LeftMark = RightMark"
| "swap RightMark = LeftMark"

fun on_lr_is_preserved :: "join_type \<Rightarrow> bool \<times> bool" where
  "on_lr_is_preserved Inner = (True, True)"
| "on_lr_is_preserved Left = (False, True)"
| "on_lr_is_preserved Right = (True, False)"
| "on_lr_is_preserved Full = (False, False)"
| "on_lr_is_preserved LeftSemi = (True, True)"
| "on_lr_is_preserved RightSemi = (True, True)"
| "on_lr_is_preserved LeftAnti = (False, True)"
| "on_lr_is_preserved RightAnti = (True, False)"
| "on_lr_is_preserved LeftMark = (False, True)"
| "on_lr_is_preserved RightMark = (True, False)"

definition empty_build_side_produces_empty_result :: "join_type \<Rightarrow> bool" where
  "empty_build_side_produces_empty_result jt \<longleftrightarrow>
     jt \<in> set [Inner, Left, LeftSemi, LeftAnti, LeftMark, RightSemi]"

definition empty_map_produces_empty_result :: "join_type \<Rightarrow> bool" where
  "empty_map_produces_empty_result jt \<longleftrightarrow> jt \<in> set [Inner, LeftSemi, RightSemi]"

section \<open>The rows of a join\<close>

text \<open>
  What the documentation of \<open>JoinType\<close> says about the rows of a join, for a join condition \<open>P\<close>.  A
  row is a list of nullable values.  The value of the mark column is computed from the matches.
\<close>

type_synonym 'v row = "'v option list"

definition left_outer :: "('v row \<Rightarrow> 'v row \<Rightarrow> bool) \<Rightarrow> nat \<Rightarrow> 'v row list \<Rightarrow> 'v row list \<Rightarrow> 'v row list" where
  "left_outer P nr L R =
     concat (map (\<lambda>l. let m = filter (P l) R
                      in if m = [] then [l @ replicate nr None] else map ((@) l) m) L)"

definition right_outer :: "('v row \<Rightarrow> 'v row \<Rightarrow> bool) \<Rightarrow> nat \<Rightarrow> 'v row list \<Rightarrow> 'v row list \<Rightarrow> 'v row list" where
  "right_outer P nl L R =
     concat (map (\<lambda>r. let m = filter (\<lambda>l. P l r) L
                      in if m = [] then [replicate nl None @ r] else map (\<lambda>l. l @ r) m) R)"

fun join_rows ::
  "join_type \<Rightarrow> ('v row \<Rightarrow> 'v row \<Rightarrow> bool) \<Rightarrow> ('v row list \<Rightarrow> 'v option) \<Rightarrow> nat \<Rightarrow> nat
   \<Rightarrow> 'v row list \<Rightarrow> 'v row list \<Rightarrow> 'v row list" where
  "join_rows Inner P mk nl nr L R = concat (map (\<lambda>l. map ((@) l) (filter (P l) R)) L)"
| "join_rows Left P mk nl nr L R = left_outer P nr L R"
| "join_rows Right P mk nl nr L R = right_outer P nl L R"
| "join_rows Full P mk nl nr L R =
     left_outer P nr L R @
     map ((@) (replicate nl None)) (filter (\<lambda>r. \<forall>l\<in>set L. \<not> P l r) R)"
| "join_rows LeftSemi P mk nl nr L R = filter (\<lambda>l. \<exists>r\<in>set R. P l r) L"
| "join_rows RightSemi P mk nl nr L R = filter (\<lambda>r. \<exists>l\<in>set L. P l r) R"
| "join_rows LeftAnti P mk nl nr L R = filter (\<lambda>l. \<forall>r\<in>set R. \<not> P l r) L"
| "join_rows RightAnti P mk nl nr L R = filter (\<lambda>r. \<forall>l\<in>set L. \<not> P l r) R"
| "join_rows LeftMark P mk nl nr L R = map (\<lambda>l. l @ [mk (filter (P l) R)]) L"
| "join_rows RightMark P mk nl nr L R = map (\<lambda>r. r @ [mk (filter (\<lambda>l. P l r) L)]) R"

section \<open>What the predicates mean\<close>

lemma swap_swap [simp]: "swap (swap jt) = jt"
  by (cases jt) auto

lemma mset_concat_map: "mset (concat (map f xs)) = (\<Sum>x\<in>#mset xs. mset (f x))"
  by (induction xs) auto

lemma mset_map_filter_sum:
  "mset (map f (filter P xs)) = (\<Sum>x\<in>#mset xs. if P x then {#f x#} else {#})"
  by (induction xs) auto

lemma mset_pairs_swap:
  "(\<Sum>x\<in>#mset xs. \<Sum>y\<in>#mset ys. g x y) = (\<Sum>y\<in>#mset ys. \<Sum>x\<in>#mset xs. (g x y :: 'a multiset))"
proof (induction xs)
  case (Cons x xs)
  then show ?case by (simp add: sum_mset.distrib)
qed simp

text \<open>The matched pairs, from either side, and the unmatched rows of an outer join.\<close>

definition matched ::
  "('v row \<Rightarrow> 'v row \<Rightarrow> bool) \<Rightarrow> ('v row \<Rightarrow> 'v row \<Rightarrow> 'v row) \<Rightarrow> 'v row list \<Rightarrow> 'v row list
   \<Rightarrow> 'v row list" where
  "matched P f L R = concat (map (\<lambda>l. map (f l) (filter (P l) R)) L)"

lemma mset_matched:
  "mset (matched P f L R) = (\<Sum>l\<in>#mset L. \<Sum>r\<in>#mset R. if P l r then {#f l r#} else {#})"
  unfolding matched_def mset_concat_map mset_map_filter_sum ..

lemma matched_swap:
  "mset (matched (\<lambda>r l. P l r) f R L) = mset (matched P (\<lambda>l r. f r l) L R)"
  unfolding mset_matched by (rule mset_pairs_swap)

lemma map_matched: "map g (matched P f L R) = matched P (\<lambda>l r. g (f l r)) L R"
  by (simp add: matched_def map_concat comp_def)

definition unmatched :: "('v row \<Rightarrow> 'v row \<Rightarrow> bool) \<Rightarrow> 'v row list \<Rightarrow> 'v row list \<Rightarrow> 'v row list" where
  "unmatched P L R = filter (\<lambda>l. \<forall>r\<in>set R. \<not> P l r) L"

lemma inner_matched: "join_rows Inner P mk nl nr L R = matched P (@) L R"
  by (simp add: matched_def)

lemma mset_left_outer:
  "mset (left_outer P nr L R) =
     mset (matched P (@) L R) + mset (map (\<lambda>l. l @ replicate nr None) (unmatched P L R))"
  by (induction L)
    (auto simp: left_outer_def matched_def unmatched_def Let_def filter_empty_conv)

lemma mset_right_outer:
  "mset (right_outer P nl L R) =
     mset (matched P (@) L R) + mset (map ((@) (replicate nl None)) (unmatched (\<lambda>r l. P l r) R L))"
proof -
  have "mset (right_outer P nl L R) =
      mset (matched (\<lambda>r l. P l r) (\<lambda>r l. l @ r) R L)
      + mset (map ((@) (replicate nl None)) (unmatched (\<lambda>r l. P l r) R L))"
    by (induction R)
      (auto simp: right_outer_def matched_def unmatched_def Let_def filter_empty_conv)
  then show ?thesis using matched_swap [of P "\<lambda>r l. l @ r" R L] by simp
qed

lemma mset_full:
  "mset (join_rows Full P mk nl nr L R) =
     mset (matched P (@) L R) + mset (map (\<lambda>l. l @ replicate nr None) (unmatched P L R))
       + mset (map ((@) (replicate nl None)) (unmatched (\<lambda>r l. P l r) R L))"
  using mset_left_outer [of P nr L R] by (simp add: unmatched_def)

text \<open>Exchange of the left columns, \<open>nl\<close> of them, with the right ones.\<close>

definition flip_row :: "nat \<Rightarrow> 'v row \<Rightarrow> 'v row" where
  "flip_row nl t = drop nl t @ take nl t"

lemma flip_row_append: "length l = nl \<Longrightarrow> flip_row nl (l @ r) = r @ l"
  by (simp add: flip_row_def)

lemma flip_matched:
  assumes "\<forall>l\<in>set L. length l = nl"
  shows "image_mset (flip_row nl) (mset (matched P (@) L R)) = mset (matched (\<lambda>r l. P l r) (@) R L)"
proof -
  have "map (flip_row nl) (matched P (@) L R) = matched P (\<lambda>l r. r @ l) L R"
    unfolding map_matched using assms
    by (auto simp: matched_def flip_row_append intro!: arg_cong [where f = concat])
  then have "image_mset (flip_row nl) (mset (matched P (@) L R)) = mset (matched P (\<lambda>l r. r @ l) L R)"
    by (metis mset_map)
  also have "\<dots> = mset (matched (\<lambda>r l. P l r) (@) R L)" by (rule matched_swap [symmetric])
  finally show ?thesis .
qed

lemma flip_unmatched:
  assumes "\<forall>l\<in>set L. length l = nl"
  shows "image_mset (flip_row nl) (mset (map (\<lambda>l. l @ r) (unmatched P L R)))
       = mset (map ((@) r) (unmatched P L R))"
proof -
  have "map (flip_row nl) (map (\<lambda>l. l @ r) (unmatched P L R)) = map ((@) r) (unmatched P L R)"
    using assms by (auto simp: unmatched_def flip_row_append)
  then show ?thesis by (metis mset_map)
qed

lemma flip_padded:
  "image_mset (flip_row nl) (mset (map ((@) (replicate nl None)) xs))
     = mset (map (\<lambda>x. x @ replicate nl None) xs)"
  by (simp add: flip_row_append multiset.map_comp comp_def)

text \<open>
  C32.  Swapping the inputs of a join and its type with \<open>swap\<close> gives the same rows: as they are for
  the semi, anti and mark joins, and up to their order and the exchange of the left with the right
  columns for the others.
\<close>

theorem join_swap_same_rows:
  assumes "\<forall>l\<in>set L. length l = nl"
  shows "mset (if jt \<in> {Inner, Left, Right, Full}
               then map (flip_row nl) (join_rows jt P mk nl nr L R) else join_rows jt P mk nl nr L R)
       = mset (join_rows (swap jt) (\<lambda>r l. P l r) mk nr nl R L)"
proof -
  note flips = flip_matched [OF assms] flip_unmatched [OF assms] flip_padded
  note rows = join_rows.simps(1-3) [of P] mset_left_outer mset_right_outer mset_full inner_matched
  have "image_mset (flip_row nl) (mset (join_rows jt P mk nl nr L R))
      = mset (join_rows (swap jt) (\<lambda>r l. P l r) mk nr nl R L)" if jt: "jt \<in> {Inner, Left, Right, Full}"
  proof -
    consider "jt = Inner" | "jt = Left" | "jt = Right" | "jt = Full" using jt by blast
    then show ?thesis
    proof cases
      case 1
      show ?thesis unfolding 1 swap.simps inner_matched by (rule flips)
    next
      case 2
      show ?thesis
        unfolding 2 swap.simps join_rows.simps mset_left_outer mset_right_outer image_mset_union flips ..
    next
      case 3
      show ?thesis
        unfolding 3 swap.simps join_rows.simps mset_left_outer mset_right_outer image_mset_union flips ..
    next
      case 4
      show ?thesis
        unfolding 4 swap.simps mset_full image_mset_union flips by (simp only: ac_simps)
    qed
  qed
  moreover have "join_rows jt P mk nl nr L R = join_rows (swap jt) (\<lambda>r l. P l r) mk nr nl R L"
    if "jt \<notin> {Inner, Left, Right, Full}"
    using that by (cases jt) auto
  ultimately show ?thesis by auto
qed

lemma concat_map_guard:
  "concat (map (\<lambda>x. if F x then g x else []) xs) = concat (map g (filter F xs))"
  by (induction xs) auto

lemma filter_guard: "filter (\<lambda>r. k \<and> P r) xs = (if k then filter P xs else [])"
  by simp

lemma pushdown_left:
  assumes "fst (on_lr_is_preserved jt)"
  shows "join_rows jt (\<lambda>l r. F l \<and> P l r) mk nl nr L R = join_rows jt P mk nl nr (filter F L) R"
proof -
  have "map ((@) l) (filter (\<lambda>r. F l \<and> P l r) R) = (if F l then map ((@) l) (filter (P l) R) else [])" for l
    by simp
  then have inner: "join_rows Inner (\<lambda>l r. F l \<and> P l r) mk nl nr L R = join_rows Inner P mk nl nr (filter F L) R"
    by (simp only: join_rows.simps concat_map_guard)
  have "join_rows Right (\<lambda>l r. F l \<and> P l r) mk nl nr L R = join_rows Right P mk nl nr (filter F L) R"
    by (simp add: right_outer_def)
  with inner show ?thesis
    using assms by (cases jt) (auto intro!: filter_cong)
qed

lemma pushdown_right:
  assumes "snd (on_lr_is_preserved jt)"
  shows "join_rows jt (\<lambda>l r. F r \<and> P l r) mk nl nr L R = join_rows jt P mk nl nr L (filter F R)"
proof -
  have "join_rows Left (\<lambda>l r. F r \<and> P l r) mk nl nr L R = join_rows Left P mk nl nr L (filter F R)"
    by (simp add: left_outer_def)
  then show ?thesis
    using assms by (cases jt) (auto intro!: filter_cong)
qed

text \<open>
  C33.  \<open>on_lr_is_preserved\<close> is exact: a filter of the join condition that reads one side only may be
  moved below the join, onto that side, for every input exactly when that side is reported as
  preserved.
\<close>

theorem on_filter_pushdown_exact:
  "(fst (on_lr_is_preserved jt) \<longleftrightarrow>
     (\<forall>P F (mk :: 'v row list \<Rightarrow> 'v option) nl nr L R.
        join_rows jt (\<lambda>l r. F l \<and> P l r) mk nl nr L R = join_rows jt P mk nl nr (filter F L) R))
   \<and> (snd (on_lr_is_preserved jt) \<longleftrightarrow>
     (\<forall>P F (mk :: 'v row list \<Rightarrow> 'v option) nl nr L R.
        join_rows jt (\<lambda>l r. F r \<and> P l r) mk nl nr L R = join_rows jt P mk nl nr L (filter F R)))"
proof (intro conjI iffI allI)
  fix P F and mk :: "'v row list \<Rightarrow> 'v option" and nl nr L R
  show "fst (on_lr_is_preserved jt) \<Longrightarrow>
      join_rows jt (\<lambda>l r. F l \<and> P l r) mk nl nr L R = join_rows jt P mk nl nr (filter F L) R"
    by (rule pushdown_left)
  show "snd (on_lr_is_preserved jt) \<Longrightarrow>
      join_rows jt (\<lambda>l r. F r \<and> P l r) mk nl nr L R = join_rows jt P mk nl nr L (filter F R)"
    by (rule pushdown_right)
next
  assume "\<forall>P F (mk :: 'v row list \<Rightarrow> 'v option) nl nr L R.
      join_rows jt (\<lambda>l r. F l \<and> P l r) mk nl nr L R = join_rows jt P mk nl nr (filter F L) R"
  from this [rule_format, of "\<lambda>_. False" "\<lambda>_ _. True" "\<lambda>_. None" 0 0 "[[]]" "[]"]
  show "fst (on_lr_is_preserved jt)" by (cases jt) (auto simp: left_outer_def)
next
  assume "\<forall>P F (mk :: 'v row list \<Rightarrow> 'v option) nl nr L R.
      join_rows jt (\<lambda>l r. F r \<and> P l r) mk nl nr L R = join_rows jt P mk nl nr L (filter F R)"
  from this [rule_format, of "\<lambda>_. False" "\<lambda>_ _. True" "\<lambda>_. None" 0 0 "[]" "[[]]"]
  show "snd (on_lr_is_preserved jt)" by (cases jt) (auto simp: left_outer_def right_outer_def)
qed

text \<open>
  The two shortcuts for an empty build side are exact: an empty left input empties the result for
  every right input, and a join condition that never holds empties it for all inputs, exactly for the
  join types that the two predicates list.
\<close>

theorem empty_build_side_exact:
  "(empty_build_side_produces_empty_result jt \<longleftrightarrow>
     (\<forall>P (mk :: 'v row list \<Rightarrow> 'v option) nl nr R. join_rows jt P mk nl nr [] R = []))
   \<and> (empty_map_produces_empty_result jt \<longleftrightarrow>
     (\<forall>(mk :: 'v row list \<Rightarrow> 'v option) nl nr L R. join_rows jt (\<lambda>_ _. False) mk nl nr L R = []))"
proof (intro conjI iffI allI)
  fix P and mk :: "'v row list \<Rightarrow> 'v option" and nl nr L R
  show "empty_build_side_produces_empty_result jt \<Longrightarrow> join_rows jt P mk nl nr [] R = []"
    by (cases jt) (auto simp: empty_build_side_produces_empty_result_def left_outer_def)
  show "empty_map_produces_empty_result jt \<Longrightarrow> join_rows jt (\<lambda>_ _. False) mk nl nr L R = []"
    by (cases jt) (auto simp: empty_map_produces_empty_result_def)
next
  assume "\<forall>P (mk :: 'v row list \<Rightarrow> 'v option) nl nr R. join_rows jt P mk nl nr [] R = []"
  from this [rule_format, of "\<lambda>_ _. True" "\<lambda>_. None" 0 0 "[[]]"]
  show "empty_build_side_produces_empty_result jt"
    by (cases jt) (auto simp: empty_build_side_produces_empty_result_def left_outer_def right_outer_def)
next
  assume "\<forall>(mk :: 'v row list \<Rightarrow> 'v option) nl nr L R. join_rows jt (\<lambda>_ _. False) mk nl nr L R = []"
  from this [rule_format, of "\<lambda>_. None" 0 0 "[[]]" "[[]]"]
  show "empty_map_produces_empty_result jt"
    by (cases jt) (auto simp: empty_map_produces_empty_result_def left_outer_def right_outer_def)
qed

text \<open>\<open>is_outer\<close> lists the join types that pad rows with NULLs.\<close>

lemma is_outer_swap: "is_outer (swap jt) = is_outer jt"
  by (cases jt) (simp_all add: is_outer_def)

theorem join_swap_same_rows_witness:
  "mset (map (flip_row 1) (join_rows Left (\<lambda>l r. l = r) (\<lambda>_. None) 1 1 [[Some 1], [Some 2]] [[Some (2::nat)]]))
     = mset (join_rows Right (\<lambda>r l. l = r) (\<lambda>_. None) 1 1 [[Some 2]] [[Some 1], [Some 2]])"
  using join_swap_same_rows [of "[[Some 1], [Some 2]]" 1 Left "\<lambda>l r. l = r" "\<lambda>_. None" 1 "[[Some (2::nat)]]"]
  by simp

end
