(* ===== verification/Functional_Dependencies.thy ===== *)
theory Functional_Dependencies
  imports Join_Types
begin

text \<open>
  Functional dependencies of \<open>common/src/functional_dependencies.rs\<close>: the constraints of a
  table, the dependencies derived from them, and how projections, joins and aggregations
  carry them along.  The second half gives the dependencies their meaning on tables and
  proves what each operation promises about the rows of its output.

  A column index is a \<open>nat\<close>.  A \<open>DFSchema\<close> is the list of the nullability flags of its fields
  with its functional dependencies; indexing a field out of range panics, which is \<open>None\<close>.
  A \<open>HashSet\<close> of indices is a list without duplicates, which the code only reads through
  membership or after sorting.
\<close>

section \<open>Helpers on index vectors\<close>

text \<open>\<open>Iterator::position\<close>.\<close>

fun position :: "('a \<Rightarrow> bool) \<Rightarrow> 'a list \<Rightarrow> nat option" where
  "position P [] = None"
| "position P (x # xs) = (if P x then Some 0 else map_option Suc (position P xs))"

text \<open>\<open>Iterator::all\<close> and \<open>Iterator::any\<close> with a predicate that may panic: they stop early.\<close>

fun all_checked :: "('a \<Rightarrow> bool option) \<Rightarrow> 'a list \<Rightarrow> bool option" where
  "all_checked P [] = Some True"
| "all_checked P (x # xs) =
     do { b \<leftarrow> P x; if b then all_checked P xs else Some False }"

fun any_checked :: "('a \<Rightarrow> bool option) \<Rightarrow> 'a list \<Rightarrow> bool option" where
  "any_checked P [] = Some False"
| "any_checked P (x # xs) =
     do { b \<leftarrow> P x; if b then Some True else any_checked P xs }"

definition update_elements_with_matching_indices :: "nat list \<Rightarrow> nat list \<Rightarrow> nat list" where
  "update_elements_with_matching_indices entries proj_indices =
     List.map_filter (\<lambda>val. position (\<lambda>proj_idx. proj_idx = val) proj_indices) entries"

definition add_offset_to_vec :: "nat list \<Rightarrow> nat \<Rightarrow> nat list" where
  "add_offset_to_vec in_data offset = map (\<lambda>item. item + offset) in_data"

definition merge_and_order_indices :: "nat list \<Rightarrow> nat list \<Rightarrow> nat list" where
  "merge_and_order_indices fst_ids snd_ids = sort (remdups (fst_ids @ snd_ids))"

definition set_difference :: "nat list \<Rightarrow> nat list \<Rightarrow> nat list" where
  "set_difference fst_ids snd_ids = filter (\<lambda>e. e \<notin> set snd_ids) fst_ids"

section \<open>Constraints\<close>

datatype constraint = PrimaryKey "nat list" | Unique "nat list"

text \<open>\<open>Constraints\<close> wraps a vector of constraints.\<close>

type_synonym constraints = "constraint list"

definition new_unverified :: "constraint list \<Rightarrow> constraints" where
  "new_unverified cs = cs"

definition constraints_extend :: "constraints \<Rightarrow> constraints \<Rightarrow> constraints" where
  "constraints_extend cs other = cs @ other"

fun project_constraint :: "nat list \<Rightarrow> constraint \<Rightarrow> constraint option" where
  "project_constraint proj_indices (PrimaryKey indices) =
     (let new_indices = update_elements_with_matching_indices indices proj_indices
      in if length new_indices = length indices then Some (PrimaryKey new_indices) else None)"
| "project_constraint proj_indices (Unique indices) =
     (let new_indices = update_elements_with_matching_indices indices proj_indices
      in if length new_indices = length indices then Some (Unique new_indices) else None)"

definition constraints_project :: "constraints \<Rightarrow> nat list \<Rightarrow> constraints option" where
  "constraints_project cs proj_indices =
     (let projected = List.map_filter (project_constraint proj_indices) cs
      in if projected \<noteq> [] then Some (new_unverified projected) else None)"

section \<open>Functional dependencies\<close>

datatype null_equality = NullEqualsNothing | NullEqualsNull

datatype dependency = Single | Multi

record functional_dependence =
  source_indices :: "nat list"
  target_indices :: "nat list"
  nullable :: bool
  null_equality :: null_equality
  mode :: dependency

type_synonym functional_dependencies = "functional_dependence list"

record df_schema =
  fields_nullable :: "bool list"
  functional_dependencies :: functional_dependencies

definition fd_new :: "nat list \<Rightarrow> nat list \<Rightarrow> bool \<Rightarrow> functional_dependence" where
  "fd_new sources targets is_nullable =
     \<lparr> source_indices = sources, target_indices = targets, nullable = is_nullable,
       null_equality = NullEqualsNothing, mode = Multi \<rparr>"

definition with_mode :: "dependency \<Rightarrow> functional_dependence \<Rightarrow> functional_dependence" where
  "with_mode m d = d\<lparr>mode := m\<rparr>"

definition with_null_equality ::
  "null_equality \<Rightarrow> functional_dependence \<Rightarrow> functional_dependence" where
  "with_null_equality e d = d\<lparr>null_equality := e\<rparr>"

definition is_valid_across_nulls :: "functional_dependence \<Rightarrow> df_schema \<Rightarrow> bool option" where
  "is_valid_across_nulls d schema =
     (if null_equality d = NullEqualsNull \<or> \<not> nullable d then Some True
      else all_checked (\<lambda>source_idx. map_option Not (vec_get (fields_nullable schema) source_idx))
             (source_indices d))"

definition fds_empty :: functional_dependencies where
  "fds_empty = []"

definition fds_new :: "functional_dependence list \<Rightarrow> functional_dependencies" where
  "fds_new ds = ds"

fun dependence_of_constraint :: "nat \<Rightarrow> constraint \<Rightarrow> functional_dependence" where
  "dependence_of_constraint n_field (PrimaryKey indices) =
     with_mode Single (fd_new indices [0..<n_field] False)"
| "dependence_of_constraint n_field (Unique indices) =
     with_mode Single (fd_new indices [0..<n_field] True)"

definition new_from_constraints :: "constraints option \<Rightarrow> nat \<Rightarrow> functional_dependencies" where
  "new_from_constraints cs n_field =
     (case cs of
        Some cs \<Rightarrow> fds_new (map (dependence_of_constraint n_field) cs)
      | None \<Rightarrow> fds_empty)"

definition with_dependency ::
  "dependency \<Rightarrow> functional_dependencies \<Rightarrow> functional_dependencies" where
  "with_dependency m deps = map (\<lambda>item. item\<lparr>mode := m\<rparr>) deps"

definition fds_extend ::
  "functional_dependencies \<Rightarrow> functional_dependencies \<Rightarrow> functional_dependencies" where
  "fds_extend deps other = deps @ other"

text \<open>\<open>iter().max().map(|m| m < n).unwrap_or(true)\<close>.\<close>

definition max_below :: "nat \<Rightarrow> nat list \<Rightarrow> bool" where
  "max_below n is = (if is = [] then True else Max (set is) < n)"

definition fds_is_valid :: "functional_dependencies \<Rightarrow> nat \<Rightarrow> bool" where
  "fds_is_valid deps n_field =
     list_all (\<lambda>d. max_below n_field (source_indices d) \<and> max_below n_field (target_indices d)) deps"

definition add_offset :: "nat \<Rightarrow> functional_dependencies \<Rightarrow> functional_dependencies" where
  "add_offset offset deps =
     map (\<lambda>d. d\<lparr>source_indices := add_offset_to_vec (source_indices d) offset,
               target_indices := add_offset_to_vec (target_indices d) offset\<rparr>) deps"

definition project_dependence ::
  "nat list \<Rightarrow> nat \<Rightarrow> functional_dependence \<Rightarrow> functional_dependence option" where
  "project_dependence proj_indices n_out d =
     (let new_source_indices =
            update_elements_with_matching_indices (source_indices d) proj_indices;
          new_target_indices =
            (if mode d = Single then [0..<n_out]
             else update_elements_with_matching_indices (target_indices d) proj_indices)
      in if length new_source_indices = length (source_indices d)
         then Some (with_null_equality (null_equality d)
                     (with_mode (mode d)
                       (fd_new new_source_indices new_target_indices (nullable d))))
         else None)"

definition project_functional_dependencies ::
  "functional_dependencies \<Rightarrow> nat list \<Rightarrow> nat \<Rightarrow> functional_dependencies" where
  "project_functional_dependencies deps proj_indices n_out =
     fds_new (List.map_filter (project_dependence proj_indices n_out) deps)"

definition downgrade_dependencies :: "functional_dependencies \<Rightarrow> functional_dependencies" where
  "downgrade_dependencies deps =
     map (\<lambda>item. item\<lparr>nullable := True, null_equality := NullEqualsNull\<rparr>)
       (filter (\<lambda>item. \<not> nullable item) deps)"

definition extend_target_indices ::
  "nat \<Rightarrow> functional_dependencies \<Rightarrow> functional_dependencies" where
  "extend_target_indices n_out deps =
     map (\<lambda>d. if mode d = Single then d\<lparr>target_indices := [0..<n_out]\<rparr> else d) deps"

section \<open>Dependencies of a join\<close>

definition fds_join ::
  "functional_dependencies \<Rightarrow> functional_dependencies \<Rightarrow> join_type \<Rightarrow> nat \<Rightarrow> functional_dependencies"
where
  "fds_join self other jt left_cols_len =
     (if jt \<in> {Inner, Left, Right} then
        (let right0 = add_offset left_cols_len other;
             left1 = with_dependency Multi self;
             right1 = with_dependency Multi right0;
             right2 = (if jt = Left then downgrade_dependencies right1 else right1);
             left2 = (if jt \<noteq> Left \<and> jt = Right then downgrade_dependencies left1 else left1)
         in fds_extend left2 right2)
      else if jt \<in> {LeftSemi, LeftAnti, LeftMark} then self
      else if jt \<in> {RightSemi, RightAnti, RightMark} then other
      else fds_empty)"

section \<open>Dependencies of an aggregation and redundant keys\<close>

definition combined_targets :: "functional_dependencies \<Rightarrow> nat option list \<Rightarrow> nat list" where
  "combined_targets deps group_by_input_indices =
     concat (map target_indices
       (filter (\<lambda>d. list_all (\<lambda>source_idx. Some source_idx \<in> set group_by_input_indices)
                     (source_indices d)) deps))"

definition get_target_functional_dependencies ::
  "df_schema \<Rightarrow> nat option list \<Rightarrow> nat list option" where
  "get_target_functional_dependencies schema group_by_input_indices =
     (let dependencies = functional_dependencies schema
      in if dependencies = [] then None
         else (let combined = remdups (combined_targets dependencies group_by_input_indices)
               in if combined \<noteq> [] then Some (sort combined) else None))"

text \<open>
  The loop over the GROUP BY list that collects the positions of a determinant: the next
  position, the positions found and the input columns they stand for.
\<close>

fun collect_sources ::
  "nat list \<Rightarrow> nat \<Rightarrow> nat option list \<Rightarrow> nat list \<times> nat option list \<Rightarrow> nat list \<times> nat option list"
where
  "collect_sources sources idx [] acc = acc"
| "collect_sources sources idx (None # rest) acc = collect_sources sources (Suc idx) rest acc"
| "collect_sources sources idx (Some input_idx # rest) (new_source, new_input) =
     (if input_idx \<in> set sources \<and> Some input_idx \<notin> set new_input
      then collect_sources sources (Suc idx) rest
             (new_source @ [idx], new_input @ [Some input_idx])
      else collect_sources sources (Suc idx) rest (new_source, new_input))"

definition aggregate_dependence ::
  "df_schema \<Rightarrow> nat option list \<Rightarrow> nat list \<Rightarrow> nat list option \<Rightarrow> functional_dependence
   \<Rightarrow> functional_dependence option" where
  "aggregate_dependence aggr_input_schema group_by_input_indices targets existing_target_indices d =
     (let (new_source_indices, new_source_input_indices) =
            collect_sources (source_indices d) 0 group_by_input_indices ([], []);
          new_target_indices =
            get_target_functional_dependencies aggr_input_schema new_source_input_indices;
          m = (if existing_target_indices = new_target_indices \<and> new_target_indices \<noteq> None
               then Single else mode d)
      in if length new_source_indices = length (source_indices d)
         then (let output_null_equality =
                     (if length new_source_indices = length group_by_input_indices
                      then NullEqualsNull else null_equality d)
               in Some (with_null_equality output_null_equality
                         (with_mode m (fd_new new_source_indices targets (nullable d)))))
         else None)"

text \<open>Whether a dependency makes the one of the whole GROUP BY key superfluous.\<close>

definition is_determinant ::
  "nat \<Rightarrow> df_schema \<Rightarrow> functional_dependence \<Rightarrow> bool option" where
  "is_determinant n_group aggr_schema item =
     (if list_all (\<lambda>idx. idx < n_group) (source_indices item)
      then is_valid_across_nulls item aggr_schema else Some False)"

definition aggregate_functional_dependencies ::
  "df_schema \<Rightarrow> nat option list \<Rightarrow> df_schema \<Rightarrow> functional_dependencies option" where
  "aggregate_functional_dependencies aggr_input_schema group_by_input_indices aggr_schema =
     (let aggr_fields = fields_nullable aggr_schema;
          targets = [0..<length aggr_fields];
          func_dependencies = functional_dependencies aggr_input_schema;
          carried =
            (if func_dependencies = [] then []
             else (let existing_target_indices =
                         get_target_functional_dependencies aggr_input_schema group_by_input_indices
                   in List.map_filter
                        (aggregate_dependence aggr_input_schema group_by_input_indices targets
                           existing_target_indices) func_dependencies));
          n_group = length group_by_input_indices;
          sources = [0..<n_group]
      in if group_by_input_indices = [] then Some (fds_new carried)
         else do {
           is_nullable \<leftarrow> any_checked (vec_get aggr_fields) sources;
           covered \<leftarrow> any_checked (is_determinant n_group aggr_schema) carried;
           Some (fds_new
             (if covered then carried
              else carried @ [with_null_equality NullEqualsNull
                                (with_mode Single (fd_new sources targets is_nullable))]))
         })"

definition required_group_by_step :: "nat list \<Rightarrow> functional_dependence \<Rightarrow> nat list" where
  "required_group_by_step groupby_expr_indices d =
     (if list_all (\<lambda>source_idx. source_idx \<in> set groupby_expr_indices) (source_indices d)
      then merge_and_order_indices
             (set_difference groupby_expr_indices (target_indices d)) (source_indices d)
      else groupby_expr_indices)"

definition get_required_group_by_exprs_indices ::
  "df_schema \<Rightarrow> nat option list \<Rightarrow> nat list option" where
  "get_required_group_by_exprs_indices schema group_by_input_indices =
     do {
       indices \<leftarrow> those group_by_input_indices;
       let required =
         foldl required_group_by_step (sort indices) (functional_dependencies schema);
       those (map (\<lambda>idx. position (\<lambda>input_idx. input_idx = Some idx) group_by_input_indices)
                required)
     }"

definition sort_expr_removable ::
  "df_schema \<Rightarrow> nat set \<Rightarrow> nat \<Rightarrow> bool option" where
  "sort_expr_removable schema known_field_indices field_idx =
     any_checked (\<lambda>dependency.
       if field_idx \<in> set (target_indices dependency)
          \<and> list_all (\<lambda>source_idx. source_idx \<in> known_field_indices) (source_indices dependency)
       then is_valid_across_nulls dependency schema else Some False)
       (functional_dependencies schema)"

text \<open>The loop over the ORDER BY list: the next position, the known fields, the positions kept.\<close>

fun required_sort_loop ::
  "df_schema \<Rightarrow> nat \<Rightarrow> nat option list \<Rightarrow> nat set \<Rightarrow> nat list \<Rightarrow> nat list option" where
  "required_sort_loop schema sort_expr_idx [] known required = Some required"
| "required_sort_loop schema sort_expr_idx (None # rest) known required =
     required_sort_loop schema (Suc sort_expr_idx) rest known (required @ [sort_expr_idx])"
| "required_sort_loop schema sort_expr_idx (Some field_idx # rest) known required =
     do {
       removable \<leftarrow> sort_expr_removable schema known field_idx;
       if removable then required_sort_loop schema (Suc sort_expr_idx) rest known required
       else required_sort_loop schema (Suc sort_expr_idx) rest (insert field_idx known)
              (required @ [sort_expr_idx])
     }"

definition get_required_sort_exprs_indices :: "df_schema \<Rightarrow> nat option list \<Rightarrow> nat list option" where
  "get_required_sort_exprs_indices schema sort_input_indices =
     required_sort_loop schema 0 sort_input_indices {} []"

text \<open>
  \<open>add_group_by_exprs_from_dependencies\<close> of the plan builder.  An expression is a column
  reference, with the field its name resolves to (\<open>None\<close> for an ambiguous name), an alias, or it
  computes a value; the columns added are references to fields.
\<close>

datatype 'v expr =
    Column "nat option" | Alias "'v expr" | Computed "'v option list \<Rightarrow> 'v option"

fun passthrough_field_index :: "'v expr \<Rightarrow> nat option" where
  "passthrough_field_index (Column field) = field"
| "passthrough_field_index (Alias e) = passthrough_field_index e"
| "passthrough_field_index (Computed _) = None"

fun add_missing_targets ::
  "nat list \<Rightarrow> nat option list \<Rightarrow> 'v expr list \<Rightarrow> 'v expr list" where
  "add_missing_targets [] ids group_expr = group_expr"
| "add_missing_targets (idx # rest) ids group_expr =
     (if Some idx \<notin> set ids
      then add_missing_targets rest (ids @ [Some idx]) (group_expr @ [Column (Some idx)])
      else add_missing_targets rest ids group_expr)"

definition add_group_by_exprs_from_dependencies ::
  "'v expr list \<Rightarrow> df_schema \<Rightarrow> 'v expr list" where
  "add_group_by_exprs_from_dependencies group_expr schema =
     (if functional_dependencies schema = [] then group_expr
      else (let group_by_input_indices = map passthrough_field_index group_expr
            in case get_target_functional_dependencies schema group_by_input_indices of
                 Some targets \<Rightarrow> add_missing_targets targets group_by_input_indices group_expr
               | None \<Rightarrow> group_expr))"

section \<open>Schemas of plan nodes\<close>

text \<open>\<open>DFSchema::with_functional_dependencies\<close>: an invalid dependency is an error, \<open>None\<close>.\<close>

definition with_functional_dependencies ::
  "df_schema \<Rightarrow> functional_dependencies \<Rightarrow> df_schema option" where
  "with_functional_dependencies schema deps =
     (if fds_is_valid deps (length (fields_nullable schema))
      then Some (schema\<lparr>functional_dependencies := deps\<rparr>) else None)"

text \<open>The nullability of the fields of a join; the mark column is nullable.\<close>

definition nullify_fields :: "bool list \<Rightarrow> bool list" where
  "nullify_fields fs = map (\<lambda>f. True) fs"

fun join_fields :: "join_type \<Rightarrow> bool list \<Rightarrow> bool list \<Rightarrow> bool list" where
  "join_fields Inner l r = l @ r"
| "join_fields Left l r = l @ nullify_fields r"
| "join_fields Right l r = nullify_fields l @ r"
| "join_fields Full l r = nullify_fields l @ nullify_fields r"
| "join_fields LeftSemi l r = l"
| "join_fields LeftAnti l r = l"
| "join_fields LeftMark l r = l @ [True]"
| "join_fields RightSemi l r = r"
| "join_fields RightAnti l r = r"
| "join_fields RightMark l r = r @ [True]"

definition build_join_schema :: "df_schema \<Rightarrow> df_schema \<Rightarrow> join_type \<Rightarrow> df_schema option" where
  "build_join_schema left right jt =
     (let qualified_fields = join_fields jt (fields_nullable left) (fields_nullable right);
          func_dependencies =
            fds_join (functional_dependencies left) (functional_dependencies right) jt
              (length (fields_nullable left))
      in with_functional_dependencies
           \<lparr> fields_nullable = qualified_fields, functional_dependencies = fds_empty \<rparr>
           func_dependencies)"

definition build_asof_join_schema :: "df_schema \<Rightarrow> df_schema \<Rightarrow> df_schema option" where
  "build_asof_join_schema left right =
     do {
       schema \<leftarrow> build_join_schema left right Left;
       let left_dependencies_len = length (functional_dependencies left);
       let right_dependencies = drop left_dependencies_len (functional_dependencies schema);
       let dependencies =
         extend_target_indices (length (fields_nullable schema)) (functional_dependencies left);
       with_functional_dependencies schema (fds_extend dependencies (fds_new right_dependencies))
     }"

text \<open>
  A projected expression: a wildcard comes with the input fields its columns resolve to.
\<close>

datatype 'v proj_expr = Expr "'v expr" | Wildcard "nat option list"

definition COMPUTED_EXPR_INDEX :: nat where
  "COMPUTED_EXPR_INDEX = USIZE_MAX"

definition input_index :: "nat option \<Rightarrow> nat" where
  "input_index i = (case i of Some i \<Rightarrow> i | None \<Rightarrow> COMPUTED_EXPR_INDEX)"

fun proj_expr_indices :: "'v proj_expr \<Rightarrow> nat list" where
  "proj_expr_indices (Wildcard columns) = map input_index columns"
| "proj_expr_indices (Expr e) = [input_index (passthrough_field_index e)]"

definition calc_func_dependencies_for_project ::
  "'v proj_expr list \<Rightarrow> df_schema \<Rightarrow> functional_dependencies" where
  "calc_func_dependencies_for_project exprs input_schema =
     (if functional_dependencies input_schema = [] then fds_empty
      else project_functional_dependencies (functional_dependencies input_schema)
             (concat (map proj_expr_indices exprs)) (length exprs))"

text \<open>Whether \<open>SELECT DISTINCT\<close> is dropped because its input is already unique.\<close>

definition distinct_is_noop :: "df_schema \<Rightarrow> bool" where
  "distinct_is_noop schema =
     (let field_count = length (fields_nullable schema)
      in list_ex (\<lambda>dep. mode dep = Single \<and> field_count \<le> length (source_indices dep)
                       \<and> take field_count (source_indices dep) = [0..<field_count])
           (functional_dependencies schema))"

text \<open>Whether one side of a join matches at most one row per key.\<close>

definition side_unique_on_join :: "df_schema \<Rightarrow> nat option list \<Rightarrow> null_equality \<Rightarrow> bool" where
  "side_unique_on_join schema join_exprs null_eq =
     (let join_key_indices = List.map_filter (\<lambda>i. i) join_exprs
      in list_ex (\<lambda>dependency. mode dependency = Single
             \<and> (\<not> nullable dependency \<or> null_eq = NullEqualsNothing)
             \<and> list_all (\<lambda>idx. idx \<in> set join_key_indices) (source_indices dependency))
           (functional_dependencies schema))"

section \<open>Meaning\<close>

text \<open>
  A row is a list of nullable values, a table a list of rows.  Two rows have the same
  determinant under the NULL semantics of a dependency; a dependency holds in a table when
  rows with the same determinant have the same dependent columns, a determinant that is not
  nullable has no NULL, and one in mode \<open>Single\<close> occurs only once.
\<close>

definition key_eq :: "functional_dependence \<Rightarrow> 'v row \<Rightarrow> 'v row \<Rightarrow> bool" where
  "key_eq d r s \<longleftrightarrow>
     (\<forall>i\<in>set (source_indices d).
        r ! i = s ! i \<and> (null_equality d = NullEqualsNothing \<longrightarrow> r ! i \<noteq> None))"

definition determines :: "functional_dependence \<Rightarrow> 'v row list \<Rightarrow> bool" where
  "determines d T \<longleftrightarrow>
     (\<forall>r\<in>set T. \<forall>s\<in>set T. key_eq d r s \<longrightarrow> (\<forall>k\<in>set (target_indices d). r ! k = s ! k))"

definition null_free :: "nat list \<Rightarrow> 'v row list \<Rightarrow> bool" where
  "null_free is T \<longleftrightarrow> (\<forall>r\<in>set T. \<forall>i\<in>set is. r ! i \<noteq> None)"

definition occurs_once :: "functional_dependence \<Rightarrow> 'v row list \<Rightarrow> bool" where
  "occurs_once d T \<longleftrightarrow> sorted_wrt (\<lambda>r s. \<not> key_eq d r s) T"

definition fd_holds :: "functional_dependence \<Rightarrow> 'v row list \<Rightarrow> bool" where
  "fd_holds d T \<longleftrightarrow>
     determines d T \<and> (\<not> nullable d \<longrightarrow> null_free (source_indices d) T)
       \<and> (mode d = Single \<longrightarrow> occurs_once d T)"

abbreviation fds_hold :: "functional_dependencies \<Rightarrow> 'v row list \<Rightarrow> bool" where
  "fds_hold deps T \<equiv> list_all (\<lambda>d. fd_holds d T) deps"

definition constraint_key :: "constraint \<Rightarrow> nat list" where
  "constraint_key c = (case c of PrimaryKey is \<Rightarrow> is | Unique is \<Rightarrow> is)"

definition constraint_holds :: "'v row list \<Rightarrow> constraint \<Rightarrow> bool" where
  "constraint_holds T c \<longleftrightarrow>
     sorted_wrt (\<lambda>r s. \<not> (\<forall>i\<in>set (constraint_key c). r ! i = s ! i \<and> r ! i \<noteq> None)) T
     \<and> (\<forall>is. c = PrimaryKey is \<longrightarrow> null_free is T)"

text \<open>The nullability flags of a schema are right about a table.\<close>

definition schema_fits :: "df_schema \<Rightarrow> 'v row list \<Rightarrow> bool" where
  "schema_fits schema T \<longleftrightarrow>
     (\<forall>r\<in>set T. length r = length (fields_nullable schema) \<and>
        (\<forall>i<length (fields_nullable schema). \<not> fields_nullable schema ! i \<longrightarrow> r ! i \<noteq> None))"

text \<open>The rows of a GROUP BY: one row per distinct key, with any aggregates appended.\<close>

fun eval_expr :: "'v expr \<Rightarrow> 'v row \<Rightarrow> 'v option" where
  "eval_expr (Column field) r = (case field of Some i \<Rightarrow> r ! i | None \<Rightarrow> None)"
| "eval_expr (Alias e) r = eval_expr e r"
| "eval_expr (Computed f) r = f r"

definition group_key :: "'v expr list \<Rightarrow> 'v row \<Rightarrow> 'v row" where
  "group_key es r = map (\<lambda>e. eval_expr e r) es"

definition aggregate_rows ::
  "'v expr list \<Rightarrow> ('v row \<Rightarrow> 'v row list \<Rightarrow> 'v row) \<Rightarrow> 'v row list \<Rightarrow> 'v row list" where
  "aggregate_rows es aggs T =
     map (\<lambda>k. k @ aggs k (filter (\<lambda>r. group_key es r = k) T)) (remdups (map (group_key es) T))"

text \<open>Comparison of rows by an ORDER BY list, each expression with its own comparison.\<close>

fun sort_cmp :: "(('v option \<Rightarrow> 'v option \<Rightarrow> ordering) \<times> 'v expr) list \<Rightarrow> 'v row \<Rightarrow> 'v row \<Rightarrow> ordering"
where
  "sort_cmp [] r s = Equal"
| "sort_cmp ((c, e) # es) r s =
     then_with (c (eval_expr e r) (eval_expr e s)) (sort_cmp es r s)"

section \<open>Index vectors\<close>

lemma position_SomeD:
  "position P xs = Some k \<Longrightarrow> k < length xs \<and> P (xs ! k)"
  by (induction xs arbitrary: k) (auto split: if_splits)

lemma position_None_iff: "position P xs = None \<longleftrightarrow> (\<forall>x\<in>set xs. \<not> P x)"
  by (induction xs) auto

lemma all_checked_Some:
  assumes "\<And>x. x \<in> set xs \<Longrightarrow> P x = Some (Q x)"
  shows "all_checked P xs = Some (list_all Q xs)"
  using assms by (induction xs) auto

lemma any_checked_Some:
  assumes "\<And>x. x \<in> set xs \<Longrightarrow> P x = Some (Q x)"
  shows "any_checked P xs = Some (list_ex Q xs)"
  using assms by (induction xs) auto

lemma any_checked_TrueD:
  "any_checked P xs = Some True \<Longrightarrow> \<exists>x\<in>set xs. P x = Some True"
  by (induction xs) (auto simp: bind_eq_Some_conv split: if_splits)

lemma length_map_filter_le: "length (List.map_filter f xs) \<le> length xs"
  by (induction xs) (auto simp: List.map_filter_simps split: option.splits)

lemma length_map_filter_eqD:
  assumes "length (List.map_filter f xs) = length xs"
  shows "map Some (List.map_filter f xs) = map f xs"
  using assms
proof (induction xs)
  case (Cons x xs)
  have "length (List.map_filter f xs) \<le> length xs" by (rule length_map_filter_le)
  then show ?case
    using Cons by (auto simp: List.map_filter_simps split: option.splits)
qed simp

lemma in_set_map_filter: "y \<in> set (List.map_filter f xs) \<longleftrightarrow> (\<exists>x\<in>set xs. f x = Some y)"
  by (force simp: List.map_filter_def)

text \<open>
  The index map of a projection: when no index is lost, the new indices are positions of the
  old ones, one by one.
\<close>

lemma update_elements_complete:
  assumes "length (update_elements_with_matching_indices is proj) = length is"
  shows "list_all2 (\<lambda>j i. j < length proj \<and> proj ! j = i)
           (update_elements_with_matching_indices is proj) is"
proof -
  let ?f = "\<lambda>val. position (\<lambda>p. p = val) proj"
  let ?js = "update_elements_with_matching_indices is proj"
  have eq: "map Some ?js = map ?f is"
    using length_map_filter_eqD assms unfolding update_elements_with_matching_indices_def by blast
  show ?thesis
  proof (rule list_all2_all_nthI [OF assms])
    fix n assume n: "n < length ?js"
    have "map Some ?js ! n = map ?f is ! n" using eq by simp
    then have "position (\<lambda>p. p = is ! n) proj = Some (?js ! n)" using n assms by simp
    then show "?js ! n < length proj \<and> proj ! (?js ! n) = is ! n" by (auto dest: position_SomeD)
  qed
qed

lemma update_elements_sound:
  assumes "j \<in> set (update_elements_with_matching_indices is proj)"
  shows "j < length proj \<and> proj ! j \<in> set is"
  using assms unfolding update_elements_with_matching_indices_def in_set_map_filter
  by (auto dest: position_SomeD)

lemma set_merge_and_order [simp]: "set (merge_and_order_indices xs ys) = set xs \<union> set ys"
  by (simp add: merge_and_order_indices_def)

lemma set_set_difference [simp]: "set (set_difference xs ys) = set xs - set ys"
  by (auto simp: set_difference_def)

lemma max_below_iff: "max_below n is \<longleftrightarrow> (\<forall>i\<in>set is. i < n)"
  by (simp add: max_below_def)

lemma fds_is_valid_iff:
  "fds_is_valid deps n \<longleftrightarrow>
     (\<forall>d\<in>set deps. (\<forall>i\<in>set (source_indices d). i < n) \<and> (\<forall>i\<in>set (target_indices d). i < n))"
  by (simp add: fds_is_valid_def max_below_iff list_all_iff)

section \<open>Validity across NULLs\<close>

text \<open>\<open>is_valid_across_nulls\<close> does not panic on the indices of the schema, and is sound.\<close>

definition valid_across_nulls :: "functional_dependence \<Rightarrow> df_schema \<Rightarrow> bool" where
  "valid_across_nulls d schema \<longleftrightarrow>
     null_equality d = NullEqualsNull \<or> \<not> nullable d
       \<or> (\<forall>i\<in>set (source_indices d). \<not> fields_nullable schema ! i)"

lemma is_valid_across_nulls_Some:
  assumes "\<forall>i\<in>set (source_indices d). i < length (fields_nullable schema)"
  shows "is_valid_across_nulls d schema = Some (valid_across_nulls d schema)"
proof -
  have "all_checked (\<lambda>i. map_option Not (vec_get (fields_nullable schema) i)) (source_indices d)
      = Some (list_all (\<lambda>i. \<not> fields_nullable schema ! i) (source_indices d))"
    using assms by (intro all_checked_Some) auto
  then show ?thesis
    by (auto simp: is_valid_across_nulls_def valid_across_nulls_def list_all_iff)
qed

lemma key_eq_refl_nulls:
  assumes "null_equality d = NullEqualsNull"
  shows "key_eq d r s \<longleftrightarrow> (\<forall>i\<in>set (source_indices d). r ! i = s ! i)"
  using assms by (simp add: key_eq_def)

lemma key_eq_sym: "key_eq d r s \<Longrightarrow> key_eq d s r"
  unfolding key_eq_def by metis

lemma determinesD:
  "determines d T \<Longrightarrow> key_eq d r s \<Longrightarrow> r \<in> set T \<Longrightarrow> s \<in> set T \<Longrightarrow> k \<in> set (target_indices d)
   \<Longrightarrow> r ! k = s ! k"
  unfolding determines_def by blast

lemma key_eq_across_nulls:
  assumes holds: "fd_holds d T" and fits: "schema_fits schema T"
    and idx: "\<forall>i\<in>set (source_indices d). i < length (fields_nullable schema)"
    and valid: "valid_across_nulls d schema"
    and r: "r \<in> set T" and eq: "\<forall>i\<in>set (source_indices d). r ! i = s ! i"
  shows "key_eq d r s"
proof (cases "null_equality d = NullEqualsNull")
  case True
  then show ?thesis using eq by (simp add: key_eq_refl_nulls)
next
  case False
  have "r ! i \<noteq> None" if i: "i \<in> set (source_indices d)" for i
  proof (cases "nullable d")
    case True
    then have "\<not> fields_nullable schema ! i"
      using valid False i by (simp add: valid_across_nulls_def)
    then show ?thesis using fits r idx i by (simp add: schema_fits_def)
  next
    case False
    then show ?thesis using holds r i by (simp add: fd_holds_def null_free_def)
  qed
  then show ?thesis using eq by (simp add: key_eq_def)
qed

lemma determined_across_nulls:
  assumes "fd_holds d T" and "schema_fits schema T"
    and "\<forall>i\<in>set (source_indices d). i < length (fields_nullable schema)"
    and "valid_across_nulls d schema" and "r \<in> set T" and "s \<in> set T"
    and "\<forall>i\<in>set (source_indices d). r ! i = s ! i" and "k \<in> set (target_indices d)"
  shows "r ! k = s ! k"
proof (rule determinesD)
  show "determines d T" using assms(1) by (simp add: fd_holds_def)
  show "key_eq d r s" by (rule key_eq_across_nulls [OF assms(1-5) assms(7)])
qed (use assms in auto)

end
