(* ===== verification/Dependency_Soundness.thy ===== *)
theory Dependency_Soundness
  imports Functional_Dependencies
begin

text \<open>
  Soundness of the functional dependencies: what the operations of \<open>Functional_Dependencies\<close>
  derive for the output of a projection, a join or an aggregation holds in its rows; what the
  optimizer removes on the strength of a dependency was redundant.  The invariant carried through
  is \<open>schema_ok\<close>: the nullability flags and the dependencies of a schema are right about a table.
  The last section has the inputs on which the rules of the code are not right.
\<close>

section \<open>Projections and constraints\<close>

lemma occurs_once_eq:
  assumes "occurs_once d T" and "r \<in> set T" and "s \<in> set T" and "key_eq d r s"
  shows "\<exists>i<length T. r = T ! i \<and> s = T ! i"
proof -
  obtain i j where i: "i < length T" "r = T ! i" and j: "j < length T" "s = T ! j"
    using assms(2,3) by (metis in_set_conv_nth)
  have "\<not> i < j"
    using assms(1,4) i j unfolding occurs_once_def by (metis sorted_wrt_nth_less)
  moreover have "\<not> j < i"
    using assms(1) key_eq_sym [OF assms(4)] i j unfolding occurs_once_def by (metis sorted_wrt_nth_less)
  ultimately show ?thesis using i j by (metis linorder_neqE_nat)
qed

lemma occurs_once_determines:
  "occurs_once d T \<Longrightarrow> determines d T"
  unfolding determines_def using occurs_once_eq by blast

lemma fd_holds_single:
  assumes "occurs_once d T" and "\<not> nullable d \<Longrightarrow> null_free (source_indices d) T"
  shows "fd_holds d T"
  using assms occurs_once_determines by (simp add: fd_holds_def)

lemma dependence_of_constraint_holds:
  assumes "constraint_holds T c"
  shows "fd_holds (dependence_of_constraint n c) T"
proof -
  have "occurs_once (dependence_of_constraint n c) T"
    using assms
    by (cases c) (auto simp: occurs_once_def constraint_holds_def constraint_key_def key_eq_def
        with_mode_def fd_new_def)
  then show ?thesis
    using assms by (intro fd_holds_single; cases c)
      (auto simp: constraint_holds_def with_mode_def fd_new_def)
qed

text \<open>A row of the output of a projection agrees with its input row on the columns passed through.\<close>

definition projects :: "nat list \<Rightarrow> nat \<Rightarrow> 'v row \<Rightarrow> 'v row \<Rightarrow> bool" where
  "projects proj n r r' \<longleftrightarrow> (\<forall>j<length proj. proj ! j < n \<longrightarrow> r' ! j = r ! (proj ! j))"

lemma projectsD:
  "projects proj n r r' \<Longrightarrow> j < length proj \<Longrightarrow> proj ! j < n \<Longrightarrow> r' ! j = r ! (proj ! j)"
  by (simp add: projects_def)

lemma projects_key:
  assumes js: "list_all2 (\<lambda>j i. j < length proj \<and> proj ! j = i) js is" and idx: "\<forall>i\<in>set is. i < n"
    and r: "projects proj n r r'" and s: "projects proj n s s'"
  shows "(\<forall>j\<in>set js. r' ! j = s' ! j \<and> (N \<longrightarrow> r' ! j \<noteq> None)) \<longleftrightarrow>
         (\<forall>i\<in>set is. r ! i = s ! i \<and> (N \<longrightarrow> r ! i \<noteq> None))"
  using js idx
proof (induction js "is" rule: list_all2_induct)
  case (Cons j js i "is")
  have "r' ! j = r ! i" "s' ! j = s ! i"
    using Cons projectsD [OF r, of j] projectsD [OF s, of j] by auto
  then show ?case using Cons by simp
qed simp

lemma list_all2_flip_rel: "list_all2 Q xs ys \<Longrightarrow> list_all2 (\<lambda>y x. Q x y) ys xs"
  by (induction rule: list_all2_induct) auto

lemma list_all2_setD2:
  "list_all2 Q xs ys \<Longrightarrow> y \<in> set ys \<Longrightarrow> \<exists>x\<in>set xs. Q x y"
  by (induction rule: list_all2_induct) auto

lemma sorted_wrt_list_all2:
  assumes "list_all2 Q xs ys" and "sorted_wrt P xs"
    and "\<And>x x' y y'. Q x y \<Longrightarrow> Q x' y' \<Longrightarrow> P x x' \<Longrightarrow> P' y y'"
  shows "sorted_wrt P' ys"
  using assms(1,2)
proof (induction rule: list_all2_induct)
  case (Cons x xs y ys)
  have "P' y y'" if y': "y' \<in> set ys" for y'
  proof -
    obtain x' where x': "x' \<in> set xs" "Q x' y'"
      using list_all2_setD2 [OF Cons.hyps(2) y'] by blast
    show ?thesis by (rule assms(3) [OF Cons.hyps(1) x'(2)]) (use Cons.prems x' in simp)
  qed
  then show ?case using Cons by simp
qed simp

lemma null_free_projects:
  assumes js: "list_all2 (\<lambda>j i. j < length proj \<and> proj ! j = i) js is"
    and "\<forall>i\<in>set is. i < n"
    and rows: "list_all2 (projects proj n) T T'" and "null_free is T"
  shows "null_free js T'"
  unfolding null_free_def
proof (intro ballI)
  fix r' j assume r': "r' \<in> set T'" and j: "j \<in> set js"
  obtain r where r: "r \<in> set T" "projects proj n r r'"
    using list_all2_setD2 [OF rows r'] by blast
  obtain i where i: "i \<in> set is" "j < length proj" "proj ! j = i"
    using list_all2_setD2 [OF list_all2_flip_rel [OF js] j] by blast
  have "r' ! j = r ! i" using projectsD [OF r(2) i(2)] i assms(2) by simp
  then show "r' ! j \<noteq> None" using assms(4) r i by (auto simp: null_free_def)
qed

lemma constraint_projects:
  assumes c: "constraint_holds T c" and p: "project_constraint proj c = Some c'"
    and idx: "\<forall>i\<in>set (constraint_key c). i < n" and rows: "list_all2 (projects proj n) T T'"
  shows "constraint_holds T' c'"
proof -
  have js: "list_all2 (\<lambda>j i. j < length proj \<and> proj ! j = i) (constraint_key c') (constraint_key c)"
    using p update_elements_complete
    by (cases c) (auto simp: Let_def constraint_key_def split: if_splits)
  have "sorted_wrt (\<lambda>r s. \<not> (\<forall>i\<in>set (constraint_key c'). r ! i = s ! i \<and> (True \<longrightarrow> r ! i \<noteq> None))) T'"
  proof (rule sorted_wrt_list_all2 [OF rows])
    show "sorted_wrt (\<lambda>r s. \<not> (\<forall>i\<in>set (constraint_key c).
            r ! i = s ! i \<and> (True \<longrightarrow> r ! i \<noteq> None))) T"
      using c by (simp add: constraint_holds_def)
  qed (simp only: projects_key [OF js idx] not_False_eq_True)
  moreover have "null_free is T'" if c': "c' = PrimaryKey is" for "is"
  proof -
    obtain is0 where "c = PrimaryKey is0"
      using p c' by (cases c) (auto simp: Let_def split: if_splits)
    then show ?thesis
      using c' js idx rows c null_free_projects
      by (auto simp: constraint_key_def constraint_holds_def)
  qed
  ultimately show ?thesis by (simp add: constraint_holds_def)
qed

lemma project_dependence_holds:
  assumes d: "fd_holds d T" and p: "project_dependence proj n_out d = Some d'"
    and src: "\<forall>i\<in>set (source_indices d). i < n" and tgt: "\<forall>i\<in>set (target_indices d). i < n"
    and rows: "list_all2 (projects proj n) T T'"
  shows "fd_holds d' T'"
proof -
  have js: "list_all2 (\<lambda>j i. j < length proj \<and> proj ! j = i) (source_indices d') (source_indices d)"
    and eqs: "null_equality d' = null_equality d" "nullable d' = nullable d" "mode d' = mode d"
    and tg: "mode d \<noteq> Single \<Longrightarrow>
        target_indices d' = update_elements_with_matching_indices (target_indices d) proj"
    using p update_elements_complete
    by (auto simp: project_dependence_def Let_def with_mode_def with_null_equality_def fd_new_def
        split: if_splits)
  have key: "key_eq d' r' s' \<longleftrightarrow> key_eq d r s" if "projects proj n r r'" "projects proj n s s'" for r r' s s'
    unfolding key_eq_def eqs by (rule projects_key [OF js src that])
  have nf: "\<not> nullable d' \<Longrightarrow> null_free (source_indices d') T'"
    using null_free_projects [OF js src rows] d eqs by (simp add: fd_holds_def)
  show ?thesis
  proof (cases "mode d = Single")
    case True
    have "occurs_once d' T'" unfolding occurs_once_def
    proof (rule sorted_wrt_list_all2 [OF rows])
      show "sorted_wrt (\<lambda>r s. \<not> key_eq d r s) T"
        using d True by (simp add: fd_holds_def occurs_once_def)
    qed (simp add: key)
    then show ?thesis using nf by (rule fd_holds_single)
  next
    case False
    have "determines d' T'" unfolding determines_def
    proof (intro ballI impI)
      fix r' s' j
      assume r': "r' \<in> set T'" and s': "s' \<in> set T'" and eq: "key_eq d' r' s'"
        and j: "j \<in> set (target_indices d')"
      obtain r where r: "r \<in> set T" "projects proj n r r'" using list_all2_setD2 [OF rows r'] by blast
      obtain s where s: "s \<in> set T" "projects proj n s s'" using list_all2_setD2 [OF rows s'] by blast
      have jp: "j < length proj" "proj ! j \<in> set (target_indices d)"
        using j tg [OF False] update_elements_sound by auto
      have "r ! (proj ! j) = s ! (proj ! j)"
        using determinesD [of d T r s] d key [OF r(2) s(2)] eq r s jp by (simp add: fd_holds_def)
      then show "r' ! j = s' ! j" using r s jp tgt by (auto simp: projects_def)
    qed
    then show ?thesis using nf False eqs by (simp add: fd_holds_def)
  qed
qed

lemma project_functional_dependencies_hold:
  assumes "fds_hold deps T" and "fds_is_valid deps n" and "list_all2 (projects proj n) T T'"
  shows "fds_hold (project_functional_dependencies deps proj n_out) T'"
  unfolding project_functional_dependencies_def fds_new_def list_all_iff
proof
  fix d' assume "d' \<in> set (List.map_filter (project_dependence proj n_out) deps)"
  then obtain d where "d \<in> set deps" "project_dependence proj n_out d = Some d'"
    by (auto simp: in_set_map_filter)
  then show "fd_holds d' T'"
    using assms project_dependence_holds [of d T proj n_out d' n T']
    by (auto simp: list_all_iff fds_is_valid_iff)
qed

section \<open>Joins\<close>

lemma fd_holds_subset:
  assumes "fd_holds d T" and "set T' \<subseteq> set T" and "mode d = Single \<Longrightarrow> occurs_once d T'"
  shows "fd_holds d T'"
  using assms unfolding fd_holds_def determines_def null_free_def by blast

lemma fd_holds_filter: "fd_holds d T \<Longrightarrow> fd_holds d (filter P T)"
  by (rule fd_holds_subset) (auto simp: fd_holds_def occurs_once_def sorted_wrt_filter)

text \<open>Rows that extend the rows of a table keep its dependencies.\<close>

lemma fd_holds_extends:
  assumes d: "fd_holds d T"
    and src: "\<forall>i\<in>set (source_indices d). i < n" and tgt: "\<forall>i\<in>set (target_indices d). i < n"
    and rows: "list_all2 (\<lambda>r r'. \<forall>i<n. r' ! i = r ! i) T T'"
  shows "fd_holds d T'"
proof -
  have key: "key_eq d r' s' \<longleftrightarrow> key_eq d r s"
    if "\<forall>i<n. r' ! i = r ! i" "\<forall>i<n. s' ! i = s ! i" for r r' s s'
    using that src by (simp add: key_eq_def)
  have "determines d T'" unfolding determines_def
  proof (intro ballI impI)
    fix r' s' k assume r': "r' \<in> set T'" and s': "s' \<in> set T'" and eq: "key_eq d r' s'"
      and k: "k \<in> set (target_indices d)"
    obtain r where r: "r \<in> set T" "\<forall>i<n. r' ! i = r ! i" using list_all2_setD2 [OF rows r'] by blast
    obtain s where s: "s \<in> set T" "\<forall>i<n. s' ! i = s ! i" using list_all2_setD2 [OF rows s'] by blast
    have "r ! k = s ! k"
      using determinesD [of d T r s k] d key [OF r(2) s(2)] eq r s k by (simp add: fd_holds_def)
    then show "r' ! k = s' ! k" using r s k tgt by simp
  qed
  moreover have "null_free (source_indices d) T'" if nn: "\<not> nullable d" unfolding null_free_def
  proof (intro ballI)
    fix r' i assume r': "r' \<in> set T'" and i: "i \<in> set (source_indices d)"
    obtain r where "r \<in> set T" "\<forall>i<n. r' ! i = r ! i" using list_all2_setD2 [OF rows r'] by blast
    then show "r' ! i \<noteq> None" using d nn i src by (simp add: fd_holds_def null_free_def)
  qed
  moreover have "occurs_once d T'" if "mode d = Single" unfolding occurs_once_def
  proof (rule sorted_wrt_list_all2 [OF rows])
    show "sorted_wrt (\<lambda>r s. \<not> key_eq d r s) T" using d that by (simp add: fd_holds_def occurs_once_def)
  qed (use key in blast)
  ultimately show ?thesis by (simp add: fd_holds_def)
qed

text \<open>
  The dependency of one side of a join that keeps the rows of that side, at an offset, and
  may repeat them.
\<close>

definition shifted :: "nat \<Rightarrow> functional_dependence \<Rightarrow> functional_dependence" where
  "shifted off d =
     d\<lparr>source_indices := add_offset_to_vec (source_indices d) off,
       target_indices := add_offset_to_vec (target_indices d) off, mode := Multi\<rparr>"

lemma shifted_zero: "shifted 0 d = d\<lparr>mode := Multi\<rparr>"
  by (simp add: shifted_def add_offset_to_vec_def)

definition holds_row :: "nat \<Rightarrow> nat \<Rightarrow> 'v row \<Rightarrow> 'v row \<Rightarrow> bool" where
  "holds_row off n t r \<longleftrightarrow> (\<forall>i<n. t ! (i + off) = r ! i)"

lemma fd_holds_shifted:
  assumes d: "fd_holds d T"
    and src: "\<forall>i\<in>set (source_indices d). i < n" and tgt: "\<forall>i\<in>set (target_indices d). i < n"
    and rows: "\<forall>t\<in>set T'. \<exists>r\<in>set T. holds_row off n t r"
  shows "fd_holds (shifted off d) T'"
proof -
  have key: "key_eq (shifted off d) t u \<longleftrightarrow> key_eq d r s"
    if "holds_row off n t r" "holds_row off n u s" for t u r s
    using that src by (simp add: key_eq_def shifted_def add_offset_to_vec_def holds_row_def)
  have "determines (shifted off d) T'" unfolding determines_def
  proof (intro ballI impI)
    fix t u k assume t: "t \<in> set T'" and u: "u \<in> set T'" and eq: "key_eq (shifted off d) t u"
      and k: "k \<in> set (target_indices (shifted off d))"
    obtain r where r: "r \<in> set T" "holds_row off n t r" using rows t by blast
    obtain s where s: "s \<in> set T" "holds_row off n u s" using rows u by blast
    obtain k' where k': "k = k' + off" "k' \<in> set (target_indices d)"
      using k by (auto simp: shifted_def add_offset_to_vec_def)
    have "r ! k' = s ! k'"
      using determinesD [of d T r s k'] d key [OF r(2) s(2)] eq r s k' by (simp add: fd_holds_def)
    then show "t ! k = u ! k" using r s k' tgt by (simp add: holds_row_def)
  qed
  moreover have "null_free (source_indices (shifted off d)) T'" if nn: "\<not> nullable d"
    unfolding null_free_def
  proof (intro ballI)
    fix t i assume t: "t \<in> set T'" and i: "i \<in> set (source_indices (shifted off d))"
    obtain r where r: "r \<in> set T" "holds_row off n t r" using rows t by blast
    obtain i' where "i = i' + off" "i' \<in> set (source_indices d)"
      using i by (auto simp: shifted_def add_offset_to_vec_def)
    then show "t ! i \<noteq> None" using d nn r src by (simp add: fd_holds_def null_free_def holds_row_def)
  qed
  ultimately show ?thesis by (simp add: fd_holds_def shifted_def)
qed

text \<open>The same where the join also pads rows with NULLs: the dependency must be downgraded.\<close>

definition pad_row :: "nat \<Rightarrow> nat \<Rightarrow> 'v row \<Rightarrow> bool" where
  "pad_row off n t \<longleftrightarrow> (\<forall>i<n. t ! (i + off) = None)"

lemma fd_holds_downgraded:
  assumes d: "fd_holds d T" and nn: "\<not> nullable d" and ne: "source_indices d \<noteq> []"
    and src: "\<forall>i\<in>set (source_indices d). i < n" and tgt: "\<forall>i\<in>set (target_indices d). i < n"
    and rows: "\<forall>t\<in>set T'. (\<exists>r\<in>set T. holds_row off n t r) \<or> pad_row off n t"
  shows "fd_holds ((shifted off d)\<lparr>nullable := True, null_equality := NullEqualsNull\<rparr>) T'"
    (is "fd_holds ?d T'")
proof -
  have src': "set (source_indices ?d) = (\<lambda>i. i + off) ` set (source_indices d)"
    by (simp add: shifted_def add_offset_to_vec_def)
  have eqD: "\<forall>i\<in>set (source_indices d). t ! (i + off) = u ! (i + off)" if "key_eq ?d t u" for t u
    using that src' by (simp add: key_eq_def)
  have real_src: "\<forall>i\<in>set (source_indices d). t ! (i + off) \<noteq> None" if "r \<in> set T" "holds_row off n t r" for t r
    using that d nn src by (auto simp: fd_holds_def null_free_def holds_row_def)
  have not_mixed: "\<not> pad_row off n u" if eq: "key_eq ?d t u" and r: "r \<in> set T" "holds_row off n t r" for t u r
  proof
    assume "pad_row off n u"
    moreover obtain i where "i \<in> set (source_indices d)" using ne by (meson list.set_intros(1) neq_Nil_conv last_in_set)
    ultimately show False using eqD [OF eq] real_src [OF r] src by (force simp: pad_row_def)
  qed
  have "t ! k = u ! k" if t: "t \<in> set T'" and u: "u \<in> set T'" and eq: "key_eq ?d t u"
    and k: "k \<in> set (target_indices ?d)" for t u k
  proof -
    obtain k' where k': "k = k' + off" "k' \<in> set (target_indices d)"
      using k by (auto simp: shifted_def add_offset_to_vec_def)
    show ?thesis
    proof (cases "\<exists>r\<in>set T. holds_row off n t r")
      case True
      then obtain r where r: "r \<in> set T" "holds_row off n t r" by blast
      obtain s where s: "s \<in> set T" "holds_row off n u s"
        using rows u not_mixed [OF eq r] by blast
      have "key_eq d r s"
        using eqD [OF eq] real_src [OF r] r(2) s(2) src by (simp add: key_eq_def holds_row_def)
      then have "r ! k' = s ! k'"
        using determinesD [of d T r s k'] d r s k' by (simp add: fd_holds_def)
      then show ?thesis using r s k' tgt by (simp add: holds_row_def)
    next
      case False
      then have pt: "pad_row off n t" using rows t by blast
      have "pad_row off n u" using rows u not_mixed [OF key_eq_sym [OF eq]] pt by blast
      then show ?thesis using pt k' tgt by (simp add: pad_row_def)
    qed
  qed
  then show ?thesis by (simp add: fd_holds_def determines_def shifted_def)
qed

text \<open>A table that a schema describes: its nullability flags and its dependencies are right.\<close>

definition schema_ok :: "df_schema \<Rightarrow> 'v row list \<Rightarrow> bool" where
  "schema_ok schema T \<longleftrightarrow>
     schema_fits schema T
     \<and> fds_is_valid (functional_dependencies schema) (length (fields_nullable schema))
     \<and> (\<forall>d\<in>set (functional_dependencies schema). source_indices d \<noteq> [] \<and> fd_holds d T)"

lemma schema_okD:
  assumes "schema_ok schema T"
  shows "schema_fits schema T"
    and "r \<in> set T \<Longrightarrow> length r = length (fields_nullable schema)"
    and "d \<in> set (functional_dependencies schema) \<Longrightarrow> source_indices d \<noteq> []"
    and "d \<in> set (functional_dependencies schema) \<Longrightarrow> fd_holds d T"
    and "d \<in> set (functional_dependencies schema) \<Longrightarrow>
           \<forall>i\<in>set (source_indices d). i < length (fields_nullable schema)"
    and "d \<in> set (functional_dependencies schema) \<Longrightarrow>
           \<forall>i\<in>set (target_indices d). i < length (fields_nullable schema)"
  using assms by (auto simp: schema_ok_def schema_fits_def fds_is_valid_iff)

lemma with_functional_dependencies_ok:
  assumes "schema_fits \<lparr>fields_nullable = fs, functional_dependencies = ds\<rparr> T"
    and "\<And>d. d \<in> set deps \<Longrightarrow>
      (\<forall>i\<in>set (source_indices d). i < length fs) \<and> (\<forall>i\<in>set (target_indices d). i < length fs)
      \<and> source_indices d \<noteq> [] \<and> fd_holds d T"
  shows "\<exists>schema. with_functional_dependencies
           \<lparr>fields_nullable = fs, functional_dependencies = ds\<rparr> deps = Some schema
         \<and> fields_nullable schema = fs \<and> functional_dependencies schema = deps \<and> schema_ok schema T"
  using assms
  by (auto simp: with_functional_dependencies_def fds_is_valid_iff schema_ok_def schema_fits_def)

text \<open>Where the rows of a join come from.\<close>

lemma set_left_outer:
  "set (left_outer P nr L R) \<subseteq>
     {l @ r | l r. l \<in> set L \<and> r \<in> set R} \<union> {l @ replicate nr None | l. l \<in> set L}"
  by (auto simp: left_outer_def Let_def split: if_splits)

lemma set_right_outer:
  "set (right_outer P nl L R) \<subseteq>
     {l @ r | l r. l \<in> set L \<and> r \<in> set R} \<union> {replicate nl None @ r | r. r \<in> set R}"
  by (auto simp: right_outer_def Let_def split: if_splits)

definition downgraded :: "functional_dependence \<Rightarrow> functional_dependence" where
  "downgraded d = d\<lparr>nullable := True, null_equality := NullEqualsNull\<rparr>"

lemma with_dependency_Multi: "with_dependency Multi ds = map (shifted 0) ds"
  by (simp add: with_dependency_def shifted_zero)

lemma shifted_add_offset: "map (shifted 0) (add_offset n ds) = map (shifted n) ds"
  by (simp add: add_offset_def shifted_def add_offset_to_vec_def comp_def)

lemma downgrade_shifted:
  "downgrade_dependencies (map (shifted n) ds) =
     map (\<lambda>d. downgraded (shifted n d)) (filter (\<lambda>d. \<not> nullable d) ds)"
  by (simp add: downgrade_dependencies_def downgraded_def filter_map comp_def shifted_def)

lemma fds_join_outer:
  "fds_join ds1 ds2 Inner n = map (shifted 0) ds1 @ map (shifted n) ds2"
  "fds_join ds1 ds2 Left n =
     map (shifted 0) ds1 @ map (\<lambda>d. downgraded (shifted n d)) (filter (\<lambda>d. \<not> nullable d) ds2)"
  "fds_join ds1 ds2 Right n =
     map (\<lambda>d. downgraded (shifted 0 d)) (filter (\<lambda>d. \<not> nullable d) ds1) @ map (shifted n) ds2"
  unfolding fds_join_def Let_def fds_extend_def with_dependency_Multi
  unfolding shifted_add_offset
  unfolding downgrade_shifted by simp_all

lemma holds_row_left: "length l = nl \<Longrightarrow> holds_row 0 nl (l @ t) l"
  by (simp add: holds_row_def nth_append)

lemma holds_row_right: "length l = nl \<Longrightarrow> holds_row nl nr (l @ r) r"
  by (simp add: holds_row_def nth_append)

lemma pad_row_left: "pad_row 0 nl (replicate nl None @ r)"
  by (simp add: pad_row_def nth_append)

lemma pad_row_right: "length l = nl \<Longrightarrow> pad_row nl nr (l @ replicate nr None)"
  by (simp add: pad_row_def nth_append)

lemma shifted_indices:
  assumes "\<forall>i\<in>set (source_indices d). i < n" and "\<forall>i\<in>set (target_indices d). i < n"
    and "source_indices d \<noteq> []" and "n + off \<le> m"
  shows "(\<forall>i\<in>set (source_indices (shifted off d)). i < m)
       \<and> (\<forall>i\<in>set (target_indices (shifted off d)). i < m) \<and> source_indices (shifted off d) \<noteq> []"
  using assms by (auto simp: shifted_def add_offset_to_vec_def)

text \<open>A join of two described tables: the dependencies of the Inner, Left and Right joins.\<close>

lemma outer_join_dependence:
  assumes L: "schema_ok ls L" and R: "schema_ok rs R" and jt: "jt \<in> {Inner, Left, Right}"
    and nl: "nl = length (fields_nullable ls)" and nr: "nr = length (fields_nullable rs)"
    and left: "\<forall>t\<in>set T. (\<exists>l\<in>set L. holds_row 0 nl t l) \<or> jt = Right \<and> pad_row 0 nl t"
    and right: "\<forall>t\<in>set T. (\<exists>r\<in>set R. holds_row nl nr t r) \<or> jt = Left \<and> pad_row nl nr t"
    and d: "d \<in> set (fds_join (functional_dependencies ls) (functional_dependencies rs) jt nl)"
  shows "(\<forall>i\<in>set (source_indices d). i < nl + nr) \<and> (\<forall>i\<in>set (target_indices d). i < nl + nr)
      \<and> source_indices d \<noteq> [] \<and> fd_holds d T"
proof -
  have A: ?thesis if d0: "d0 \<in> set (functional_dependencies ls)"
    and e: "if jt = Right then \<not> nullable d0 \<and>
              d = downgraded (shifted 0 d0)
            else d = shifted 0 d0" for d0
  proof -
    have fd: "fd_holds d0 L" and ne: "source_indices d0 \<noteq> []"
      and src: "\<forall>i\<in>set (source_indices d0). i < nl" and tgt: "\<forall>i\<in>set (target_indices d0). i < nl"
      using schema_okD [OF L] d0 nl by auto
    have "fd_holds d T"
      using fd_holds_downgraded [OF fd _ ne src tgt, of T 0] fd_holds_shifted [OF fd src tgt, of T 0] e left
      by (auto simp: downgraded_def split: if_splits)
    then show ?thesis
      using shifted_indices [OF src tgt ne, of 0 "nl + nr"] e by (auto simp: downgraded_def split: if_splits)
  qed
  have B: ?thesis if d0: "d0 \<in> set (functional_dependencies rs)"
    and e: "if jt = Left then \<not> nullable d0 \<and>
              d = downgraded (shifted nl d0)
            else d = shifted nl d0" for d0
  proof -
    have fd: "fd_holds d0 R" and ne: "source_indices d0 \<noteq> []"
      and src: "\<forall>i\<in>set (source_indices d0). i < nr" and tgt: "\<forall>i\<in>set (target_indices d0). i < nr"
      using schema_okD [OF R] d0 nr by auto
    have "fd_holds d T"
      using fd_holds_downgraded [OF fd _ ne src tgt, of T nl] fd_holds_shifted [OF fd src tgt, of T nl] e right
      by (auto simp: downgraded_def split: if_splits)
    then show ?thesis
      using shifted_indices [OF src tgt ne, of nl "nl + nr"] e by (auto simp: downgraded_def split: if_splits)
  qed
  show ?thesis
    using d jt A B by (auto simp: fds_join_outer)
qed

text \<open>The rows a join returns are described by the fields of its schema.\<close>

definition row_fits :: "bool list \<Rightarrow> 'v row \<Rightarrow> bool" where
  "row_fits fs r \<longleftrightarrow> length r = length fs \<and> (\<forall>i<length fs. \<not> fs ! i \<longrightarrow> r ! i \<noteq> None)"

lemma schema_fits_iff: "schema_fits schema T \<longleftrightarrow> (\<forall>r\<in>set T. row_fits (fields_nullable schema) r)"
  by (simp add: schema_fits_def row_fits_def)

lemma row_fits_append: "row_fits lf l \<Longrightarrow> row_fits rf r \<Longrightarrow> row_fits (lf @ rf) (l @ r)"
  by (auto simp: row_fits_def nth_append)

lemma row_fits_nullify: "length r = length fs \<Longrightarrow> row_fits (nullify_fields fs) r"
  by (simp add: row_fits_def nullify_fields_def)

lemma join_rows_fit:
  assumes L: "\<forall>l\<in>set L. row_fits lf l" and R: "\<forall>r\<in>set R. row_fits rf r"
    and t: "t \<in> set (join_rows jt P mk (length lf) (length rf) L R)"
  shows "row_fits (join_fields jt lf rf) t"
proof -
  have nul: "l \<in> set L \<Longrightarrow> row_fits (nullify_fields lf) l"
    "r \<in> set R \<Longrightarrow> row_fits (nullify_fields rf) r"
    "row_fits (nullify_fields lf) (replicate (length lf) None)"
    "row_fits (nullify_fields rf) (replicate (length rf) None)" for l r
    using L R by (simp_all add: row_fits_def nullify_fields_def)
  have mark: "row_fits [True] [x]" for x :: "'a option" by (simp add: row_fits_def)
  have lo: "row_fits (f @ nullify_fields rf) u"
    if "u \<in> set (left_outer P (length rf) L R)" and "\<forall>l\<in>set L. row_fits f l" for u f
    using that subsetD [OF set_left_outer that(1)] nul by (auto intro!: row_fits_append)
  have ro: "row_fits (nullify_fields lf @ rf) u" if "u \<in> set (right_outer P (length lf) L R)" for u
    using that subsetD [OF set_right_outer that] R nul by (auto intro!: row_fits_append)
  show ?thesis
    by (cases jt) (use t L R lo ro nul mark in \<open>auto intro!: row_fits_append\<close>)
qed

lemma join_rows_sides:
  assumes "\<forall>l\<in>set L. length l = nl" and "jt \<in> {Inner, Left, Right}"
    and "t \<in> set (join_rows jt P mk nl nr L R)"
  shows "((\<exists>l\<in>set L. holds_row 0 nl t l) \<or> jt = Right \<and> pad_row 0 nl t)
       \<and> ((\<exists>r\<in>set R. holds_row nl nr t r) \<or> jt = Left \<and> pad_row nl nr t)"
proof -
  have "(\<exists>l r. t = l @ r \<and> l \<in> set L \<and> r \<in> set R)
      \<or> jt = Left \<and> (\<exists>l. t = l @ replicate nr None \<and> l \<in> set L)
      \<or> jt = Right \<and> (\<exists>r. t = replicate nl None @ r \<and> r \<in> set R)"
    using assms(2,3) set_left_outer [of P nr L R] set_right_outer [of P nl L R] by auto
  then show ?thesis
    using assms(1) holds_row_left holds_row_right pad_row_left pad_row_right length_replicate by metis
qed

lemma fd_holds_append:
  assumes "schema_ok schema T" and "d \<in> set (functional_dependencies schema)"
  shows "fd_holds d (map (\<lambda>r. r @ f r) T)"
proof (rule fd_holds_extends)
  show "fd_holds d T" using schema_okD [OF assms(1)] assms(2) by blast
  show "list_all2 (\<lambda>r r'. \<forall>i<length (fields_nullable schema). r' ! i = r ! i) T (map (\<lambda>r. r @ f r) T)"
    using schema_okD(2) [OF assms(1)] by (auto simp: list_all2_conv_all_nth nth_append)
qed (use schema_okD [OF assms(1)] assms(2) in blast)+

lemma one_sided_join_dependence:
  assumes L: "schema_ok ls L" and R: "schema_ok rs R" and jt: "jt \<notin> {Inner, Left, Right, Full}"
    and d: "d \<in> set (fds_join (functional_dependencies ls) (functional_dependencies rs) jt nl)"
  shows "(\<forall>i\<in>set (source_indices d) \<union> set (target_indices d).
            i < length (join_fields jt (fields_nullable ls) (fields_nullable rs)))
      \<and> source_indices d \<noteq> [] \<and> fd_holds d (join_rows jt P mk nl' nr' L R)"
proof -
  have "jt \<in> {LeftSemi, LeftAnti, LeftMark} \<and> d \<in> set (functional_dependencies ls)
      \<or> jt \<in> {RightSemi, RightAnti, RightMark} \<and> d \<in> set (functional_dependencies rs)"
    using jt d by (cases jt) (auto simp: fds_join_def)
  then show ?thesis
  proof (elim disjE conjE)
    assume "jt \<in> {LeftSemi, LeftAnti, LeftMark}" and d': "d \<in> set (functional_dependencies ls)"
    then show ?thesis
      using schema_okD(3,4,5,6) [OF L d'] fd_holds_append [OF L d'] by (auto intro: fd_holds_filter)
  next
    assume "jt \<in> {RightSemi, RightAnti, RightMark}" and d': "d \<in> set (functional_dependencies rs)"
    then show ?thesis
      using schema_okD(3,4,5,6) [OF R d'] fd_holds_append [OF R d'] by (auto intro: fd_holds_filter)
  qed
qed

lemma length_join_fields_outer:
  "jt \<in> {Inner, Left, Right, Full} \<Longrightarrow> length (join_fields jt l r) = length l + length r"
  by (auto simp: nullify_fields_def)

lemma join_schema_exists:
  assumes "schema_ok ls L" and "schema_ok rs R"
  shows "\<exists>schema. build_join_schema ls rs jt = Some schema
    \<and> fields_nullable schema = join_fields jt (fields_nullable ls) (fields_nullable rs)
    \<and> functional_dependencies schema =
        fds_join (functional_dependencies ls) (functional_dependencies rs) jt (length (fields_nullable ls))
    \<and> schema_ok schema (join_rows jt P mk (length (fields_nullable ls)) (length (fields_nullable rs)) L R)"
proof -
  let ?nl = "length (fields_nullable ls)" and ?nr = "length (fields_nullable rs)"
  let ?T = "join_rows jt P mk ?nl ?nr L R"
  let ?fs = "join_fields jt (fields_nullable ls) (fields_nullable rs)"
  let ?ds = "fds_join (functional_dependencies ls) (functional_dependencies rs) jt ?nl"
  have "schema_fits \<lparr>fields_nullable = ?fs, functional_dependencies = fds_empty\<rparr> ?T"
    using join_rows_fit [of L "fields_nullable ls" R "fields_nullable rs" _ jt P mk] schema_okD(1) assms
    by (auto simp: schema_fits_iff)
  moreover have "(\<forall>i\<in>set (source_indices d). i < length ?fs) \<and> (\<forall>i\<in>set (target_indices d). i < length ?fs)
      \<and> source_indices d \<noteq> [] \<and> fd_holds d ?T" if d: "d \<in> set ?ds" for d
  proof (cases "jt \<in> {Inner, Left, Right, Full}")
    case True
    then have jt: "jt \<in> {Inner, Left, Right}" using d by (auto simp: fds_join_def fds_empty_def)
    note sides = join_rows_sides [of L ?nl jt _ P mk ?nr R, OF _ jt]
    show ?thesis
      using outer_join_dependence [OF assms jt refl refl _ _ d, of ?T] sides schema_okD(2) [OF assms(1)]
      unfolding length_join_fields_outer [OF True] by blast
  next
    case False
    then show ?thesis using one_sided_join_dependence [OF assms False d] by blast
  qed
  ultimately show ?thesis
    unfolding build_join_schema_def Let_def using with_functional_dependencies_ok by blast
qed



definition asof_rows :: "('v row \<Rightarrow> 'v row option) \<Rightarrow> nat \<Rightarrow> 'v row list \<Rightarrow> 'v row list" where
  "asof_rows best nr L =
     map (\<lambda>l. l @ (case best l of Some r \<Rightarrow> r | None \<Rightarrow> replicate nr None)) L"

lemma fd_holds_extended_targets:
  assumes "fd_holds d T" and "mode d = Single"
  shows "fd_holds (d\<lparr>target_indices := ts\<rparr>) T"
proof (rule fd_holds_single)
  show "occurs_once (d\<lparr>target_indices := ts\<rparr>) T"
    using assms by (simp add: fd_holds_def occurs_once_def key_eq_def)
qed (use assms in \<open>simp add: fd_holds_def\<close>)

lemma asof_left_dependence:
  assumes L: "schema_ok ls L" and n: "length (fields_nullable ls) \<le> n"
    and d: "d \<in> set (extend_target_indices n (functional_dependencies ls))"
  shows "(\<forall>i\<in>set (source_indices d). i < n) \<and> (\<forall>i\<in>set (target_indices d). i < n)
      \<and> source_indices d \<noteq> [] \<and> fd_holds d (asof_rows best nr L)"
proof -
  obtain d0 where d0: "d0 \<in> set (functional_dependencies ls)"
    and e: "d = (if mode d0 = Single then d0\<lparr>target_indices := [0..<n]\<rparr> else d0)"
    using d by (auto simp: extend_target_indices_def)
  have "fd_holds d0 (asof_rows best nr L)"
    unfolding asof_rows_def by (rule fd_holds_append [OF L d0])
  then have "fd_holds d (asof_rows best nr L)" using e fd_holds_extended_targets by auto
  then show ?thesis using schema_okD(3,5,6) [OF L d0] e n by auto
qed

lemma asof_sides:
  assumes "\<forall>l\<in>set L. length l = nl" and "\<forall>l r. best l = Some r \<longrightarrow> r \<in> set R"
    and "t \<in> set (asof_rows best nr L)"
  shows "(\<exists>l\<in>set L. holds_row 0 nl t l) \<and> ((\<exists>r\<in>set R. holds_row nl nr t r) \<or> pad_row nl nr t)"
proof -
  obtain l where l: "l \<in> set L" "t = l @ (case best l of Some r \<Rightarrow> r | None \<Rightarrow> replicate nr None)"
    using assms(3) by (auto simp: asof_rows_def)
  have len: "length l = nl" using assms(1) l(1) by blast
  have "holds_row 0 nl t l" using l(2) holds_row_left [OF len] by simp
  moreover have "(\<exists>r\<in>set R. holds_row nl nr t r) \<or> pad_row nl nr t"
  proof (cases "best l")
    case None
    then show ?thesis using l(2) pad_row_right [OF len] by simp
  next
    case (Some r)
    then have "holds_row nl nr t r" using l(2) holds_row_right [OF len] by simp
    then show ?thesis using Some assms(2) by blast
  qed
  ultimately show ?thesis using l(1) by blast
qed

text \<open>
  An ASOF join pairs every left row with at most one right row.  Its schema is accepted, keeps
  the left dependencies with their modes, extended to the whole output, and describes its rows.
\<close>

theorem asof_join_schema_sound:
  assumes "schema_ok ls L" and "schema_ok rs R" and "\<forall>l r. best l = Some r \<longrightarrow> r \<in> set R"
  shows "\<exists>schema. build_asof_join_schema ls rs = Some schema
    \<and> schema_ok schema (asof_rows best (length (fields_nullable rs)) L)"
proof -
  let ?nl = "length (fields_nullable ls)" and ?nr = "length (fields_nullable rs)"
  let ?T = "asof_rows best ?nr L"
  let ?fs = "join_fields Left (fields_nullable ls) (fields_nullable rs)"
  let ?ds = "fds_join (functional_dependencies ls) (functional_dependencies rs) Left ?nl"
  have n: "length ?fs = ?nl + ?nr" by (simp add: nullify_fields_def)
  have jt: "Left \<in> {Inner, Left, Right}" by simp
  obtain js where js: "build_join_schema ls rs Left = Some js" "fields_nullable js = ?fs"
      "functional_dependencies js = ?ds"
    using join_schema_exists [OF assms(1,2), of Left] by blast
  have sides: "(\<exists>l\<in>set L. holds_row 0 ?nl t l) \<and> ((\<exists>r\<in>set R. holds_row ?nl ?nr t r) \<or> pad_row ?nl ?nr t)"
    if "t \<in> set ?T" for t
    using asof_sides [OF _ assms(3) that] schema_okD(2) [OF assms(1)] by blast
  have right: "(\<forall>i\<in>set (source_indices d). i < ?nl + ?nr) \<and> (\<forall>i\<in>set (target_indices d). i < ?nl + ?nr)
      \<and> source_indices d \<noteq> [] \<and> fd_holds d ?T" if "d \<in> set ?ds" for d
    using outer_join_dependence [OF assms(1,2) jt refl refl _ _ that, of ?T] sides by blast
  have fits: "schema_fits \<lparr>fields_nullable = ?fs, functional_dependencies = ?ds\<rparr> ?T"
    using schema_okD(1) [OF assms(1)] schema_okD(1) [OF assms(2)] assms(3)
    by (auto simp: schema_fits_iff asof_rows_def split: option.splits
        intro!: row_fits_append row_fits_nullify) (simp add: row_fits_def)
  have jse: "js = \<lparr>fields_nullable = ?fs, functional_dependencies = ?ds\<rparr>" using js by simp
  let ?deps = "extend_target_indices (?nl + ?nr) (functional_dependencies ls)
      @ drop (length (functional_dependencies ls)) ?ds"
  have "(\<forall>i\<in>set (source_indices d). i < length ?fs) \<and> (\<forall>i\<in>set (target_indices d). i < length ?fs)
      \<and> source_indices d \<noteq> [] \<and> fd_holds d ?T" if d: "d \<in> set ?deps" for d
  proof (cases "d \<in> set ?ds")
    case True
    then show ?thesis unfolding n by (rule right)
  next
    case False
    then have "d \<in> set (extend_target_indices (?nl + ?nr) (functional_dependencies ls))"
      using d by (auto dest: in_set_dropD)
    then show ?thesis unfolding n by (rule asof_left_dependence [OF assms(1) le_add1])
  qed
  then obtain schema where "with_functional_dependencies js ?deps = Some schema" "schema_ok schema ?T"
    using with_functional_dependencies_ok [OF fits, of ?deps] unfolding jse by blast
  then show ?thesis
    using js n by (simp add: build_asof_join_schema_def Let_def fds_extend_def fds_new_def)
qed

section \<open>Projection of a plan\<close>

fun eval_proj :: "'v proj_expr \<Rightarrow> 'v row \<Rightarrow> 'v row" where
  "eval_proj (Expr e) r = [eval_expr e r]"
| "eval_proj (Wildcard columns) r =
     map (\<lambda>c. case c of Some i \<Rightarrow> r ! i | None \<Rightarrow> None) columns"

definition project_rows :: "'v proj_expr list \<Rightarrow> 'v row list \<Rightarrow> 'v row list" where
  "project_rows es T = map (\<lambda>r. concat (map (\<lambda>e. eval_proj e r) es)) T"

lemma eval_expr_passthrough: "passthrough_field_index e = Some i \<Longrightarrow> eval_expr e r = r ! i"
  by (induction e) auto

lemma projects_append:
  assumes "projects p n r x" and "projects q n r y" and "length x = length p"
  shows "projects (p @ q) n r (x @ y)"
  using assms by (auto simp: projects_def nth_append)

lemma projects_eval_proj:
  assumes "n \<le> COMPUTED_EXPR_INDEX"
  shows "projects (proj_expr_indices e) n r (eval_proj e r)"
  using assms eval_expr_passthrough
  by (cases e) (auto simp: projects_def input_index_def split: option.splits)

lemma length_eval_proj: "length (eval_proj e r) = length (proj_expr_indices e)"
  by (cases e) auto

lemma projects_concat:
  assumes "n \<le> COMPUTED_EXPR_INDEX"
  shows "projects (concat (map proj_expr_indices es)) n r (concat (map (\<lambda>e. eval_proj e r) es))"
proof (induction es)
  case Nil
  show ?case by (simp add: projects_def)
next
  case (Cons e es)
  then show ?case
    using projects_append projects_eval_proj [OF assms] length_eval_proj by fastforce
qed

lemma projects_project_rows:
  assumes "n \<le> COMPUTED_EXPR_INDEX"
  shows "list_all2 (projects (concat (map proj_expr_indices es)) n) T (project_rows es T)"
  unfolding project_rows_def
  by (simp add: list_all2_map2 list_all2_conv_all_nth projects_concat [OF assms])

text \<open>
  C28.  The dependencies computed for a projection hold in its output, for column references,
  aliases, wildcards and computed expressions, with columns repeated, dropped or reordered.
\<close>

theorem project_dependencies_sound:
  assumes "schema_ok schema T" and "length (fields_nullable schema) \<le> COMPUTED_EXPR_INDEX"
  shows "fds_hold (calc_func_dependencies_for_project exprs schema) (project_rows exprs T)"
proof (cases "functional_dependencies schema = []")
  case True
  then show ?thesis by (simp add: calc_func_dependencies_for_project_def fds_empty_def)
next
  case False
  have "fds_hold (functional_dependencies schema) T"
    using schema_okD(4) [OF assms(1)] by (simp add: list_all_iff)
  moreover have "fds_is_valid (functional_dependencies schema) (length (fields_nullable schema))"
    using assms(1) by (simp add: schema_ok_def)
  ultimately show ?thesis
    using project_functional_dependencies_hold [OF _ _ projects_project_rows [OF assms(2)]] False
    by (simp add: calc_func_dependencies_for_project_def)
qed

text \<open>
  Constraints that hold in a table hold after a projection that keeps their columns, and the
  dependencies derived from the projected constraints hold in the projected table.
\<close>

theorem projected_constraints_hold:
  assumes "\<forall>c\<in>set cs. constraint_holds T c \<and> (\<forall>i\<in>set (constraint_key c). i < n)"
    and "list_all2 (projects proj n) T T'"
    and "constraints_project cs proj = Some cs'"
  shows "(\<forall>c\<in>set cs'. constraint_holds T' c) \<and> fds_hold (new_from_constraints (Some cs') m) T'"
proof -
  have "constraint_holds T' c'" if c': "c' \<in> set cs'" for c'
  proof -
    obtain c where "c \<in> set cs" "project_constraint proj c = Some c'"
      using assms(3) c'
      by (auto simp: constraints_project_def Let_def new_unverified_def in_set_map_filter split: if_splits)
    then show ?thesis using constraint_projects assms(1,2) by blast
  qed
  then show ?thesis
    using dependence_of_constraint_holds by (auto simp: new_from_constraints_def fds_new_def list_all_iff)
qed

section \<open>Aggregation\<close>
















section \<open>Redundant GROUP BY and ORDER BY expressions\<close>

abbreviation all_valid_across_nulls :: "df_schema \<Rightarrow> bool" where
  "all_valid_across_nulls schema \<equiv>
     \<forall>d\<in>set (functional_dependencies schema). valid_across_nulls d schema"

lemma schema_determines:
  assumes "schema_ok schema T" and "d \<in> set (functional_dependencies schema)"
    and "valid_across_nulls d schema" and "r \<in> set T" and "s \<in> set T"
    and "\<forall>i\<in>set (source_indices d). r ! i = s ! i" and "k \<in> set (target_indices d)"
  shows "r ! k = s ! k"
  using determined_across_nulls [OF schema_okD(4) [OF assms(1,2)] schema_okD(1) [OF assms(1)]
      schema_okD(5) [OF assms(1,2)]] assms by blast

lemma required_group_by_step_subset: "set (required_group_by_step g d) \<subseteq> set g"
  by (auto simp: required_group_by_step_def list_all_iff)

lemma foldl_required_subset: "set (foldl required_group_by_step g ds) \<subseteq> set g"
proof (induction ds arbitrary: g)
  case (Cons d ds)
  show ?case using Cons [of "required_group_by_step g d"] required_group_by_step_subset by fastforce
qed simp

lemma required_group_by_steps:
  assumes "schema_ok schema T" and "set ds \<subseteq> set (functional_dependencies schema)"
    and "\<forall>d\<in>set ds. valid_across_nulls d schema" and "r \<in> set T" and "s \<in> set T"
    and "\<forall>i\<in>set (foldl required_group_by_step g ds). r ! i = s ! i"
  shows "\<forall>i\<in>set g. r ! i = s ! i"
  using assms(2,3,6)
proof (induction ds arbitrary: g)
  case (Cons d ds)
  let ?g = "required_group_by_step g d"
  have eq: "\<forall>i\<in>set ?g. r ! i = s ! i" using Cons.IH [of ?g] Cons.prems by simp
  show ?case
  proof (cases "set (source_indices d) \<subseteq> set g")
    case True
    then have g: "set ?g = (set g - set (target_indices d)) \<union> set (source_indices d)"
      by (auto simp: required_group_by_step_def list_all_iff)
    then have "r ! k = s ! k" if "k \<in> set (target_indices d)" for k
      using schema_determines [OF assms(1), of d r s k] assms(4,5) Cons.prems eq that by auto
    then show ?thesis using eq g by blast
  next
    case False
    then have "?g = g" by (auto simp: required_group_by_step_def list_all_iff)
    then show ?thesis using eq by simp
  qed
qed simp

lemma those_eq_Some: "those xs = Some ys \<longleftrightarrow> xs = map Some ys"
proof (induction xs arbitrary: ys)
  case (Cons x xs)
  then show ?case by (cases x) (auto simp: Cons_eq_map_conv)
qed auto

lemma those_eq_None: "those xs = None \<longleftrightarrow> None \<in> set xs"
proof (induction xs)
  case (Cons x xs)
  then show ?case by (cases x) auto
qed simp

lemma group_key_eq_iff:
  assumes "map passthrough_field_index es = map Some cols"
  shows "group_key es r = group_key es s \<longleftrightarrow> (\<forall>c\<in>set cols. r ! c = s ! c)"
  using assms
proof (induction es arbitrary: cols)
  case (Cons e es)
  then obtain c cs where "cols = c # cs" "passthrough_field_index e = Some c"
    "map passthrough_field_index es = map Some cs" by (cases cols) auto
  then show ?case using Cons.IH [of cs] eval_expr_passthrough [of e c] by (simp add: group_key_def)
qed (simp add: group_key_def)

lemma group_by_positions:
  assumes gs: "map passthrough_field_index es = map Some cols" and sub: "set req \<subseteq> set cols"
  shows "\<exists>idxs. those (map (\<lambda>idx. position (\<lambda>i. i = Some idx) (map passthrough_field_index es)) req) = Some idxs
    \<and> (\<forall>i\<in>set idxs. i < length es) \<and> map passthrough_field_index (map ((!) es) idxs) = map Some req"
proof -
  let ?gs = "map passthrough_field_index es"
  have "None \<notin> set (map (\<lambda>idx. position (\<lambda>i. i = Some idx) ?gs) req)"
    using sub by (auto simp: gs eq_commute [of None] position_None_iff) blast
  then obtain idxs where idxs: "those (map (\<lambda>idx. position (\<lambda>i. i = Some idx) ?gs) req) = Some idxs"
    using those_eq_None by (metis not_None_eq)
  then have pos: "map (\<lambda>idx. position (\<lambda>i. i = Some idx) ?gs) req = map Some idxs"
    by (simp add: those_eq_Some)
  then have len: "length idxs = length req" by (metis length_map)
  have nth: "idxs ! k < length es \<and> passthrough_field_index (es ! (idxs ! k)) = Some (req ! k)"
    if k: "k < length req" for k
  proof -
    have "position (\<lambda>i. i = Some (req ! k)) ?gs = Some (idxs ! k)" using pos k len by (metis nth_map)
    then show ?thesis by (auto dest: position_SomeD)
  qed
  have "map passthrough_field_index (map ((!) es) idxs) = map Some req"
    using nth len by (auto intro!: nth_equalityI)
  moreover have "\<forall>i\<in>set idxs. i < length es" using nth len by (metis in_set_conv_nth)
  ultimately show ?thesis using idxs by blast
qed

text \<open>
  C29.  Removing the GROUP BY expressions that are functionally determined by others does not change
  the groups, if the dependencies are valid across NULLs; the positions returned are in range, and
  \<open>None\<close> is returned exactly when an expression is computed.
\<close>

theorem required_group_by_same_groups:
  assumes "schema_ok schema T" and "all_valid_across_nulls schema"
  shows "case get_required_group_by_exprs_indices schema (map passthrough_field_index es) of
      None \<Rightarrow> \<exists>e\<in>set es. passthrough_field_index e = None
    | Some idxs \<Rightarrow> (\<forall>i\<in>set idxs. i < length es) \<and>
        (\<forall>r\<in>set T. \<forall>s\<in>set T.
           group_key (map ((!) es) idxs) r = group_key (map ((!) es) idxs) s
           \<longleftrightarrow> group_key es r = group_key es s)"
proof (cases "those (map passthrough_field_index es)")
  case None
  moreover have "\<exists>e\<in>set es. passthrough_field_index e = None"
    using None unfolding those_eq_None by (metis in_set_conv_nth length_map nth_map nth_mem)
  ultimately show ?thesis by (simp add: get_required_group_by_exprs_indices_def)
next
  case (Some cols)
  let ?gs = "map passthrough_field_index es"
  define req where "req = foldl required_group_by_step (sort cols) (functional_dependencies schema)"
  have gs: "?gs = map Some cols" using Some by (simp add: those_eq_Some)
  have steps: "\<forall>i\<in>set cols. r ! i = s ! i"
    if "r \<in> set T" "s \<in> set T" "\<forall>i\<in>set req. r ! i = s ! i" for r s
    using required_group_by_steps [OF assms(1) subset_refl assms(2) that(1,2), of "sort cols"] that(3)
    by (simp add: req_def)
  have sub: "set req \<subseteq> set cols"
    using foldl_required_subset [of "sort cols"] by (simp add: req_def)
  obtain idxs where idxs: "those (map (\<lambda>idx. position (\<lambda>i. i = Some idx) ?gs) req) = Some idxs"
      "\<forall>i\<in>set idxs. i < length es" "map passthrough_field_index (map ((!) es) idxs) = map Some req"
    using group_by_positions [OF gs sub] by blast
  note keys = group_key_eq_iff [OF idxs(3)] group_key_eq_iff [OF gs]
  have "get_required_group_by_exprs_indices schema ?gs = Some idxs"
    using Some idxs(1) by (simp add: get_required_group_by_exprs_indices_def req_def)
  moreover have "group_key (map ((!) es) idxs) r = group_key (map ((!) es) idxs) s
      \<longleftrightarrow> group_key es r = group_key es s" if "r \<in> set T" "s \<in> set T" for r s
    unfolding keys using steps [OF that] sub by blast
  ultimately show ?thesis using idxs(2) by simp
qed

lemma combined_targets_determined:
  assumes "schema_ok schema T" and "all_valid_across_nulls schema" and "r \<in> set T" and "s \<in> set T"
    and "group_key es r = group_key es s"
    and "k \<in> set (combined_targets (functional_dependencies schema) (map passthrough_field_index es))"
  shows "r ! k = s ! k"
proof -
  obtain d where d: "d \<in> set (functional_dependencies schema)" "k \<in> set (target_indices d)"
    and src: "\<forall>i\<in>set (source_indices d). Some i \<in> set (map passthrough_field_index es)"
    using assms(6) by (auto simp: combined_targets_def list_all_iff)
  have "r ! i = s ! i" if i: "i \<in> set (source_indices d)" for i
  proof -
    obtain e where e: "e \<in> set es" "passthrough_field_index e = Some i"
      using src i by fastforce
    have "eval_expr e r = eval_expr e s" using assms(5) e by (simp add: group_key_def)
    then show ?thesis using eval_expr_passthrough [OF e(2)] by simp
  qed
  then show ?thesis using schema_determines [OF assms(1) d(1) _ assms(3,4) _ d(2)] assms(2) d(1) by blast
qed

lemma group_key_append:
  "group_key (es @ fs) r = group_key es r @ group_key fs r"
  by (simp add: group_key_def)

lemma add_missing_targets_same:
  assumes "\<And>k. k \<in> set ts \<Longrightarrow> group_key es r = group_key es s \<Longrightarrow> r ! k = s ! k"
  shows "group_key (add_missing_targets ts ids es) r = group_key (add_missing_targets ts ids es) s
     \<longleftrightarrow> group_key es r = group_key es s"
  using assms
proof (induction ts ids es rule: add_missing_targets.induct)
  case (2 t ts ids es)
  have col: "group_key (es @ [Column (Some t)]) r = group_key (es @ [Column (Some t)]) s
      \<longleftrightarrow> group_key es r = group_key es s"
    using 2(3) [of t] by (auto simp: group_key_append group_key_def)
  show ?case using 2 col by auto
qed simp

text \<open>
  C30.  The GROUP BY columns that the plan builder adds because they are determined by the others do
  not split any group, if the dependencies are valid across NULLs.
\<close>

theorem added_group_by_same_groups:
  assumes "schema_ok schema T" and "all_valid_across_nulls schema" and "r \<in> set T" and "s \<in> set T"
  shows "group_key (add_group_by_exprs_from_dependencies es schema) r
         = group_key (add_group_by_exprs_from_dependencies es schema) s
     \<longleftrightarrow> group_key es r = group_key es s"
proof (cases "get_target_functional_dependencies schema (map passthrough_field_index es)")
  case None
  then show ?thesis by (simp add: add_group_by_exprs_from_dependencies_def)
next
  case (Some ts)
  then have "set ts \<subseteq> set (combined_targets (functional_dependencies schema) (map passthrough_field_index es))"
    by (auto simp: get_target_functional_dependencies_def Let_def split: if_splits)
  then show ?thesis
    using Some add_missing_targets_same [of ts es r s] combined_targets_determined [OF assms, of es]
    by (auto simp: add_group_by_exprs_from_dependencies_def)
qed

text \<open>The loop over the ORDER BY list.\<close>

definition cmp_ok :: "('v option \<Rightarrow> 'v option \<Rightarrow> ordering) \<Rightarrow> bool" where
  "cmp_ok c \<longleftrightarrow> (\<forall>x y. c x y = Equal \<longleftrightarrow> x = y)"

lemma sort_expr_removable_Some:
  assumes "schema_ok schema T"
  shows "sort_expr_removable schema known f =
    Some (\<exists>d\<in>set (functional_dependencies schema). f \<in> set (target_indices d)
            \<and> set (source_indices d) \<subseteq> known \<and> valid_across_nulls d schema)"
proof -
  have "sort_expr_removable schema known f =
    Some (list_ex (\<lambda>d. f \<in> set (target_indices d) \<and> list_all (\<lambda>i. i \<in> known) (source_indices d)
            \<and> valid_across_nulls d schema) (functional_dependencies schema))"
    unfolding sort_expr_removable_def
    by (rule any_checked_Some)
      (use is_valid_across_nulls_Some schema_okD(5) [OF assms] in auto)
  then show ?thesis by (simp add: list_ex_iff list_all_iff subset_eq)
qed

lemma required_sort_loop_Some:
  assumes "schema_ok schema T"
  shows "\<exists>out. required_sort_loop schema idx ids known req = Some (req @ out)
      \<and> (\<forall>i\<in>set out. idx \<le> i \<and> i < idx + length ids)"
proof (induction ids arbitrary: idx known req)
  case (Cons i ids)
  have keep: "\<exists>out. required_sort_loop schema (Suc idx) ids k (req @ [idx]) = Some (req @ out)
      \<and> (\<forall>j\<in>set out. idx \<le> j \<and> j < idx + length (i # ids))" for k
  proof -
    obtain out where "required_sort_loop schema (Suc idx) ids k (req @ [idx]) = Some ((req @ [idx]) @ out)"
      "\<forall>j\<in>set out. Suc idx \<le> j \<and> j < Suc idx + length ids"
      using Cons [of "Suc idx" k "req @ [idx]"] by blast
    then show ?thesis by (intro exI [of _ "idx # out"]) auto
  qed
  have drop: "\<exists>out. required_sort_loop schema (Suc idx) ids k req = Some (req @ out)
      \<and> (\<forall>j\<in>set out. idx \<le> j \<and> j < idx + length (i # ids))" for k
  proof -
    obtain out where "required_sort_loop schema (Suc idx) ids k req = Some (req @ out)"
      "\<forall>j\<in>set out. Suc idx \<le> j \<and> j < Suc idx + length ids"
      using Cons [of "Suc idx" k req] by blast
    then show ?thesis by (intro exI [of _ out]) auto
  qed
  show ?case
    using keep drop by (cases i) (auto simp: sort_expr_removable_Some [OF assms])
qed simp

lemma sort_cmp_loop:
  assumes ok: "schema_ok schema T" and r: "r \<in> set T" and s: "s \<in> set T"
    and cmp: "\<forall>(c, e)\<in>set all. cmp_ok c"
  shows "required_sort_loop schema idx (map (\<lambda>se. passthrough_field_index (snd se)) ses) known req
           = Some (req @ out)
     \<Longrightarrow> drop idx all = ses \<Longrightarrow> \<forall>i\<in>known. r ! i = s ! i
     \<Longrightarrow> sort_cmp (map ((!) all) out) r s = sort_cmp ses r s"
proof (induction ses arbitrary: idx known req out)
  case Nil
  then show ?case by simp
next
  case (Cons ce ses)
  obtain c e where ce: "ce = (c, e)" by fastforce
  have rest: "drop (Suc idx) all = ses" using Cons.prems(2) by (metis drop_Suc tl_drop list.sel(3))
  have at: "all ! idx = (c, e)" using Cons.prems(2) ce by (metis nth_via_drop)
  have "ce \<in> set all" using Cons.prems(2) by (metis in_set_dropD list.set_intros(1))
  then have c: "c x y = Equal \<longleftrightarrow> x = y" for x y using cmp ce by (auto simp: cmp_ok_def)
  have cr: "c x x = Equal" for x by (simp add: c)
  have keep: "sort_cmp (map ((!) all) out) r s = sort_cmp (ce # ses) r s"
    if run: "required_sort_loop schema (Suc idx) (map (\<lambda>se. passthrough_field_index (snd se)) ses) k (req @ [idx])
        = Some (req @ out)"
      and k: "eval_expr e r = eval_expr e s \<Longrightarrow> \<forall>i\<in>k. r ! i = s ! i" for k
  proof -
    obtain out' where out': "req @ out = (req @ [idx]) @ out'"
      using required_sort_loop_Some [OF ok, of "Suc idx" _ k "req @ [idx]"] run by (metis option.inject)
    show ?thesis
    proof (cases "eval_expr e r = eval_expr e s")
      case True
      then show ?thesis using Cons.IH [of "Suc idx" k "req @ [idx]" out'] run k rest out' at ce cr by auto
    next
      case False
      then have "c (eval_expr e r) (eval_expr e s) \<noteq> Equal" by (simp add: c)
      then show ?thesis using out' at ce by (cases "c (eval_expr e r) (eval_expr e s)") auto
    qed
  qed
  show ?case
  proof (cases "passthrough_field_index e")
    case None
    then show ?thesis using keep [of known] Cons.prems ce by simp
  next
    case (Some f)
    note ev = eval_expr_passthrough [OF Some]
    show ?thesis
    proof (cases "sort_expr_removable schema known f = Some True")
      case True
      then obtain d where "d \<in> set (functional_dependencies schema)" "f \<in> set (target_indices d)"
          "set (source_indices d) \<subseteq> known" "valid_across_nulls d schema"
        by (auto simp: sort_expr_removable_Some [OF ok])
      then have "r ! f = s ! f"
        using schema_determines [OF ok, of d r s f] r s Cons.prems(3) by blast
      then show ?thesis using Cons.IH [of "Suc idx" known req out] Cons.prems True Some rest ce ev cr by simp
    next
      case False
      then have "sort_expr_removable schema known f = Some False"
        by (simp add: sort_expr_removable_Some [OF ok])
      then show ?thesis using keep [of "insert f known"] Cons.prems Some ce ev by simp
    qed
  qed
qed

lemma required_sort_nonempty:
  assumes "schema_ok schema T" and "ids \<noteq> []"
  shows "get_required_sort_exprs_indices schema ids \<noteq> Some []"
proof -
  obtain i rest where ids: "ids = i # rest" using assms(2) by (cases ids) auto
  have "sort_expr_removable schema {} f = Some False" for f
    using schema_okD(3) [OF assms(1)] by (auto simp: sort_expr_removable_Some [OF assms(1)])
  then show ?thesis
    using required_sort_loop_Some [OF assms(1), of 1 rest _ "[0]"]
    by (cases i) (auto simp: get_required_sort_exprs_indices_def ids; metis Cons_eq_appendI append_Nil list.distinct(1) option.inject)+
qed

text \<open>
  C8.  Dropping the ORDER BY expressions that \<open>get_required_sort_exprs_indices\<close> finds redundant
  does not change how any two rows of the table compare, and never drops all of them.
\<close>

theorem required_sort_same_order:
  assumes "schema_ok schema T" and "\<forall>(c, e)\<in>set ses. cmp_ok c"
  shows "\<exists>idxs. get_required_sort_exprs_indices schema (map (\<lambda>se. passthrough_field_index (snd se)) ses) = Some idxs
      \<and> (\<forall>i\<in>set idxs. i < length ses) \<and> (ses \<noteq> [] \<longrightarrow> idxs \<noteq> [])
      \<and> (\<forall>r\<in>set T. \<forall>s\<in>set T. sort_cmp (map ((!) ses) idxs) r s = sort_cmp ses r s)"
proof -
  let ?ids = "map (\<lambda>se. passthrough_field_index (snd se)) ses"
  obtain out where run: "required_sort_loop schema 0 ?ids {} [] = Some ([] @ out)"
    and range: "\<forall>i\<in>set out. 0 \<le> i \<and> i < 0 + length ?ids"
    using required_sort_loop_Some [OF assms(1), of 0 ?ids "{}" "[]"] by blast
  have "sort_cmp (map ((!) ses) out) r s = sort_cmp ses r s" if "r \<in> set T" "s \<in> set T" for r s
    by (rule sort_cmp_loop [OF assms(1) that assms(2) run]) auto
  moreover have "out \<noteq> []" if "ses \<noteq> []"
    using required_sort_nonempty [OF assms(1), of ?ids] that run
    by (auto simp: get_required_sort_exprs_indices_def)
  ultimately show ?thesis using run range by (auto simp: get_required_sort_exprs_indices_def)
qed

section \<open>Uniqueness used by the optimizer\<close>

text \<open>
  C34.  Dropping \<open>SELECT DISTINCT\<close> is right when the dependencies are valid across NULLs: the input
  has no two equal rows.
\<close>

theorem distinct_noop_sound:
  assumes "schema_ok schema T" and "all_valid_across_nulls schema" and "distinct_is_noop schema"
  shows "distinct T"
proof -
  let ?n = "length (fields_nullable schema)"
  obtain d where d: "d \<in> set (functional_dependencies schema)" "mode d = Single"
    using assms(3) by (auto simp: distinct_is_noop_def Let_def list_ex_iff)
  have once: "occurs_once d T" using schema_okD(4) [OF assms(1) d(1)] d(2) by (simp add: fd_holds_def)
  have self: "key_eq d r r" if "r \<in> set T" for r
    by (rule key_eq_across_nulls [OF schema_okD(4) [OF assms(1) d(1)] schema_okD(1) [OF assms(1)]
          schema_okD(5) [OF assms(1) d(1)] _ that]) (use assms(2) d in auto)
  show ?thesis unfolding distinct_conv_nth
  proof (intro allI impI)
    fix i j assume i: "i < length T" and j: "j < length T" and "i \<noteq> j"
    then consider "i < j" | "j < i" by linarith
    then show "T ! i \<noteq> T ! j"
    proof cases
      case 1
      then have "\<not> key_eq d (T ! i) (T ! j)"
        using once j sorted_wrt_nth_less unfolding occurs_once_def by metis
      then show ?thesis using self [OF nth_mem [OF i]] by metis
    next
      case 2
      then have "\<not> key_eq d (T ! j) (T ! i)"
        using once i sorted_wrt_nth_less unfolding occurs_once_def by metis
      then show ?thesis using self [OF nth_mem [OF i]] by metis
    qed
  qed
qed

text \<open>
  C35.  A join side that \<open>side_unique_on_join\<close> accepts matches at most one row per key, under the
  NULL semantics of the join.
\<close>

theorem side_unique_on_join_sound:
  assumes "schema_ok schema T" and "side_unique_on_join schema keys null_eq"
  shows "sorted_wrt (\<lambda>r s. \<not> (\<forall>i. Some i \<in> set keys \<longrightarrow>
           r ! i = s ! i \<and> (null_eq = NullEqualsNothing \<longrightarrow> r ! i \<noteq> None))) T"
proof -
  obtain d where d: "d \<in> set (functional_dependencies schema)" "mode d = Single"
      "\<not> nullable d \<or> null_eq = NullEqualsNothing" "\<forall>i\<in>set (source_indices d). Some i \<in> set keys"
    using assms(2)
    by (auto simp: side_unique_on_join_def Let_def list_ex_iff list_all_iff in_set_map_filter)
  have holds: "fd_holds d T" by (rule schema_okD(4) [OF assms(1) d(1)])
  have "sorted_wrt (\<lambda>r s. \<not> key_eq d r s) T"
    using holds d(2) by (simp add: fd_holds_def occurs_once_def)
  then show ?thesis
  proof (rule sorted_wrt_mono_rel [rotated])
    fix r s assume r: "r \<in> set T" and "s \<in> set T" and ne: "\<not> key_eq d r s"
    show "\<not> (\<forall>i. Some i \<in> set keys \<longrightarrow> r ! i = s ! i \<and> (null_eq = NullEqualsNothing \<longrightarrow> r ! i \<noteq> None))"
    proof
      assume eq: "\<forall>i. Some i \<in> set keys \<longrightarrow> r ! i = s ! i \<and> (null_eq = NullEqualsNothing \<longrightarrow> r ! i \<noteq> None)"
      have "r ! i \<noteq> None" if "i \<in> set (source_indices d)" for i
        using d(3,4) that eq holds r by (auto simp: fd_holds_def null_free_def)
      then show False using ne eq d(4) by (auto simp: key_eq_def)
    qed
  qed
qed

section \<open>Limits of the rules\<close>

text \<open>
  Two tables: \<open>a\<close> with a primary key and \<open>b\<close> without constraints, one column each, and their cross
  join grouped by both columns.
\<close>

definition a_schema :: df_schema where
  "a_schema = \<lparr> fields_nullable = [False],
     functional_dependencies = new_from_constraints (Some [PrimaryKey [0]]) 1 \<rparr>"

definition b_schema :: df_schema where
  "b_schema = \<lparr> fields_nullable = [False], functional_dependencies = fds_empty \<rparr>"

definition ab_schema :: df_schema where
  "ab_schema = \<lparr> fields_nullable = [False, False],
     functional_dependencies =
       [\<lparr> source_indices = [0], target_indices = [0], nullable = False,
          null_equality = NullEqualsNothing, mode = Multi \<rparr>] \<rparr>"

definition a_table :: "nat row list" where "a_table = [[Some 1]]"
definition b_table :: "nat row list" where "b_table = [[Some 10], [Some 20]]"
definition ab_table :: "nat row list" where "ab_table = [[Some 1, Some 10], [Some 1, Some 20]]"


lemma ab_schema_ok: "schema_ok ab_schema ab_table"
  by (simp add: schema_ok_def schema_fits_def ab_schema_def ab_table_def fds_is_valid_def max_below_def
      fd_holds_def determines_def key_eq_def null_free_def occurs_once_def less_Suc_eq)


text \<open>A table with a nullable unique column; two of its rows have no value there.\<close>

definition u_schema :: df_schema where
  "u_schema = \<lparr> fields_nullable = [True, False],
     functional_dependencies = new_from_constraints (Some [Unique [0]]) 2 \<rparr>"

definition u_table :: "nat row list" where "u_table = [[None, Some 1], [None, Some 2]]"

lemma u_schema_deps: "functional_dependencies u_schema =
    [\<lparr> source_indices = [0], target_indices = [0, 1], nullable = True,
       null_equality = NullEqualsNothing, mode = Single \<rparr>]"
  by (simp add: u_schema_def new_from_constraints_def fds_new_def with_mode_def fd_new_def numeral_2_eq_2)



section \<open>The theorems at concrete inputs\<close>

lemma a_schema_ok: "schema_ok a_schema a_table" "schema_ok b_schema b_table"
  by (simp_all add: schema_ok_def schema_fits_def a_schema_def b_schema_def a_table_def b_table_def
      fds_is_valid_def max_below_def new_from_constraints_def fds_new_def fds_empty_def with_mode_def
      fd_new_def fd_holds_def determines_def key_eq_def null_free_def occurs_once_def)


theorem asof_join_schema_sound_witness:
  "\<exists>schema. build_asof_join_schema a_schema b_schema = Some schema
     \<and> schema_ok schema (asof_rows (\<lambda>_. Some [Some 20]) 1 a_table)"
  using asof_join_schema_sound [OF a_schema_ok, of "\<lambda>_. Some [Some 20]"]
  by (simp add: b_schema_def b_table_def)

theorem project_dependencies_sound_witness:
  "fds_hold (calc_func_dependencies_for_project
       [Expr (Alias (Column (Some 1))), Wildcard [Some 0, Some 1], Expr (Computed (\<lambda>_. Some (7::nat)))] ab_schema)
     (project_rows [Expr (Alias (Column (Some 1))), Wildcard [Some 0, Some 1],
       Expr (Computed (\<lambda>_. Some (7::nat)))] ab_table)"
  using project_dependencies_sound [OF ab_schema_ok]
  by (simp add: ab_schema_def COMPUTED_EXPR_INDEX_def USIZE_MAX_def)

theorem projected_constraints_hold_witness:
  "constraints_project [PrimaryKey [1], Unique [2]] [1, 0] = Some [PrimaryKey [0]]
   \<and> constraint_holds [[Some 5, Some 4], [Some 6, Some (4::nat)]] (PrimaryKey [0])"
  using projected_constraints_hold [of "[PrimaryKey [1], Unique [2]]"
      "[[Some 4, Some 5, None], [Some 4, Some 6, None :: nat option]]" 3 "[1, 0]"
      "[[Some 5, Some 4], [Some 6, Some 4]]" "[PrimaryKey [0]]" 2]
  by (simp add: constraint_holds_def constraint_key_def null_free_def projects_def less_Suc_eq
      constraints_project_def new_unverified_def List.map_filter_simps
      update_elements_with_matching_indices_def)


lemma ab_valid: "all_valid_across_nulls ab_schema"
  by (simp add: ab_schema_def valid_across_nulls_def)

theorem required_group_by_same_groups_witness:
  "get_required_group_by_exprs_indices ab_schema [Some 0, Some 1] = Some [0, 1]
   \<and> (case get_required_group_by_exprs_indices ab_schema
        (map passthrough_field_index [Column (Some 0), Alias (Column (Some 0)) :: nat expr]) of
        None \<Rightarrow> False
      | Some idxs \<Rightarrow> (\<forall>i\<in>set idxs. i < 2))"
proof
  show "get_required_group_by_exprs_indices ab_schema [Some 0, Some 1] = Some [0, 1]"
    by (simp add: get_required_group_by_exprs_indices_def ab_schema_def required_group_by_step_def
        merge_and_order_indices_def set_difference_def)
  show "case get_required_group_by_exprs_indices ab_schema
        (map passthrough_field_index [Column (Some 0), Alias (Column (Some 0)) :: nat expr]) of
        None \<Rightarrow> False
      | Some idxs \<Rightarrow> (\<forall>i\<in>set idxs. i < 2)"
    using required_group_by_same_groups [OF ab_schema_ok ab_valid,
        of "[Column (Some 0), Alias (Column (Some 0))]"]
    by (auto simp: numeral_2_eq_2 split: option.splits)
qed

theorem added_group_by_same_groups_witness:
  "group_key (add_group_by_exprs_from_dependencies [Column (Some 1)] ab_schema) [Some 1, Some (10::nat)]
     \<noteq> group_key (add_group_by_exprs_from_dependencies [Column (Some 1)] ab_schema) [Some 1, Some 20]"
  using added_group_by_same_groups [OF ab_schema_ok ab_valid, of "[Some 1, Some 10]" "[Some 1, Some 20]"
      "[Column (Some 1)]"]
  by (simp add: ab_table_def group_key_def)

theorem required_sort_same_order_witness:
  "\<exists>idxs. get_required_sort_exprs_indices ab_schema [Some 0, Some 0, Some 1] = Some idxs
     \<and> (\<forall>i\<in>set idxs. i < 3) \<and> idxs \<noteq> []"
proof -
  let ?c = "\<lambda>x y :: nat option. if x = y then Equal else Less"
  have "\<forall>(c, e)\<in>set [(?c, Column (Some 0)), (?c, Column (Some 0)), (?c, Column (Some 1))]. cmp_ok c"
    by (simp add: cmp_ok_def)
  from required_sort_same_order [OF ab_schema_ok this] show ?thesis by (auto simp: numeral_3_eq_3)
qed

theorem distinct_noop_sound_witness:
  "distinct_is_noop a_schema \<and> distinct a_table"
proof -
  have "distinct_is_noop a_schema"
    by (simp add: distinct_is_noop_def a_schema_def new_from_constraints_def fds_new_def with_mode_def
        fd_new_def)
  moreover have "all_valid_across_nulls a_schema"
    by (simp add: a_schema_def new_from_constraints_def fds_new_def with_mode_def fd_new_def
        valid_across_nulls_def)
  ultimately show ?thesis using distinct_noop_sound [OF a_schema_ok(1)] by blast
qed

theorem side_unique_on_join_sound_witness:
  "side_unique_on_join u_schema [Some 0, None] NullEqualsNothing
   \<and> sorted_wrt (\<lambda>r s. \<not> (r ! 0 = s ! 0 \<and> r ! 0 \<noteq> None)) u_table"
proof -
  have ok: "schema_ok u_schema u_table"
    by (simp add: schema_ok_def u_schema_deps schema_fits_def)
      (simp add: u_schema_def u_table_def fds_is_valid_def max_below_def fd_holds_def
        determines_def key_eq_def occurs_once_def less_Suc_eq)
  have un: "side_unique_on_join u_schema [Some 0, None] NullEqualsNothing"
    by (simp add: side_unique_on_join_def u_schema_deps List.map_filter_simps)
  show ?thesis using side_unique_on_join_sound [OF ok un] un by simp
qed

end
