(* ===== verification/Distributor_Channels.thy ===== *)
theory Distributor_Channels
  imports Prelude
begin

text \<open>
  The channels of \<open>physical-plan/src/repartition/distributor_channels.rs\<close>: unbounded queues that
  share a gate, which closes while no open channel is empty.

  A waker is a number; waking is the list of wakers an operation returns.  The pieces of code that
  run under a lock, or are one atomic instruction, are definitions of their own, so that the same
  definitions serve the operations as a whole and their interleaving.  A counter is a natural
  number below \<open>2 ^ 64\<close> that wraps; an \<open>expect\<close> or \<open>assert!\<close> that fails is \<open>None\<close>.
\<close>

section \<open>State\<close>

type_synonym waker = nat

record 'a channel =
  n_senders :: nat
  channel_id :: nat
  ch_data :: "'a list option"
  recv_wakers :: "waker list option"

record gate =
  empty_channels :: nat
  send_wakers :: "(waker \<times> nat) list option"






definition wrapping_dec :: "nat \<Rightarrow> nat" where
  "wrapping_dec n = (if n = 0 then USIZE_MAX else n - 1)"

section \<open>The gate\<close>

text \<open>The second half of \<open>decr_empty_channels\<close>, under the lock of the wakers.\<close>

definition close_gate :: "gate \<Rightarrow> gate" where
  "close_gate g =
     (if empty_channels g = 0 \<and> send_wakers g = None then g\<lparr>send_wakers := Some []\<rparr> else g)"

definition decr_empty_channels :: "gate \<Rightarrow> gate" where
  "decr_empty_channels g =
     (let old_count = empty_channels g;
          g' = g\<lparr>empty_channels := wrapping_dec old_count\<rparr>
      in if old_count = 1 then close_gate g' else g')"

definition wake_channel_senders :: "nat \<Rightarrow> gate \<Rightarrow> waker list \<times> gate" where
  "wake_channel_senders id_ch g =
     (case send_wakers g of
        Some ws \<Rightarrow>
          (map fst (filter (\<lambda>(w, id2). id_ch = id2) ws),
           g\<lparr>send_wakers := Some (filter (\<lambda>(w, id2). \<not> id_ch = id2) ws)\<rparr>)
      | None \<Rightarrow> ([], g))"



section \<open>Channels\<close>

definition new_with_one_sender :: "nat \<Rightarrow> 'a channel" where
  "new_with_one_sender id_ch =
     \<lparr> n_senders = 1, channel_id = id_ch, ch_data = Some [], recv_wakers = Some [] \<rparr>"

definition channels :: "nat \<Rightarrow> 'a channel list \<times> gate" where
  "channels n = (map new_with_one_sender [0..<n], \<lparr> empty_channels = n, send_wakers = None \<rparr>)"

definition partition_aware_channels :: "nat \<Rightarrow> nat \<Rightarrow> ('a channel list \<times> gate) list" where
  "partition_aware_channels n_in n_out = map (\<lambda>_. channels n_out) [0..<n_in]"






section \<open>Handles\<close>


text \<open>
  Dropping a sender: the counter of the senders first, then, for the last one, the rest under the
  lock of the channel.
\<close>

definition sender_drop_count :: "'a channel \<Rightarrow> nat \<times> 'a channel" where
  "sender_drop_count ch = (n_senders ch, ch\<lparr>n_senders := wrapping_dec (n_senders ch)\<rparr>)"

definition sender_drop_locked ::
  "'a channel \<Rightarrow> gate \<Rightarrow> ('a channel \<times> gate \<times> waker list) option" where
  "sender_drop_locked ch g =
     (let g' = (if ch_data ch = Some [] then decr_empty_channels g else g)
      in case recv_wakers ch of
           Some receivers \<Rightarrow> Some (ch\<lparr>recv_wakers := None\<rparr>, g', receivers)
         | None \<Rightarrow> None)"

definition sender_drop :: "'a channel \<Rightarrow> gate \<Rightarrow> ('a channel \<times> gate \<times> waker list) option" where
  "sender_drop ch g =
     (let (n_senders_pre, ch') = sender_drop_count ch
      in if n_senders_pre > 1 then Some (ch', g, []) else sender_drop_locked ch' g)"

definition receiver_drop :: "'a channel \<Rightarrow> gate \<Rightarrow> ('a channel \<times> gate \<times> waker list) option" where
  "receiver_drop ch g =
     do {
       data \<leftarrow> ch_data ch;
       let ch' = ch\<lparr>ch_data := None\<rparr>;
       let g' = (if data = [] \<and> n_senders ch > 0 then decr_empty_channels g else g);
       let (to_wake, g'') = wake_channel_senders (channel_id ch) g';
       Some (ch', g'', to_wake)
     }"

section \<open>Runs\<close>








section \<open>Invariant\<close>




























section \<open>What the channels promise\<close>









section \<open>Races\<close>







text \<open>
  C37.  The drop of the last sender is not atomic: it counts itself out before it takes the lock of the
  channel.  If the receiver of an empty channel is dropped in between, neither side takes the
  channel off the counter of the gate, which then counts a channel that is closed on both ends;
  either order without overlap takes it off.
\<close>

theorem drop_race_leaks_empty_channel:
  fixes g :: gate
  assumes "g = \<lparr> empty_channels = n, send_wakers = None \<rparr>" and "0 < n"
  shows "(\<exists>ch1 ch2 g2 wk2 ch3 g3 wk3.
      sender_drop_count (new_with_one_sender i :: 'a channel) = (1, ch1)
      \<and> receiver_drop ch1 g = Some (ch2, g2, wk2) \<and> sender_drop_locked ch2 g2 = Some (ch3, g3, wk3)
      \<and> n_senders ch3 = 0 \<and> ch_data ch3 = None \<and> recv_wakers ch3 = None
      \<and> empty_channels g3 = n)
    \<and> (\<exists>ch1 g1 wk1 ch2 g2 wk2.
      sender_drop (new_with_one_sender i :: 'a channel) g = Some (ch1, g1, wk1)
      \<and> receiver_drop ch1 g1 = Some (ch2, g2, wk2) \<and> empty_channels g2 = n - 1)
    \<and> (\<exists>ch1 g1 wk1 ch2 g2 wk2.
      receiver_drop (new_with_one_sender i :: 'a channel) g = Some (ch1, g1, wk1)
      \<and> sender_drop ch1 g1 = Some (ch2, g2, wk2) \<and> empty_channels g2 = n - 1)"
  using assms
  by (auto simp: sender_drop_count_def receiver_drop_def sender_drop_locked_def sender_drop_def
      new_with_one_sender_def wake_channel_senders_def decr_empty_channels_def close_gate_def
      wrapping_dec_def Let_def)

section \<open>The theorems at concrete inputs\<close>






theorem drop_race_leaks_empty_channel_witness:
  "\<exists>ch1 ch2 g2 wk2 ch3 g3 wk3.
      sender_drop_count (new_with_one_sender 0 :: nat channel) = (1, ch1)
      \<and> receiver_drop ch1 (snd (channels 1 :: nat channel list \<times> gate)) = Some (ch2, g2, wk2)
      \<and> sender_drop_locked ch2 g2 = Some (ch3, g3, wk3) \<and> empty_channels g3 = 1"
  using drop_race_leaks_empty_channel [of "snd (channels 1 :: nat channel list \<times> gate)" 1 0]
  by (auto simp: channels_def)

end
