(* ===== verification/Join_Chain.thy ===== *)
theory Join_Chain
  imports Prelude
begin

text \<open>
  Chains of build rows with one key, as the maps of the hash join store them
  (\<open>physical-plan/src/joins/chain.rs\<close>), and the resume points of a chunked lookup.  The entry of a
  map and the elements of the vector \<open>next\<close> are row numbers plus one; zero ends a chain.  Row
  numbers are words of the width the map was built with; a failed index is \<open>None\<close>.
\<close>

section \<open>Traversal\<close>

type_synonym u32 = "32 word"
type_synonym u64 = "64 word"

datatype probe_offset = AtRow nat | MidChain nat u64

lemma unat_minus_one_less: "(r :: 'a::len word) \<noteq> 0 \<Longrightarrow> unat (r - 1) < unat r"
  by (simp add: unat_minus_one) (simp add: unat_gt_0)

lemma unat_minus_two_less: "(r :: 'a::len word) \<noteq> 1 \<Longrightarrow> unat (r - 2) < unat (r - 1)"
  using unat_minus_one_less [of "r - 1"] by (simp add: diff_diff_eq)

text \<open>
  The loop of \<open>traverse_chain\<close>, with the row it stands at, the output that is left, and the two
  output vectors.
\<close>

function traverse_loop ::
  "'w::len word list \<Rightarrow> nat \<Rightarrow> 'w word \<Rightarrow> usize \<Rightarrow> u32 list \<Rightarrow> u64 list \<Rightarrow> bool
   \<Rightarrow> (probe_offset option \<times> usize \<times> u32 list \<times> u64 list) option" where
  "traverse_loop next_chain prob_idx match_row_idx remaining input_indices match_indices is_last_input =
     (let match_indices' = match_indices @ [ucast match_row_idx];
          input_indices' = input_indices @ [of_nat prob_idx];
          remaining' = remaining - 1
      in case vec_get next_chain (unat match_row_idx) of
           None \<Rightarrow> None
         | Some nx \<Rightarrow>
             if remaining' = 0 then
               Some (if is_last_input \<and> nx = 0 then None
                     else if nx = 0 then Some (AtRow (prob_idx + 1))
                     else Some (MidChain prob_idx (ucast nx)),
                     remaining', input_indices', match_indices')
             else if nx = 0 then Some (None, remaining', input_indices', match_indices')
             else traverse_loop next_chain prob_idx (nx - 1) remaining' input_indices' match_indices' is_last_input)"
  by pat_completeness auto

termination
  by (relation "measure (\<lambda>(_, _, _, remaining, _). unat (remaining - 1))")
    (simp_all add: unat_minus_two_less)

declare traverse_loop.simps [simp del]

definition traverse_chain ::
  "'w::len word list \<Rightarrow> nat \<Rightarrow> 'w word \<Rightarrow> usize \<Rightarrow> u32 list \<Rightarrow> u64 list \<Rightarrow> bool
   \<Rightarrow> (probe_offset option \<times> usize \<times> u32 list \<times> u64 list) option" where
  "traverse_chain next_chain prob_idx start_chain_idx remaining input_indices match_indices is_last_input =
     traverse_loop next_chain prob_idx (start_chain_idx - 1) remaining input_indices match_indices is_last_input"

section \<open>Chains\<close>

text \<open>
  The rows of a chain, from its head.  The vector \<open>next\<close> holds the rows from \<open>d\<close> on; a row below \<open>d\<close>
  was pruned and ends the chain like zero does.
\<close>

fun chain :: "'w::len word list \<Rightarrow> nat \<Rightarrow> 'w word \<Rightarrow> nat list \<Rightarrow> bool" where
  "chain nxt d i [] \<longleftrightarrow> unat i \<le> d"
| "chain nxt d i (r # rs) \<longleftrightarrow> unat i = r + 1 \<and> d \<le> r \<and> r - d < length nxt \<and> chain nxt d (nxt ! (r - d)) rs"

lemma chain_update:
  assumes "chain nxt d i rs" and "d + j \<notin> set rs"
  shows "chain (nxt[j := v]) d i rs"
  using assms by (induction rs arbitrary: i) auto

lemma chain_zero [simp]: "chain nxt d 0 rs \<longleftrightarrow> rs = []"
  by (cases rs) auto

lemma chain_rows: "chain nxt d i rs \<Longrightarrow> r \<in> set rs \<Longrightarrow> d \<le> r \<and> r < d + length nxt"
  by (induction rs arbitrary: i) auto

lemma chain_row: "unat i = r + 1 \<Longrightarrow> unat (i - 1) = r" for i :: "'w::len word"
  by (metis Suc_eq_plus1 add_diff_cancel_right' nat.distinct(1) unat_0 unat_minus_one)

lemma unat_row_bound: "unat i = r + 1 \<Longrightarrow> r + 1 < 2 ^ LENGTH('w)" for i :: "'w::len word"
proof -
  have "unat i < 2 ^ LENGTH('w)" by (rule unsigned_less)
  then show "unat i = r + 1 \<Longrightarrow> r + 1 < 2 ^ LENGTH('w)" by simp
qed

text \<open>
  What a traversal does: it emits the rows of the chain up to the remaining output and says
  where to go on if that is used up.
\<close>

definition after_chain :: "'w::len word list \<Rightarrow> nat \<Rightarrow> bool \<Rightarrow> nat \<Rightarrow> nat list \<Rightarrow> probe_offset option" where
  "after_chain nxt p is_last n rs =
     (if length rs < n then None
      else if length rs = n then (if is_last then None else Some (AtRow (p + 1)))
      else Some (MidChain p (of_nat (rs ! n + 1))))"

lemma ucast_row: "unat i = r + 1 \<Longrightarrow> LENGTH('w) \<le> 64 \<Longrightarrow> (ucast (i - 1) :: u64) = of_nat r"
  for i :: "'w::len word"
  using chain_row [of i r] by (metis of_nat_unat)

lemma ucast_u64_back: "LENGTH('w) \<le> 64 \<Longrightarrow> ucast (ucast j :: u64) = j" for j :: "'w::len word"
  by (rule bit_word_eqI) (auto simp: bit_unsigned_iff)

lemma traverse_loop_spec:
  fixes i :: "'w::len word"
  assumes "chain nxt 0 i rs" and "rs \<noteq> []" and "0 < remaining" and "LENGTH('w) \<le> 64"
  shows "traverse_loop nxt p (i - 1) remaining inp mat is_last =
    Some (after_chain nxt p is_last (unat remaining) rs, remaining - of_nat (min (unat remaining) (length rs)),
          inp @ replicate (min (unat remaining) (length rs)) (of_nat p),
          mat @ map of_nat (take (unat remaining) rs))"
  using assms(1-3)
proof (induction rs arbitrary: i remaining inp mat)
  case (Cons r rs)
  have r: "unat i = r + 1" "r < length nxt" and tail: "chain nxt 0 (nxt ! r) rs" using Cons.prems(1) by auto
  have u: "unat (i - 1) = r" "(ucast (i - 1) :: u64) = of_nat r"
    using chain_row r(1) ucast_row assms(4) by auto
  obtain m where m: "unat remaining = Suc m" using Cons.prems(3) by (metis not0_implies_Suc unat_eq_zero word_not_simps(1))
  have rem: "unat (remaining - 1) = m" using m by (metis Suc_eq_plus1 chain_row)
  show ?case
  proof (cases "nxt ! r = 0")
    case True
    then have "rs = []" using tail by simp
    moreover have "remaining - 1 = 0 \<longleftrightarrow> m = 0" using rem by (metis unat_eq_zero)
    ultimately show ?thesis
      using True u r(2) m by (subst traverse_loop.simps) (auto simp: Let_def after_chain_def)
  next
    case False
    then obtain q qs where rs: "rs = q # qs" using tail by (cases rs) (auto simp: unat_eq_0)
    have q: "unat (nxt ! r) = q + 1" using tail rs by simp
    show ?thesis
    proof (cases "remaining - 1 = 0")
      case True
      then have "m = 0" using rem by simp
      moreover have "(ucast (nxt ! r) :: u64) = of_nat (q + 1)" using q by (metis of_nat_unat)
      moreover have "remaining = 1" using True by simp
      ultimately show ?thesis
        using False True u r(2) rs by (subst traverse_loop.simps) (simp add: Let_def after_chain_def)
    next
      case pos: False
      have "traverse_loop nxt p (nxt ! r - 1) (remaining - 1) (inp @ [of_nat p]) (mat @ [of_nat r]) is_last =
        Some (after_chain nxt p is_last m rs, remaining - 1 - of_nat (min m (length rs)),
          (inp @ [of_nat p]) @ replicate (min m (length rs)) (of_nat p), (mat @ [of_nat r]) @ map of_nat (take m rs))"
        using Cons.IH [OF tail _ , of "remaining - 1"] rs pos rem by (simp add: word_gt_0)
      moreover have "min (Suc m) (length (r # rs)) = Suc (min m (length rs))" by simp
      ultimately show ?thesis
        using False pos u r(2) m
        by (subst traverse_loop.simps) (simp add: Let_def after_chain_def algebra_simps)
    qed
  qed
qed simp

lemmas traverse_chain_spec = traverse_loop_spec [folded traverse_chain_def]

lemma chain_drop: "chain nxt 0 i rs \<Longrightarrow> n < length rs \<Longrightarrow> \<exists>j. chain nxt 0 j (drop n rs) \<and> unat j = rs ! n + 1"
proof (induction n arbitrary: i rs)
  case 0
  then show ?case by (cases rs) auto
next
  case (Suc n)
  then obtain r rs' where rs: "rs = r # rs'" by (cases rs) auto
  then show ?case using Suc.IH [of "nxt ! r" rs'] Suc.prems by auto
qed

section \<open>A chunked lookup over the heads of the probe rows\<close>

text \<open>
  The reference for the lookups of both maps: each probe row has the head of a chain, or none.
\<close>

fun probe_heads ::
  "'w::len word list \<Rightarrow> nat \<Rightarrow> 'w word option list \<Rightarrow> nat \<Rightarrow> usize \<Rightarrow> u32 list \<Rightarrow> u64 list
   \<Rightarrow> (probe_offset option \<times> u32 list \<times> u64 list) option" where
  "probe_heads nxt n [] row remaining inp mat = Some (None, inp, mat)"
| "probe_heads nxt n (None # hs) row remaining inp mat = probe_heads nxt n hs (row + 1) remaining inp mat"
| "probe_heads nxt n (Some h # hs) row remaining inp mat =
     (case traverse_chain nxt row h remaining inp mat (row = n - 1) of
        None \<Rightarrow> None
      | Some (Some off, rem', inp', mat') \<Rightarrow> Some (Some off, inp', mat')
      | Some (None, rem', inp', mat') \<Rightarrow> probe_heads nxt n hs (row + 1) rem' inp' mat')"

definition probe_from ::
  "'w::len word list \<Rightarrow> 'w word option list \<Rightarrow> usize \<Rightarrow> probe_offset
   \<Rightarrow> (probe_offset option \<times> u32 list \<times> u64 list) option" where
  "probe_from nxt heads limit off =
     (case off of
        AtRow idx \<Rightarrow> probe_heads nxt (length heads) (drop idx heads) idx limit [] []
      | MidChain idx next_idx \<Rightarrow>
          (case traverse_chain nxt idx (ucast next_idx) limit [] [] (idx = length heads - 1) of
             None \<Rightarrow> None
           | Some (Some off', rem', inp', mat') \<Rightarrow> Some (Some off', inp', mat')
           | Some (None, rem', inp', mat') \<Rightarrow>
               probe_heads nxt (length heads) (drop (idx + 1) heads) (idx + 1) rem' inp' mat'))"

text \<open>The rows of every probe row, and all pairs from a probe row on.\<close>

definition heads_ok :: "'w::len word list \<Rightarrow> 'w word option list \<Rightarrow> nat list list \<Rightarrow> bool" where
  "heads_ok nxt = list_all2 (\<lambda>h rs. case h of None \<Rightarrow> rs = [] | Some i \<Rightarrow> i \<noteq> 0 \<and> chain nxt 0 i rs)"

fun pairs :: "nat \<Rightarrow> nat list list \<Rightarrow> (nat \<times> nat) list" where
  "pairs row [] = []"
| "pairs row (rs # ms) = map (Pair row) rs @ pairs (Suc row) ms"

abbreviation encode_probe :: "(nat \<times> nat) list \<Rightarrow> u32 list" where
  "encode_probe ps \<equiv> map (\<lambda>(p, _). of_nat p) ps"

abbreviation encode_build :: "(nat \<times> nat) list \<Rightarrow> u64 list" where
  "encode_build ps \<equiv> map (\<lambda>(_, r). of_nat r) ps"

text \<open>The pairs that a lookup from an offset still has to return.\<close>

fun resumes :: "'w::len word list \<Rightarrow> nat list list \<Rightarrow> probe_offset \<Rightarrow> (nat \<times> nat) list \<Rightarrow> bool" where
  "resumes nxt ms (AtRow i) ps \<longleftrightarrow> i \<le> length ms \<and> ps = pairs i (drop i ms)"
| "resumes nxt ms (MidChain i w) ps \<longleftrightarrow> i < length ms \<and>
     (\<exists>rs. rs \<noteq> [] \<and> chain nxt 0 (ucast w) rs \<and> ps = map (Pair i) rs @ pairs (Suc i) (drop (Suc i) ms))"

fun off_row :: "probe_offset \<Rightarrow> nat" where
  "off_row (AtRow i) = i"
| "off_row (MidChain i w) = i"

fun after_row :: "nat \<Rightarrow> probe_offset \<Rightarrow> bool" where
  "after_row row (AtRow i) \<longleftrightarrow> row < i"
| "after_row row (MidChain i w) \<longleftrightarrow> row \<le> i"

lemma after_row_mono: "after_row row' off \<Longrightarrow> row \<le> row' \<Longrightarrow> after_row row off"
  by (cases off) auto

lemma after_row_le: "after_row row off \<Longrightarrow> row \<le> off_row off"
  by (cases off) auto

lemma resumes_later: "resumes nxt (ms[row := rs]) off ps \<Longrightarrow> after_row row off \<Longrightarrow> resumes nxt ms off ps"
  by (cases off) auto

definition probe_outcome ::
  "'w::len word list \<Rightarrow> nat list list \<Rightarrow> nat \<Rightarrow> nat \<Rightarrow> (nat \<times> nat) list \<Rightarrow> probe_offset option \<Rightarrow> bool" where
  "probe_outcome nxt ms row m ps off \<longleftrightarrow>
     (case off of
        None \<Rightarrow> length ps \<le> m
      | Some o' \<Rightarrow> m \<le> length ps \<and> resumes nxt ms o' (drop m ps) \<and> after_row row o')"

text \<open>One chain, followed by the pairs of the later rows.\<close>

lemma traverse_outcome:
  fixes nxt :: "'w::len word list"
  assumes ch: "chain nxt 0 i rs" and ne: "rs \<noteq> []" and pos: "0 < remaining" and w: "LENGTH('w) \<le> 64"
    and row: "row < length ms"
  defines "m \<equiv> unat remaining" and "later \<equiv> pairs (Suc row) (drop (Suc row) ms)"
  shows "\<exists>off. traverse_chain nxt row i remaining inp mat (row = length ms - 1) =
      Some (off, remaining - of_nat (min m (length rs)),
            inp @ encode_probe (take m (map (Pair row) rs)), mat @ encode_build (take m (map (Pair row) rs)))
    \<and> (case off of
         None \<Rightarrow> length rs < m \<or> length rs = m \<and> Suc row = length ms
       | Some o' \<Rightarrow> probe_outcome nxt ms row m (map (Pair row) rs @ later) (Some o') \<and> m \<le> length rs)"
proof -
  let ?last = "row = length ms - 1"
  have enc: "replicate (min m (length rs)) (of_nat row) = encode_probe (take m (map (Pair row) rs))"
    "map of_nat (take m rs) = encode_build (take m (map (Pair row) rs))"
    by (auto simp: take_map comp_def map_replicate_const min.commute)
  have run: "traverse_chain nxt row i remaining inp mat ?last =
      Some (after_chain nxt row ?last m rs, remaining - of_nat (min m (length rs)),
            inp @ encode_probe (take m (map (Pair row) rs)), mat @ encode_build (take m (map (Pair row) rs)))"
    using traverse_chain_spec [OF ch ne pos w, of row inp mat ?last] enc by (simp add: m_def)
  have mid: "resumes nxt ms (MidChain row (of_nat (rs ! m + 1))) (drop m (map (Pair row) rs @ later))"
    if m: "m < length rs"
  proof -
    obtain j where j: "chain nxt 0 j (drop m rs)" "unat j = rs ! m + 1" using chain_drop [OF ch m] by blast
    have "of_nat (rs ! m + 1) = (ucast j :: u64)" using j(2) by (metis of_nat_unat)
    then have "ucast (of_nat (rs ! m + 1) :: u64) = j" using w by (simp add: ucast_u64_back)
    then show ?thesis
      using j(1) m row unfolding resumes.simps later_def
      by (intro conjI exI [of _ "drop m rs"]) (simp_all add: drop_map)
  qed
  show ?thesis
    using run mid row
    by (intro exI [of _ "after_chain nxt row ?last m rs"])
      (auto simp: after_chain_def probe_outcome_def later_def)
qed

lemma unat_u64_less: "unat (x :: u64) < 2 ^ 64"
  using unsigned_less [of x] by simp

lemma unat_of_nat_u64: "n < 2 ^ 64 \<Longrightarrow> unat (of_nat n :: u64) = n"
  by (simp add: unsigned_of_nat take_bit_nat_eq_self)

lemma probe_outcome_shift:
  assumes "probe_outcome nxt ms row' (m - length xs) later off" and "length xs \<le> m" and "row \<le> row'"
  shows "probe_outcome nxt ms row m (xs @ later) off"
  using assms by (auto simp: probe_outcome_def dest: after_row_mono split: option.splits)

lemma probe_heads_spec:
  fixes nxt :: "'w::len word list"
  assumes w: "LENGTH('w) \<le> 64"
  shows "heads_ok nxt hs (drop row ms) \<Longrightarrow> row \<le> length ms \<Longrightarrow> 0 < remaining \<Longrightarrow>
    \<exists>off. probe_heads nxt (length ms) hs row remaining inp mat =
        Some (off, inp @ encode_probe (take (unat remaining) (pairs row (drop row ms))),
              mat @ encode_build (take (unat remaining) (pairs row (drop row ms))))
      \<and> probe_outcome nxt ms row (unat remaining) (pairs row (drop row ms)) off"
proof (induction hs arbitrary: row remaining inp mat)
  case Nil
  then have "drop row ms = []" by (simp add: heads_ok_def)
  then have "pairs row (drop row ms) = []" by (simp only: pairs.simps)
  then show ?case by (simp add: probe_outcome_def)
next
  case (Cons h hs)
  let ?rs = "ms ! row"
  have row: "row < length ms"
    using list_all2_lengthD [OF Cons.prems(1) [unfolded heads_ok_def]] by simp
  then have ms: "drop row ms = ?rs # drop (Suc row) ms" by (simp add: Cons_nth_drop_Suc)
  have h: "case h of None \<Rightarrow> ?rs = [] | Some i \<Rightarrow> i \<noteq> 0 \<and> chain nxt 0 i ?rs"
    and tail: "heads_ok nxt hs (drop (Suc row) ms)"
    using Cons.prems(1) unfolding heads_ok_def ms by auto
  let ?later = "pairs (Suc row) (drop (Suc row) ms)"
  have ps: "pairs row (drop row ms) = map (Pair row) ?rs @ ?later" by (simp add: ms)
  show ?case
  proof (cases h)
    case None
    then have "?rs = []" using h by simp
    moreover obtain off where "probe_heads nxt (length ms) hs (Suc row) remaining inp mat =
        Some (off, inp @ encode_probe (take (unat remaining) ?later), mat @ encode_build (take (unat remaining) ?later))"
        "probe_outcome nxt ms (Suc row) (unat remaining) ?later off"
      using Cons.IH [OF tail _ Cons.prems(3), of inp mat] row by auto
    ultimately show ?thesis
      using probe_outcome_shift [of nxt ms "Suc row" "unat remaining" "[]" ?later off row] None ps by auto
  next
    case (Some i)
    then have ch: "chain nxt 0 i ?rs" and ne: "?rs \<noteq> []" using h by (auto simp: unat_eq_0)
    let ?m = "unat remaining"
    obtain off where t: "traverse_chain nxt row i remaining inp mat (row = length ms - 1) =
        Some (off, remaining - of_nat (min ?m (length ?rs)),
            inp @ encode_probe (take ?m (map (Pair row) ?rs)), mat @ encode_build (take ?m (map (Pair row) ?rs)))"
      and o: "case off of
         None \<Rightarrow> length ?rs < ?m \<or> length ?rs = ?m \<and> Suc row = length ms
       | Some o' \<Rightarrow> probe_outcome nxt ms row ?m (map (Pair row) ?rs @ ?later) (Some o') \<and> ?m \<le> length ?rs"
      using traverse_outcome [OF ch ne Cons.prems(3) w row, of inp mat] by blast
    show ?thesis
    proof (cases off)
      case (Some o')
      then have "m \<le> length ?rs" if "m = ?m" for m using o that by simp
      then have "take ?m (pairs row (drop row ms)) = take ?m (map (Pair row) ?rs)" by (simp add: ps)
      then show ?thesis using t o Some \<open>h = Some i\<close> ps by simp
    next
      case None
      show ?thesis
      proof (cases "length ?rs < ?m")
        case True
        let ?rem = "remaining - of_nat (length ?rs)"
        have u: "unat ?rem = ?m - length ?rs"
          using True unat_of_nat_u64 [OF less_trans [OF True unat_u64_less]] by (simp add: unat_sub word_le_nat_alt)
        have "0 < ?rem" using u True by (metis unat_gt_0 word_gt_0 zero_less_diff)
        then obtain off' where IH: "probe_heads nxt (length ms) hs (Suc row) ?rem inp' mat' =
            Some (off', inp' @ encode_probe (take (?m - length ?rs) ?later), mat' @ encode_build (take (?m - length ?rs) ?later))"
            "probe_outcome nxt ms (Suc row) (?m - length ?rs) ?later off'"
          if "inp' = inp @ encode_probe (map (Pair row) ?rs)" "mat' = mat @ encode_build (map (Pair row) ?rs)" for inp' mat'
          using Cons.IH [OF tail _ \<open>0 < ?rem\<close>] row unfolding u by (metis Suc_leI)
        have "probe_outcome nxt ms row ?m (map (Pair row) ?rs @ ?later) off'"
          using probe_outcome_shift [of nxt ms "Suc row" ?m "map (Pair row) ?rs"] IH(2) True by simp
        then show ?thesis
          using t None \<open>h = Some i\<close> IH(1) True ps by (simp add: min_absorb2)
      next
        case False
        then have "length ?rs = ?m" "Suc row = length ms" using o None by auto
        then have hs: "hs = []" and later: "?later = []" using tail by (simp_all add: heads_ok_def)
        then show ?thesis
          using t None \<open>h = Some i\<close> \<open>length ?rs = ?m\<close> ps by (simp add: probe_outcome_def)
      qed
    qed
  qed
qed

lemma probe_from_mid:
  "probe_from nxt heads limit (MidChain row nx) =
     probe_heads nxt (length heads) (Some (ucast nx) # drop (Suc row) heads) row limit [] []"
  by (simp add: probe_from_def split: option.split)

lemma probe_from_spec:
  fixes nxt :: "'w::len word list"
  assumes w: "LENGTH('w) \<le> 64" and ok: "heads_ok nxt heads ms" and r: "resumes nxt ms off ps" and pos: "0 < limit"
  shows "\<exists>off'. probe_from nxt heads limit off =
      Some (off', encode_probe (take (unat limit) ps), encode_build (take (unat limit) ps))
    \<and> probe_outcome nxt ms (off_row off) (unat limit) ps off'"
proof -
  have len: "length heads = length ms" using ok by (auto simp: heads_ok_def dest: list_all2_lengthD)
  have ok': "heads_ok nxt (drop k heads) (drop k ms)" for k using ok by (simp add: heads_ok_def list_all2_dropI)
  show ?thesis
  proof (cases off)
    case (AtRow row)
    then have "row \<le> length ms" "ps = pairs row (drop row ms)" using r by auto
    then show ?thesis
      using probe_heads_spec [OF w ok' _ pos, of row "[]" "[]"] AtRow by (simp add: probe_from_def len)
  next
    case (MidChain row nx)
    then obtain rs where rs: "row < length ms" "rs \<noteq> []" "chain nxt 0 (ucast nx) rs"
        and ps: "ps = map (Pair row) rs @ pairs (Suc row) (drop (Suc row) ms)"
      using r by auto
    have "heads_ok nxt (Some (ucast nx) # drop (Suc row) heads) (drop row (ms[row := rs]))"
      using ok' [of "Suc row"] rs by (auto simp: heads_ok_def Cons_nth_drop_Suc [symmetric])
    from probe_heads_spec [OF w this _ pos, of "[]" "[]"] rs(1)
    obtain off' where P: "probe_heads nxt (length ms) (Some (ucast nx) # drop (Suc row) heads) row limit [] [] =
        Some (off', encode_probe (take (unat limit) ps), encode_build (take (unat limit) ps))"
        "probe_outcome nxt (ms[row := rs]) row (unat limit) ps off'"
      by (auto simp: ps Cons_nth_drop_Suc [symmetric])
    have "probe_outcome nxt ms row (unat limit) ps off'"
      using P(2) by (auto simp: probe_outcome_def dest: resumes_later split: option.splits)
    then show ?thesis using P(1) unfolding MidChain probe_from_mid len off_row.simps by blast
  qed
qed

section \<open>Draining a lookup\<close>

text \<open>The caller's loop: look up from the returned offset until there is none.\<close>

partial_function (option) drain ::
  "(probe_offset \<Rightarrow> (probe_offset option \<times> 'a list \<times> 'b list) option) \<Rightarrow> probe_offset
   \<Rightarrow> ('a list \<times> 'b list) list option" where
  "drain probe off = do {
     (off', a, b) \<leftarrow> probe off;
     case off' of
       None \<Rightarrow> Some [(a, b)]
     | Some o' \<Rightarrow> do { rest \<leftarrow> drain probe o'; Some ((a, b) # rest) } }"

text \<open>
  What a chunked lookup promises.  A state \<open>s\<close> is a map with a probe batch and a limit; \<open>ms\<close> lists the
  matching build rows of each probe row, and \<open>left\<close> the pairs an offset still stands for.
\<close>

locale chunked_probe =
  fixes probe :: "'s \<Rightarrow> probe_offset \<Rightarrow> (probe_offset option \<times> u32 list \<times> u64 list) option"
    and bound :: "'s \<Rightarrow> nat"
    and valid :: "'s \<Rightarrow> nat list list \<Rightarrow> bool"
    and left :: "'s \<Rightarrow> nat list list \<Rightarrow> probe_offset \<Rightarrow> (nat \<times> nat) list \<Rightarrow> bool"
  assumes start: "valid s ms \<Longrightarrow> left s ms (AtRow 0) (pairs 0 ms)"
    and step: "valid s ms \<Longrightarrow> left s ms off ps \<Longrightarrow>
      \<exists>off' k. probe s off = Some (off', encode_probe (take k ps), encode_build (take k ps)) \<and> k \<le> bound s
        \<and> (case off' of
             None \<Rightarrow> length ps \<le> k
           | Some o' \<Rightarrow> left s ms o' (drop k ps)
               \<and> length ms - off_row o' + length (drop k ps) < length ms - off_row off + length ps)"
begin

lemma drain_from:
  assumes "valid s ms" and "left s ms off ps"
  shows "\<exists>chunks. drain (probe s) off = Some chunks
    \<and> concat (map fst chunks) = encode_probe ps \<and> concat (map snd chunks) = encode_build ps
    \<and> (\<forall>(a, b) \<in> set chunks. length a = length b \<and> length a \<le> bound s)"
  using assms(2)
proof (induction "length ms - off_row off + length ps" arbitrary: off ps rule: less_induct)
  case less
  obtain off' k where k: "probe s off = Some (off', encode_probe (take k ps), encode_build (take k ps))"
      "k \<le> bound s"
      "case off' of None \<Rightarrow> length ps \<le> k
       | Some o' \<Rightarrow> left s ms o' (drop k ps)
           \<and> length ms - off_row o' + length (drop k ps) < length ms - off_row off + length ps"
    using step [OF assms(1) less.prems] by blast
  show ?case
  proof (cases off')
    case None
    then show ?thesis using k by (subst drain.simps) simp
  next
    case (Some o')
    then obtain chunks where ch: "drain (probe s) o' = Some chunks"
        "concat (map fst chunks) = encode_probe (drop k ps)" "concat (map snd chunks) = encode_build (drop k ps)"
        "\<forall>(a, b) \<in> set chunks. length a = length b \<and> length a \<le> bound s"
      using less.hyps [of o' "drop k ps"] k(3) by auto
    have "drain (probe s) off = Some ((encode_probe (take k ps), encode_build (take k ps)) # chunks)"
      using k(1) Some ch(1) by (subst drain.simps) simp
    moreover have "encode_probe (take k ps) @ encode_probe (drop k ps) = encode_probe ps"
      "encode_build (take k ps) @ encode_build (drop k ps) = encode_build ps"
      by (simp_all flip: map_append)
    ultimately show ?thesis
      using ch k(2) by (intro exI [of _ "(encode_probe (take k ps), encode_build (take k ps)) # chunks"]) auto
  qed
qed

lemmas drain_all = drain_from [OF _ start]

end

end
