(* ===== verification/Join_Hash_Map.thy ===== *)
theory Join_Hash_Map
  imports Join_Chain "HOL-Library.AList"
begin

text \<open>
  The maps from hash values to build rows of \<open>physical-plan/src/joins/join_hash_map.rs\<close>.  A
  \<open>HashTable\<close> of pairs is an association list; \<open>JoinHashMapU32\<close> and \<open>JoinHashMapU64\<close> are the record for
  the two widths.  A failed index or \<open>unwrap\<close> is \<open>None\<close>.
\<close>

section \<open>Building\<close>

record 'i join_hash_map =
  jm_map :: "(u64 \<times> 'i) list"
  jm_next :: "'i list"
  jm_chained :: bool

definition with_capacity :: "nat \<Rightarrow> 'w::len word join_hash_map" where
  "with_capacity cap = \<lparr> jm_map = [], jm_next = replicate cap 0, jm_chained = False \<rparr>"

text \<open>\<open>T::try_from(..)\<close> of an index.\<close>

definition try_from_usize :: "nat \<Rightarrow> 'w::len word option" where
  "try_from_usize n = (if n < 2 ^ LENGTH('w) then Some (of_nat n) else None)"

fun update_from_iter ::
  "(u64 \<times> 'w::len word) list \<Rightarrow> 'w word list \<Rightarrow> (nat \<times> u64) list \<Rightarrow> nat \<Rightarrow> bool
   \<Rightarrow> ((u64 \<times> 'w word) list \<times> 'w word list \<times> bool) option" where
  "update_from_iter m nxt [] deleted_offset chained = Some (m, nxt, chained)"
| "update_from_iter m nxt ((row, hash_value) # iter) deleted_offset chained =
     (case map_of m hash_value of
        Some prev_index \<Rightarrow> do {
          index \<leftarrow> try_from_usize (row + 1);
          nxt' \<leftarrow> (if deleted_offset \<le> row then vec_set nxt (row - deleted_offset) prev_index else None);
          update_from_iter (AList.update hash_value index m) nxt' iter deleted_offset True }
      | None \<Rightarrow> do {
          index \<leftarrow> try_from_usize (row + 1);
          update_from_iter (AList.update hash_value index m) nxt iter deleted_offset chained })"

definition jm_update_from_iter ::
  "'w::len word join_hash_map \<Rightarrow> (nat \<times> u64) list \<Rightarrow> nat \<Rightarrow> 'w word join_hash_map option" where
  "jm_update_from_iter jm iter deleted_offset = do {
     (m, nxt, chained) \<leftarrow> update_from_iter (jm_map jm) (jm_next jm) iter deleted_offset False;
     Some (jm\<lparr>jm_map := m, jm_next := nxt, jm_chained := jm_chained jm \<or> chained\<rparr>) }"

section \<open>Lookup of all matches\<close>

text \<open>The inner loop: one chain, which a pruned row ends.\<close>

partial_function (option) matched_loop ::
  "'w::len word list \<Rightarrow> nat option \<Rightarrow> nat \<Rightarrow> 'w word \<Rightarrow> u32 list \<Rightarrow> u64 list \<Rightarrow> (u32 list \<times> u64 list) option" where
  "matched_loop nxt deleted_offset row_idx i input_indices match_indices = do {
     m \<leftarrow> (case deleted_offset of
             Some offset \<Rightarrow> do {
               offset \<leftarrow> try_from_usize offset;
               Some (if i < offset then None else Some (i - offset)) }
           | None \<Rightarrow> Some (Some i));
     case m of
       None \<Rightarrow> Some (input_indices, match_indices)
     | Some match_row_idx \<Rightarrow> do {
         next_chain \<leftarrow> vec_get nxt (unat match_row_idx);
         if next_chain = 0
         then Some (input_indices @ [of_nat row_idx], match_indices @ [ucast match_row_idx])
         else matched_loop nxt deleted_offset row_idx (next_chain - 1)
                (input_indices @ [of_nat row_idx]) (match_indices @ [ucast match_row_idx]) } }"

fun matched_rows ::
  "(u64 \<times> 'w::len word) list \<Rightarrow> 'w word list \<Rightarrow> (nat \<times> u64) list \<Rightarrow> nat option
   \<Rightarrow> u32 list \<Rightarrow> u64 list \<Rightarrow> (u32 list \<times> u64 list) option" where
  "matched_rows m nxt [] deleted_offset inp mat = Some (inp, mat)"
| "matched_rows m nxt ((row_idx, hash_value) # iter) deleted_offset inp mat =
     (case map_of m hash_value of
        Some index \<Rightarrow> do {
          (inp', mat') \<leftarrow> matched_loop nxt deleted_offset row_idx (index - 1) inp mat;
          matched_rows m nxt iter deleted_offset inp' mat' }
      | None \<Rightarrow> matched_rows m nxt iter deleted_offset inp mat)"

definition get_matched_indices ::
  "(u64 \<times> 'w::len word) list \<Rightarrow> 'w word list \<Rightarrow> (nat \<times> u64) list \<Rightarrow> nat option \<Rightarrow> (u32 list \<times> u64 list) option" where
  "get_matched_indices m nxt iter deleted_offset = matched_rows m nxt iter deleted_offset [] []"

section \<open>Lookup in chunks\<close>

text \<open>\<open>is_null\<close> of the buffer of valid keys.\<close>

definition key_is_null :: "bool list option \<Rightarrow> nat \<Rightarrow> bool option" where
  "key_is_null valid_keys row =
     (case valid_keys of None \<Rightarrow> Some False | Some valid \<Rightarrow> map_option Not (vec_get valid row))"

fun unique_loop ::
  "(u64 \<times> 'w::len word) list \<Rightarrow> bool list option \<Rightarrow> nat \<Rightarrow> u64 list \<Rightarrow> u32 list \<Rightarrow> u64 list
   \<Rightarrow> (u32 list \<times> u64 list) option" where
  "unique_loop m valid_keys row [] inp mat = Some (inp, mat)"
| "unique_loop m valid_keys row (hash # hashes) inp mat = do {
     null \<leftarrow> key_is_null valid_keys row;
     if null then unique_loop m valid_keys (row + 1) hashes inp mat
     else case map_of m hash of
            Some idx \<Rightarrow> unique_loop m valid_keys (row + 1) hashes (inp @ [of_nat row]) (mat @ [ucast (idx - 1)])
          | None \<Rightarrow> unique_loop m valid_keys (row + 1) hashes inp mat }"

fun chained_loop ::
  "(u64 \<times> 'w::len word) list \<Rightarrow> 'w word list \<Rightarrow> bool list option \<Rightarrow> nat \<Rightarrow> nat \<Rightarrow> u64 list \<Rightarrow> usize
   \<Rightarrow> u32 list \<Rightarrow> u64 list \<Rightarrow> (probe_offset option \<times> u32 list \<times> u64 list) option" where
  "chained_loop m nxt valid_keys hash_values_len row [] remaining inp mat = Some (None, inp, mat)"
| "chained_loop m nxt valid_keys hash_values_len row (hash # hashes) remaining inp mat = do {
     null \<leftarrow> key_is_null valid_keys row;
     if null then chained_loop m nxt valid_keys hash_values_len (row + 1) hashes remaining inp mat
     else case map_of m hash of
            Some idx \<Rightarrow>
              (case traverse_chain nxt row idx remaining inp mat (row = hash_values_len - 1) of
                 None \<Rightarrow> None
               | Some (Some next_offset, rem', inp', mat') \<Rightarrow> Some (Some next_offset, inp', mat')
               | Some (None, rem', inp', mat') \<Rightarrow>
                   chained_loop m nxt valid_keys hash_values_len (row + 1) hashes rem' inp' mat')
          | None \<Rightarrow> chained_loop m nxt valid_keys hash_values_len (row + 1) hashes remaining inp mat }"

definition get_matched_indices_with_limit_offset ::
  "(u64 \<times> 'w::len word) list \<Rightarrow> 'w word list \<Rightarrow> bool \<Rightarrow> u64 list \<Rightarrow> bool list option \<Rightarrow> usize \<Rightarrow> probe_offset
   \<Rightarrow> (probe_offset option \<times> u32 list \<times> u64 list) option" where
  "get_matched_indices_with_limit_offset m next_chain unique hash_values valid_keys limit offset =
     (if unique then
        (let start = (case offset of AtRow row \<Rightarrow> row | MidChain row _ \<Rightarrow> row);
             end_row = min (unat (of_nat start + limit)) (length hash_values)
         in if end_row < start then None
            else do {
              (inp, mat) \<leftarrow> unique_loop m valid_keys start (take (end_row - start) (drop start hash_values)) [] [];
              Some (if end_row = length hash_values then None else Some (AtRow end_row), inp, mat) })
      else
        (let rest = (\<lambda>to_skip remaining inp mat.
               if length hash_values < to_skip then None
               else chained_loop m next_chain valid_keys (length hash_values) to_skip
                      (drop to_skip hash_values) remaining inp mat)
         in case offset of
              AtRow idx \<Rightarrow> rest idx limit [] []
            | MidChain idx next_idx \<Rightarrow>
                (case traverse_chain next_chain idx (ucast next_idx) limit [] [] (idx = length hash_values - 1) of
                   None \<Rightarrow> None
                 | Some (Some next_offset, rem', inp', mat') \<Rightarrow> Some (Some next_offset, inp', mat')
                 | Some (None, rem', inp', mat') \<Rightarrow> rest (idx + 1) rem' inp' mat')))"

definition jm_get_matched_indices ::
  "'w::len word join_hash_map \<Rightarrow> (nat \<times> u64) list \<Rightarrow> nat option \<Rightarrow> (u32 list \<times> u64 list) option" where
  "jm_get_matched_indices jm iter deleted_offset = get_matched_indices (jm_map jm) (jm_next jm) iter deleted_offset"

definition jm_get_matched_indices_with_limit_offset ::
  "'w::len word join_hash_map \<Rightarrow> u64 list \<Rightarrow> bool list option \<Rightarrow> usize \<Rightarrow> probe_offset
   \<Rightarrow> (probe_offset option \<times> u32 list \<times> u64 list) option" where
  "jm_get_matched_indices_with_limit_offset jm hash_values valid_keys limit offset =
     get_matched_indices_with_limit_offset (jm_map jm) (jm_next jm) (\<not> jm_chained jm) hash_values valid_keys limit offset"

definition contain_hashes :: "(u64 \<times> 'w::len word) list \<Rightarrow> u64 list \<Rightarrow> bool list" where
  "contain_hashes m hash_values = map (\<lambda>hash. map_of m hash \<noteq> None) hash_values"

definition jm_is_empty :: "'w::len word join_hash_map \<Rightarrow> bool" where
  "jm_is_empty jm \<longleftrightarrow> jm_map jm = []"

definition jm_len :: "'w::len word join_hash_map \<Rightarrow> nat" where
  "jm_len jm = length (jm_map jm)"

section \<open>The rows of a hash value\<close>

text \<open>
  The entry of a hash value, zero when there is none; the rows inserted with it, the newest
  first; and the invariant: the entry of every hash value heads the chain of its rows that were
  not pruned.
\<close>

definition head_of :: "(u64 \<times> 'w::len word) list \<Rightarrow> u64 \<Rightarrow> 'w word" where
  "head_of m h = (case map_of m h of None \<Rightarrow> 0 | Some i \<Rightarrow> i)"

definition hash_rows :: "(nat \<times> u64) list \<Rightarrow> u64 \<Rightarrow> nat list" where
  "hash_rows ins h = rev (map fst (filter (\<lambda>(r, h'). h' = h) ins))"

definition live_rows :: "nat \<Rightarrow> (nat \<times> u64) list \<Rightarrow> u64 \<Rightarrow> nat list" where
  "live_rows d ins h = filter (\<lambda>r. d \<le> r) (hash_rows ins h)"

definition map_ok :: "(u64 \<times> 'w::len word) list \<Rightarrow> 'w word list \<Rightarrow> nat \<Rightarrow> (nat \<times> u64) list \<Rightarrow> bool" where
  "map_ok m nxt d ins \<longleftrightarrow>
     distinct (map fst m) \<and> distinct (map fst ins)
     \<and> (\<forall>h. chain nxt d (head_of m h) (live_rows d ins h))
     \<and> (\<forall>h. map_of m h \<noteq> Some 0)
     \<and> (\<forall>j < length nxt. d + j \<notin> fst ` set ins \<longrightarrow> nxt ! j = 0)"

lemma hash_rows_append: "hash_rows (ins @ [(r, h)]) k = (if k = h then r # hash_rows ins k else hash_rows ins k)"
  by (auto simp: hash_rows_def)

lemma live_rows_append:
  "live_rows d (ins @ [(r, h)]) k = (if k = h \<and> d \<le> r then r # live_rows d ins k else live_rows d ins k)"
  by (auto simp: live_rows_def hash_rows_append)

lemma set_hash_rows: "set (hash_rows ins h) = {r. (r, h) \<in> set ins}"
  by (force simp: hash_rows_def)

lemma set_live_rows: "set (live_rows d ins h) = {r. d \<le> r \<and> (r, h) \<in> set ins}"
  by (auto simp: live_rows_def set_hash_rows)

lemma head_of_update: "head_of (AList.update h i m) k = (if k = h then i else head_of m k)"
  by (simp add: head_of_def update_conv')

lemma head_of_Cons: "head_of ((h, i) # m) k = (if k = h then i else head_of m k)"
  by (simp add: head_of_def)

lemma try_from_usize_Some: "n < 2 ^ LENGTH('w) \<Longrightarrow> \<exists>i. try_from_usize n = Some (i :: 'w::len word) \<and> unat i = n"
  by (simp add: try_from_usize_def unsigned_of_nat take_bit_nat_eq_self)

text \<open>One row: what both branches of the insertion keep.\<close>

lemma map_ok_insert:
  fixes m :: "(u64 \<times> 'w::len word) list"
  assumes ok: "map_ok m nxt d ins" and row: "row \<notin> fst ` set ins" "d \<le> row" "row < d + length nxt"
    and i: "unat i = row + 1"
  shows "map_ok (AList.update h i m) (nxt[row - d := head_of m h]) d (ins @ [(row, h)])"
proof -
  have ch: "chain nxt d (head_of m k) (live_rows d ins k)" for k using ok by (simp add: map_ok_def)
  have notin: "d + (row - d) \<notin> set (live_rows d ins k)" for k
    using row by (force simp: set_live_rows)
  note up = chain_update [OF ch notin, where v = "head_of m h"]
  have "chain (nxt[row - d := head_of m h]) d (head_of (AList.update h i m) k) (live_rows d (ins @ [(row, h)]) k)" for k
    using up [of k] row i by (auto simp: head_of_update live_rows_append)
  moreover have "i \<noteq> 0" using i by auto
  ultimately show ?thesis
    using ok row by (auto simp: map_ok_def distinct_update update_conv' nth_list_update image_iff)
qed

lemma vacant_insert:
  assumes "map_ok m nxt d ins" and "map_of m h = None" and "row \<notin> fst ` set ins" and "d \<le> row" and "row < d + length nxt"
  shows "nxt[row - d := head_of m h] = nxt"
proof -
  have "nxt ! (row - d) = 0" using assms by (auto simp: map_ok_def)
  then show ?thesis using assms(2) by (metis head_of_def list_update_id option.case(1))
qed

lemma vacant_rows:
  assumes "map_ok m nxt 0 ins" and "map_of m h = None"
  shows "h \<notin> snd ` set ins"
proof -
  have "chain nxt 0 (head_of m h) (live_rows 0 ins h)" using assms(1) by (simp add: map_ok_def)
  then have "live_rows 0 ins h = []" using assms(2) by (simp add: head_of_def)
  then show ?thesis using set_live_rows [of 0 ins h] by force
qed

lemma update_from_iter_ok:
  fixes m :: "(u64 \<times> 'w::len word) list"
  assumes "d + length nxt < 2 ^ LENGTH('w)"
  shows "map_ok m nxt d ins \<Longrightarrow> distinct (map fst (ins @ iter)) \<Longrightarrow>
      \<forall>(r, h) \<in> set iter. d \<le> r \<and> r < d + length nxt \<Longrightarrow>
    \<exists>m' nxt' c'. update_from_iter m nxt iter d c = Some (m', nxt', c') \<and> map_ok m' nxt' d (ins @ iter)
      \<and> length nxt' = length nxt
      \<and> (\<not> c' \<longrightarrow> \<not> c \<and> (d = 0 \<longrightarrow> distinct (map snd ins) \<longrightarrow> distinct (map snd (ins @ iter))))"
  using assms
proof (induction iter arbitrary: m nxt ins c)
  case (Cons p iter)
  obtain row h where p: "p = (row, h)" by fastforce
  have row: "row \<notin> fst ` set ins" "d \<le> row" "row < d + length nxt" using Cons.prems p by auto
  obtain i :: "'w word" where i: "try_from_usize (row + 1) = Some i" "unat i = row + 1"
    using try_from_usize_Some [where 'w = 'w, of "row + 1"] row(3) Cons.prems(4) by auto
  let ?m = "AList.update h i m" and ?nxt = "nxt[row - d := head_of m h]"
  have ok: "map_ok ?m ?nxt d (ins @ [p])" using map_ok_insert [OF Cons.prems(1) row i(2)] p by simp
  have IH: "\<exists>m' nxt' c'. update_from_iter ?m ?nxt iter d c2 = Some (m', nxt', c') \<and> map_ok m' nxt' d ((ins @ [p]) @ iter)
      \<and> length nxt' = length ?nxt
      \<and> (\<not> c' \<longrightarrow> \<not> c2 \<and> (d = 0 \<longrightarrow> distinct (map snd (ins @ [p])) \<longrightarrow> distinct (map snd ((ins @ [p]) @ iter))))" for c2
    by (rule Cons.IH [OF ok]) (use Cons.prems(2-4) in auto)
  show ?case
  proof (cases "map_of m h")
    case None
    have "d = 0 \<Longrightarrow> distinct (map snd ins) \<Longrightarrow> distinct (map snd (ins @ [p]))"
      using vacant_rows [of m nxt ins h] Cons.prems(1) None p by auto
    moreover have "update_from_iter m nxt (p # iter) d c = update_from_iter ?m ?nxt iter d c"
      using None i(1) p vacant_insert [OF Cons.prems(1) None row] by simp
    ultimately show ?thesis using IH [of c] by auto
  next
    case (Some prev)
    then have "update_from_iter m nxt (p # iter) d c = update_from_iter ?m ?nxt iter d True"
      using i(1) p row by (simp add: vec_set_def head_of_def less_diff_conv2 add.commute)
    then show ?thesis using IH [of True] by auto
  qed
qed auto

section \<open>All matches\<close>

lemma matched_loop_spec:
  fixes i :: "'w::len word"
  assumes "chain nxt d i rs" and "i \<noteq> 0" and "LENGTH('w) \<le> 64" and "d < 2 ^ LENGTH('w)"
    and "off = Some d \<or> off = None \<and> d = 0"
  shows "matched_loop nxt off p (i - 1) inp mat =
    Some (inp @ replicate (length rs) (of_nat p), mat @ map (\<lambda>r. of_nat (r - d)) rs)"
  using assms(1,2)
proof (induction rs arbitrary: i inp mat)
  case Nil
  have u: "unat (i - 1) < unat i" using Nil(2) by (rule unat_minus_one_less)
  then have "off = Some d" using Nil assms(5) by auto
  moreover have "i - 1 < of_nat d"
    using u Nil(1) assms(4) by (simp add: word_less_nat_alt unsigned_of_nat take_bit_nat_eq_self)
  ultimately show ?case using assms(4) by (subst matched_loop.simps) (simp add: try_from_usize_def)
next
  case (Cons r rs)
  have r: "unat i = r + 1" "d \<le> r" "r - d < length nxt" and tail: "chain nxt d (nxt ! (r - d)) rs"
    using Cons.prems(1) by auto
  have u: "unat (i - 1) = r" using chain_row r(1) .
  let ?j = "if off = None then i - 1 else i - 1 - of_nat d"
  have j: "unat ?j = r - d" 
    using u r(2) assms(4,5) by (auto simp: unat_sub word_le_nat_alt unsigned_of_nat take_bit_nat_eq_self)
  then have c: "(ucast ?j :: u64) = of_nat (r - d)" by (metis of_nat_unat)
  have step: "matched_loop nxt off p (i - 1) inp mat =
      (if nxt ! (r - d) = 0 then Some (inp @ [of_nat p], mat @ [of_nat (r - d)])
       else matched_loop nxt off p (nxt ! (r - d) - 1) (inp @ [of_nat p]) (mat @ [of_nat (r - d)]))"
    using assms(4,5) u r j c
    by (subst matched_loop.simps)
      (auto simp: try_from_usize_def word_less_nat_alt unsigned_of_nat take_bit_nat_eq_self)
  show ?case
  proof (cases "nxt ! (r - d) = 0")
    case True
    then show ?thesis using tail step by simp
  next
    case False
    then show ?thesis using Cons.IH [OF tail False] step by simp
  qed
qed

definition all_matches :: "nat \<Rightarrow> (nat \<times> u64) list \<Rightarrow> (nat \<times> u64) list \<Rightarrow> (nat \<times> nat) list" where
  "all_matches d ins iter = concat (map (\<lambda>(p, h). map (Pair p) (live_rows d ins h)) iter)"

lemma matched_rows_spec:
  fixes m :: "(u64 \<times> 'w::len word) list"
  assumes ok: "map_ok m nxt d ins" and w: "LENGTH('w) \<le> 64" and d: "d < 2 ^ LENGTH('w)"
    and off: "off = Some d \<or> off = None \<and> d = 0"
  shows "matched_rows m nxt iter off inp mat =
    Some (inp @ encode_probe (all_matches d ins iter), mat @ map (\<lambda>(_, r). of_nat (r - d)) (all_matches d ins iter))"
proof (induction iter arbitrary: inp mat)
  case (Cons p iter)
  obtain row h where p: "p = (row, h)" by fastforce
  have ch: "chain nxt d (head_of m h) (live_rows d ins h)" using ok by (simp add: map_ok_def)
  show ?case
  proof (cases "map_of m h")
    case None
    then have "live_rows d ins h = []" using ch by (simp add: head_of_def)
    then show ?thesis using Cons.IH None p by (simp add: all_matches_def)
  next
    case (Some i)
    then have "i \<noteq> 0" using ok by (auto simp: map_ok_def)
    then have "matched_loop nxt off row (i - 1) inp mat =
        Some (inp @ replicate (length (live_rows d ins h)) (of_nat row), mat @ map (\<lambda>r. of_nat (r - d)) (live_rows d ins h))"
      using matched_loop_spec [OF _ _ w d off] ch Some by (simp add: head_of_def)
    then show ?thesis
      using Cons.IH Some p by (simp add: all_matches_def comp_def map_replicate_const)
  qed
qed (simp add: all_matches_def)

section \<open>Chunks\<close>

text \<open>The head and the rows of each probe row.\<close>

fun probe_entries ::
  "(u64 \<Rightarrow> 'b) \<Rightarrow> 'b \<Rightarrow> bool list option \<Rightarrow> nat \<Rightarrow> u64 list \<Rightarrow> 'b list" where
  "probe_entries f z valid_keys row [] = []"
| "probe_entries f z valid_keys row (hash # hashes) =
     (if key_is_null valid_keys row = Some True then z else f hash) # probe_entries f z valid_keys (row + 1) hashes"

abbreviation heads :: "(u64 \<times> 'w::len word) list \<Rightarrow> bool list option \<Rightarrow> nat \<Rightarrow> u64 list \<Rightarrow> 'w word option list" where
  "heads m \<equiv> probe_entries (map_of m) None"

abbreviation match_lists :: "(nat \<times> u64) list \<Rightarrow> bool list option \<Rightarrow> nat \<Rightarrow> u64 list \<Rightarrow> nat list list" where
  "match_lists ins \<equiv> probe_entries (hash_rows ins) []"

lemma length_probe_entries [simp]: "length (probe_entries f z v row hs) = length hs"
  by (induction f z v row hs rule: probe_entries.induct) simp_all

lemma drop_probe_entries: "drop k (probe_entries f z v row hs) = probe_entries f z v (row + k) (drop k hs)"
proof (induction k arbitrary: row hs)
  case (Suc k)
  then show ?case by (cases hs) simp_all
qed simp

lemma take_probe_entries: "take k (probe_entries f z v row hs) = probe_entries f z v row (take k hs)"
proof (induction k arbitrary: row hs)
  case (Suc k)
  then show ?case by (cases hs) simp_all
qed simp

definition covers :: "bool list option \<Rightarrow> nat \<Rightarrow> bool" where
  "covers valid_keys n \<longleftrightarrow> (case valid_keys of None \<Rightarrow> True | Some v \<Rightarrow> n \<le> length v)"

lemma key_is_null_Some: "covers v n \<Longrightarrow> row < n \<Longrightarrow> \<exists>b. key_is_null v row = Some b"
  by (auto simp: covers_def key_is_null_def split: option.splits)

lemma live_rows_0 [simp]: "live_rows 0 ins h = hash_rows ins h"
  by (simp add: live_rows_def)

lemma heads_ok_map:
  assumes "map_ok m nxt 0 ins"
  shows "heads_ok nxt (heads m v row hs) (match_lists ins v row hs)"
proof (induction hs arbitrary: row)
  case (Cons h hs)
  have "chain nxt 0 (head_of m h) (hash_rows ins h)" "map_of m h \<noteq> Some 0" using assms by (simp_all add: map_ok_def)
  then show ?case using Cons.IH by (auto simp: heads_ok_def head_of_def split: option.splits)
qed (simp add: heads_ok_def)

lemma chained_loop_eq:
  "covers v (row + length hs) \<Longrightarrow>
   chained_loop m nxt v n row hs remaining inp mat = probe_heads nxt n (heads m v row hs) row remaining inp mat"
proof (induction hs arbitrary: row remaining inp mat)
  case (Cons h hs)
  obtain b where b: "key_is_null v row = Some b" using key_is_null_Some [OF Cons.prems, of row] by auto
  have IH: "chained_loop m nxt v n (row + 1) hs r a c = probe_heads nxt n (heads m v (row + 1) hs) (row + 1) r a c" for r a c
    using Cons.IH [of "row + 1"] Cons.prems by simp
  show ?case
    using b IH by (cases b; cases "map_of m h") (simp_all split: option.split)
qed simp

lemma hash_rows_unique: "distinct (map snd ins) \<Longrightarrow> length (hash_rows ins h) \<le> 1"
proof (induction ins)
  case (Cons p ins)
  obtain r k where p: "p = (r, k)" by fastforce
  show ?case
  proof (cases "k = h")
    case True
    then have "filter (\<lambda>(r, h'). h' = h) ins = []" using Cons.prems p by (force simp: filter_empty_conv)
    then show ?thesis using p True by (simp add: hash_rows_def)
  next
    case False
    then show ?thesis using Cons p by (simp add: hash_rows_def)
  qed
qed (simp add: hash_rows_def)

lemma pairs_length_le: "\<forall>rs \<in> set ms. length rs \<le> 1 \<Longrightarrow> length (pairs row ms) \<le> length ms"
  by (induction row ms rule: pairs.induct) auto

lemma pairs_append: "pairs row (xs @ ys) = pairs row xs @ pairs (row + length xs) ys"
  by (induction row xs rule: pairs.induct) simp_all

lemma set_probe_entries: "set (probe_entries f z v row hs) \<subseteq> insert z (range f)"
  by (induction hs arbitrary: row) auto

lemma unique_loop_spec:
  fixes m :: "(u64 \<times> 'w::len word) list"
  assumes ok: "map_ok m nxt 0 ins" and uniq: "distinct (map snd ins)" and w: "LENGTH('w) \<le> 64"
  shows "covers v (row + length hs) \<Longrightarrow>
    unique_loop m v row hs inp mat =
      Some (inp @ encode_probe (pairs row (match_lists ins v row hs)), mat @ encode_build (pairs row (match_lists ins v row hs)))"
proof (induction hs arbitrary: row inp mat)
  case (Cons h hs)
  obtain b where b: "key_is_null v row = Some b" using key_is_null_Some [OF Cons.prems, of row] by auto
  note IH = Cons.IH [of "row + 1"]
  have ch: "chain nxt 0 (head_of m h) (hash_rows ins h)" using ok by (simp add: map_ok_def)
  show ?case
  proof (cases "b \<or> map_of m h = None")
    case True
    then have "b \<or> hash_rows ins h = []" using ch by (auto simp: head_of_def)
    then show ?thesis using b IH Cons.prems True by (cases b) auto
  next
    case False
    then obtain i where i: "map_of m h = Some i" "\<not> b" by blast
    then have "i \<noteq> 0" using ok by (auto simp: map_ok_def)
    then obtain r where r: "hash_rows ins h = [r]"
      using ch i hash_rows_unique [OF uniq, of h] by (cases "hash_rows ins h") (auto simp: head_of_def unat_eq_0)
    then have "unat i = r + 1" using ch i by (simp add: head_of_def)
    then have "(ucast (i - 1) :: u64) = of_nat r" using ucast_row w by blast
    then show ?thesis using b i r IH Cons.prems by simp
  qed
qed simp

section \<open>The map implements chunked lookup\<close>

definition jm_ok :: "'w::len word join_hash_map \<Rightarrow> (nat \<times> u64) list \<Rightarrow> bool" where
  "jm_ok jm ins \<longleftrightarrow> map_ok (jm_map jm) (jm_next jm) 0 ins \<and> (\<not> jm_chained jm \<longrightarrow> distinct (map snd ins))"

lemma with_capacity_ok: "jm_ok (with_capacity cap) []"
  by (simp add: jm_ok_def with_capacity_def map_ok_def head_of_def hash_rows_def)

lemma jm_update_ok:
  fixes jm :: "'w::len word join_hash_map"
  assumes "jm_ok jm ins" and "distinct (map fst (ins @ iter))" and "\<forall>(r, h) \<in> set iter. r < length (jm_next jm)"
    and "length (jm_next jm) < 2 ^ LENGTH('w)"
  shows "\<exists>jm'. jm_update_from_iter jm iter 0 = Some jm' \<and> jm_ok jm' (ins @ iter) \<and> length (jm_next jm') = length (jm_next jm)"
proof -
  obtain m nxt c where "update_from_iter (jm_map jm) (jm_next jm) iter 0 False = Some (m, nxt, c)"
      "map_ok m nxt 0 (ins @ iter)" "length nxt = length (jm_next jm)"
      "\<not> c \<longrightarrow> distinct (map snd ins) \<longrightarrow> distinct (map snd (ins @ iter))"
    using update_from_iter_ok [of 0 "jm_next jm" "jm_map jm" ins iter False] assms by (auto simp: jm_ok_def)
  then show ?thesis using assms(1) by (auto simp: jm_update_from_iter_def jm_ok_def)
qed

type_synonym 'w hash_lookup = "'w word join_hash_map \<times> u64 list \<times> bool list option \<times> usize"

definition hash_probe :: "'w::len hash_lookup \<Rightarrow> probe_offset \<Rightarrow> (probe_offset option \<times> u32 list \<times> u64 list) option" where
  "hash_probe s off = (case s of (jm, hashes, valid_keys, limit) \<Rightarrow>
     jm_get_matched_indices_with_limit_offset jm hashes valid_keys limit off)"

definition hash_bound :: "'w::len hash_lookup \<Rightarrow> nat" where
  "hash_bound s = (case s of (jm, hashes, valid_keys, limit) \<Rightarrow> unat limit)"

definition hash_valid :: "'w::len hash_lookup \<Rightarrow> nat list list \<Rightarrow> bool" where
  "hash_valid s ms \<longleftrightarrow> (case s of (jm, hashes, valid_keys, limit) \<Rightarrow>
     LENGTH('w) \<le> 64 \<and> 0 < limit \<and> length hashes + unat limit < 2 ^ 64 \<and> covers valid_keys (length hashes)
     \<and> (\<exists>ins. jm_ok jm ins \<and> ms = match_lists ins valid_keys 0 hashes))"

definition hash_left :: "'w::len hash_lookup \<Rightarrow> nat list list \<Rightarrow> probe_offset \<Rightarrow> (nat \<times> nat) list \<Rightarrow> bool" where
  "hash_left s ms off ps \<longleftrightarrow> (case s of (jm, hashes, valid_keys, limit) \<Rightarrow>
     if jm_chained jm then resumes (jm_next jm) ms off ps
     else (\<exists>i \<le> length ms. off = AtRow i \<and> ps = pairs i (drop i ms)))"

lemma chained_eq_probe_from:
  assumes "covers v (length hs)" and "off_row off \<le> length hs" and "case off of MidChain i _ \<Rightarrow> i < length hs | _ \<Rightarrow> True"
  shows "get_matched_indices_with_limit_offset m nxt False hs v limit off = probe_from nxt (heads m v 0 hs) limit off"
proof (cases off)
  case (AtRow i)
  then show ?thesis
    using assms chained_loop_eq [of v i "drop i hs"]
    by (simp add: get_matched_indices_with_limit_offset_def probe_from_def drop_probe_entries)
next
  case (MidChain i w)
  then have i: "i < length hs" using assms(3) by simp
  have cov: "covers v (i + 1 + length (drop (i + 1) hs))"
    using assms(1) i by (metis Suc_eq_plus1 Suc_leI le_add_diff_inverse length_drop)
  have "chained_loop m nxt v (length hs) (i + 1) (drop (i + 1) hs) r a b =
      probe_heads nxt (length hs) (drop (i + 1) (heads m v 0 hs)) (i + 1) r a b" for r a b
    using chained_loop_eq [OF cov] by (simp add: drop_probe_entries)
  then show ?thesis
    using MidChain i by (simp add: get_matched_indices_with_limit_offset_def probe_from_def split: option.split)
qed

lemma probe_step_chained:
  fixes jm :: "'w::len word join_hash_map"
  assumes ch: "jm_chained jm" and val: "hash_valid (jm, hs, v, limit) ms" and lft: "hash_left (jm, hs, v, limit) ms off ps"
  shows "\<exists>off'. hash_probe (jm, hs, v, limit) off = Some (off', encode_probe (take (unat limit) ps), encode_build (take (unat limit) ps))
    \<and> probe_outcome (jm_next jm) ms (off_row off) (unat limit) ps off'"
proof -
  obtain ins where ok: "jm_ok jm ins" and ms: "ms = match_lists ins v 0 hs" using val by (auto simp: hash_valid_def)
  have r: "resumes (jm_next jm) ms off ps" using lft ch by (simp add: hash_left_def)
  then have i: "off_row off \<le> length hs" "case off of MidChain i _ \<Rightarrow> i < length hs | _ \<Rightarrow> True"
    by (cases off; auto simp: ms)+
  have "heads_ok (jm_next jm) (heads (jm_map jm) v 0 hs) ms" using ok heads_ok_map unfolding ms jm_ok_def by blast
  then show ?thesis
    using probe_from_spec [OF _ _ r, of "heads (jm_map jm) v 0 hs" limit] val ch
      chained_eq_probe_from [OF _ i, of v "jm_map jm" "jm_next jm" limit]
    by (simp add: hash_probe_def jm_get_matched_indices_with_limit_offset_def hash_valid_def)
qed

lemma probe_step_unique:
  fixes jm :: "'w::len word join_hash_map"
  assumes ch: "\<not> jm_chained jm" and val: "hash_valid (jm, hs, v, limit) ms" and i: "i \<le> length ms"
  defines "e \<equiv> min (i + unat limit) (length ms)"
  shows "hash_probe (jm, hs, v, limit) (AtRow i) =
      Some (if e = length ms then None else Some (AtRow e),
            encode_probe (pairs i (take (e - i) (drop i ms))), encode_build (pairs i (take (e - i) (drop i ms))))
    \<and> length (pairs i (take (e - i) (drop i ms))) \<le> unat limit \<and> i \<le> e"
proof -
  obtain ins where ok: "jm_ok jm ins" and ms: "ms = match_lists ins v 0 hs" using val by (auto simp: hash_valid_def)
  have V: "LENGTH('w) \<le> 64" "length hs + unat limit < 2 ^ 64" "covers v (length hs)" using val by (auto simp: hash_valid_def)
  have M: "map_ok (jm_map jm) (jm_next jm) 0 ins" and U: "distinct (map snd ins)" using ok ch by (auto simp: jm_ok_def)
  have len: "length ms = length hs" by (simp add: ms)
  have "unat (of_nat i + limit) = i + unat limit"
    using i V(2) len by (subst unat_add_no_overflow) (simp_all add: unat_of_nat_u64)
  then have e: "min (unat (of_nat i + limit)) (length hs) = e" using len by (simp add: e_def)
  have ie: "i \<le> e" using i len by (simp add: e_def)
  let ?hs = "take (e - i) (drop i hs)"
  have cov: "covers v (i + length ?hs)"
    using V(3) i len by (auto simp: covers_def e_def split: option.splits)
  have ps: "match_lists ins v i ?hs = take (e - i) (drop i ms)"
    by (simp add: ms drop_probe_entries take_probe_entries)
  have "length (pairs i (take (e - i) (drop i ms))) \<le> length (take (e - i) (drop i ms))"
    using hash_rows_unique [OF U] set_probe_entries [of "hash_rows ins" "[]" v 0 hs]
    by (intro pairs_length_le) (auto simp: ms dest!: in_set_takeD in_set_dropD)
  then have "length (pairs i (take (e - i) (drop i ms))) \<le> unat limit" using i by (auto simp: e_def)
  then show ?thesis
    using unique_loop_spec [OF M U V(1) cov, of "[]" "[]"] ch e ie len ps
    by (simp add: hash_probe_def jm_get_matched_indices_with_limit_offset_def
        get_matched_indices_with_limit_offset_def Let_def)
qed

interpretation hash_join: chunked_probe hash_probe hash_bound hash_valid hash_left
proof
  fix s :: "'w::len hash_lookup" and ms
  assume "hash_valid s ms"
  show "hash_left s ms (AtRow 0) (pairs 0 ms)" by (simp add: hash_left_def split: prod.split)
next
  fix s :: "'w::len hash_lookup" and ms off ps
  assume val: "hash_valid s ms" and lft: "hash_left s ms off ps"
  obtain jm hs v limit where s: "s = (jm, hs, v, limit)" by (cases s) auto
  have pos: "0 < unat limit" using val by (auto simp: s hash_valid_def unat_gt_0)
  show "\<exists>off' k. hash_probe s off = Some (off', encode_probe (take k ps), encode_build (take k ps)) \<and> k \<le> hash_bound s
      \<and> (case off' of
           None \<Rightarrow> length ps \<le> k
         | Some o' \<Rightarrow> hash_left s ms o' (drop k ps)
             \<and> length ms - off_row o' + length (drop k ps) < length ms - off_row off + length ps)"
  proof (cases "jm_chained jm")
    case True
    obtain off' where p: "hash_probe s off = Some (off', encode_probe (take (unat limit) ps), encode_build (take (unat limit) ps))"
        "probe_outcome (jm_next jm) ms (off_row off) (unat limit) ps off'"
      using probe_step_chained [OF True] val lft unfolding s by blast
    have "length ms - off_row o' + (length ps - unat limit) < length ms - off_row off + length ps"
      if "after_row (off_row off) o'" "unat limit \<le> length ps" for o'
      using after_row_le [OF that(1)] that(2) pos by linarith
    then show ?thesis
      using p True
      by (intro exI [of _ off'] exI [of _ "unat limit"])
        (auto simp: s hash_bound_def hash_left_def probe_outcome_def split: option.splits)
  next
    case False
    then obtain i where i: "i \<le> length ms" "off = AtRow i" and ps: "ps = pairs i (drop i ms)"
      using lft by (auto simp: s hash_left_def)
    define e where "e = min (i + unat limit) (length ms)"
    let ?now = "pairs i (take (e - i) (drop i ms))"
    note U = probe_step_unique [OF False val [unfolded s] i(1), folded e_def s]
    have "length (take (e - i) (drop i ms)) = e - i" by (auto simp: e_def)
    then have "pairs i (take (e - i) (drop i ms) @ drop (e - i) (drop i ms)) = ?now @ pairs e (drop e ms)"
      using U unfolding pairs_append by simp
    then have split: "ps = ?now @ pairs e (drop e ms)" by (simp only: ps append_take_drop_id)
    have "e = length ms \<Longrightarrow> pairs e (drop e ms) = []" by simp
    then show ?thesis
      using U i False pos split
      by (intro exI [of _ "if e = length ms then None else Some (AtRow e)"] exI [of _ "length ?now"])
        (auto simp: s hash_bound_def hash_left_def e_def)
  qed
qed

section \<open>Properties\<close>

text \<open>The build side arrives in batches.\<close>

fun jm_updates :: "'w::len word join_hash_map \<Rightarrow> (nat \<times> u64) list list \<Rightarrow> 'w word join_hash_map option" where
  "jm_updates jm [] = Some jm"
| "jm_updates jm (iter # iters) = do { jm' \<leftarrow> jm_update_from_iter jm iter 0; jm_updates jm' iters }"

lemma jm_updates_ok:
  fixes jm :: "'w::len word join_hash_map"
  assumes "jm_ok jm ins" and "distinct (map fst (ins @ concat iters))"
    and "\<forall>(r, h) \<in> set (concat iters). r < length (jm_next jm)" and "length (jm_next jm) < 2 ^ LENGTH('w)"
  shows "\<exists>jm'. jm_updates jm iters = Some jm' \<and> jm_ok jm' (ins @ concat iters)"
  using assms
proof (induction iters arbitrary: jm ins)
  case (Cons iter iters)
  have d: "distinct (map fst (ins @ iter))" using Cons.prems(2) by auto
  have b: "\<forall>(r, h) \<in> set iter. r < length (jm_next jm)" using Cons.prems(3) by auto
  obtain jm1 where jm1: "jm_update_from_iter jm iter 0 = Some jm1" "jm_ok jm1 (ins @ iter)"
      "length (jm_next jm1) = length (jm_next jm)"
    using jm_update_ok [OF Cons.prems(1) d b Cons.prems(4)] by blast
  obtain jm' where "jm_updates jm1 iters = Some jm'" "jm_ok jm' ((ins @ iter) @ concat iters)"
    using Cons.IH [OF jm1(2)] Cons.prems(2-4) jm1(3) by auto
  then show ?case using jm1(1) by simp
qed simp

lemmas jm_build_ok = jm_updates_ok [OF with_capacity_ok, simplified]

text \<open>
  C15.  The join hash map finds every row.  After a map is built from batches of distinct rows
  within its capacity, which never panics, a lookup returns for each probe row exactly the build rows
  inserted with its hash value, the newest first, and the membership test is exact.
\<close>

theorem join_map_finds_every_row:
  fixes jm :: "'w::len word join_hash_map"
  assumes "LENGTH('w) \<le> 64" and "cap < 2 ^ LENGTH('w)"
    and "distinct (map fst (concat iters))" and "\<forall>(r, h) \<in> set (concat iters). r < cap"
  shows "\<exists>jm :: 'w word join_hash_map. jm_updates (with_capacity cap) iters = Some jm
    \<and> (\<forall>probe. jm_get_matched_indices jm probe None =
         Some (encode_probe (all_matches 0 (concat iters) probe), encode_build (all_matches 0 (concat iters) probe)))
    \<and> (\<forall>hashes. contain_hashes (jm_map jm) hashes = map (\<lambda>h. h \<in> snd ` set (concat iters)) hashes)"
proof -
  obtain jm :: "'w word join_hash_map" where jm: "jm_updates (with_capacity cap) iters = Some jm" "jm_ok jm (concat iters)"
    using jm_build_ok [where 'w = 'w, of iters cap] assms(2-4) by (auto simp: with_capacity_def)
  have ok: "map_ok (jm_map jm) (jm_next jm) 0 (concat iters)" using jm(2) by (simp add: jm_ok_def)
  have "map_of (jm_map jm) h \<noteq> None" if "h \<in> snd ` set (concat iters)" for h
    using vacant_rows [OF ok] that by blast
  moreover have "h \<in> snd ` set (concat iters)" if "map_of (jm_map jm) h = Some i" for h i
  proof -
    have "i \<noteq> 0" "chain (jm_next jm) 0 i (hash_rows (concat iters) h)"
      using ok that by (auto simp: map_ok_def head_of_def dest: spec [of _ h])
    then obtain r where "r \<in> set (hash_rows (concat iters) h)"
      by (cases "hash_rows (concat iters) h") (auto simp: unat_eq_0)
    then show ?thesis unfolding set_hash_rows by force
  qed
  ultimately have "contain_hashes (jm_map jm) hashes = map (\<lambda>h. h \<in> snd ` set (concat iters)) hashes" for hashes
    unfolding contain_hashes_def by (metis not_None_eq)
  then show ?thesis
    using jm(1) matched_rows_spec [OF ok assms(1) _ , of None]
    by (auto simp: jm_get_matched_indices_def get_matched_indices_def)
qed

text \<open>
  C14.  Chunked lookup is complete.  Starting at the first probe row and following the returned
  offsets, the chunked lookup ends after finitely many calls, none of which panics; no chunk has
  more than \<open>limit\<close> matches, and together they are exactly the matches of the probe rows with a valid
  key, in order and without repetition, whether or not the map has chains.
\<close>

theorem join_map_chunks_complete:
  fixes jm :: "'w::len word join_hash_map"
  assumes "LENGTH('w) \<le> 64" and "cap < 2 ^ LENGTH('w)"
    and "distinct (map fst (concat iters))" and "\<forall>(r, h) \<in> set (concat iters). r < cap"
    and "jm_updates (with_capacity cap) iters = Some jm"
    and "0 < limit" and "length hashes + unat limit < 2 ^ 64" and "covers valid_keys (length hashes)"
  shows "\<exists>chunks. drain (jm_get_matched_indices_with_limit_offset jm hashes valid_keys limit) (AtRow 0) = Some chunks
    \<and> concat (map fst chunks) = encode_probe (pairs 0 (match_lists (concat iters) valid_keys 0 hashes))
    \<and> concat (map snd chunks) = encode_build (pairs 0 (match_lists (concat iters) valid_keys 0 hashes))
    \<and> (\<forall>(a, b) \<in> set chunks. length a = length b \<and> length a \<le> unat limit)"
proof -
  have "jm_ok jm (concat iters)"
    using jm_build_ok [where 'w = 'w, of iters cap] assms(2-5) by (auto simp: with_capacity_def)
  then have "hash_valid (jm, hashes, valid_keys, limit) (match_lists (concat iters) valid_keys 0 hashes)"
    using assms by (auto simp: hash_valid_def)
  moreover have "hash_probe (jm, hashes, valid_keys, limit) = jm_get_matched_indices_with_limit_offset jm hashes valid_keys limit"
    by (simp add: hash_probe_def fun_eq_iff)
  ultimately show ?thesis
    using hash_join.drain_all [of "(jm, hashes, valid_keys, limit)"] by (simp add: hash_bound_def)
qed

section \<open>Witnesses\<close>

definition demo_batches :: "(nat \<times> u64) list list" where
  "demo_batches = [[(0, 10), (1, 20)], [(2, 10)]]"

lemma demo_batches_ok:
  "distinct (map fst (concat demo_batches))" "\<forall>(r, h) \<in> set (concat demo_batches). r < 3"
  by (simp_all add: demo_batches_def)

theorem join_map_finds_every_row_witness:
  "\<exists>jm :: 32 word join_hash_map. jm_updates (with_capacity 3) demo_batches = Some jm
    \<and> jm_get_matched_indices jm [(0, 20), (1, 10)] None = Some ([0, 1, 1], [1, 2, 0])
    \<and> contain_hashes (jm_map jm) [10, 30] = [True, False]"
proof -
  have w: "LENGTH(32) \<le> 64" "(3 :: nat) < 2 ^ LENGTH(32)" by simp_all
  obtain jm :: "32 word join_hash_map" where jm: "jm_updates (with_capacity 3) demo_batches = Some jm"
      "\<forall>probe. jm_get_matched_indices jm probe None =
         Some (encode_probe (all_matches 0 (concat demo_batches) probe), encode_build (all_matches 0 (concat demo_batches) probe))"
      "\<forall>hashes. contain_hashes (jm_map jm) hashes = map (\<lambda>h. h \<in> snd ` set (concat demo_batches)) hashes"
    using join_map_finds_every_row [OF w demo_batches_ok] by blast
  have "all_matches 0 (concat demo_batches) [(0, 20), (1, 10)] = [(0, 1), (1, 2), (1, 0)]"
    by (simp add: all_matches_def demo_batches_def hash_rows_def)
  moreover have "map (\<lambda>h. h \<in> snd ` set (concat demo_batches)) [10, 30] = [True, False]"
    by (simp add: demo_batches_def)
  ultimately show ?thesis using jm by (intro exI [of _ jm]) simp
qed

definition demo_map :: "32 word join_hash_map" where
  "demo_map = the (jm_updates (with_capacity 3) demo_batches)"

theorem join_map_chunks_complete_witness:
  "\<exists>chunks. drain (jm_get_matched_indices_with_limit_offset demo_map [10, 30, 20, 10] (Some [True, True, False, True]) 3) (AtRow 0)
      = Some chunks \<and> concat (map fst chunks) = [0, 0, 3, 3] \<and> concat (map snd chunks) = [2, 0, 2, 0]"
proof -
  have w: "LENGTH(32) \<le> 64" "(3 :: nat) < 2 ^ LENGTH(32)" by simp_all
  have jm: "jm_updates (with_capacity 3) demo_batches = Some demo_map"
    using jm_build_ok [where 'w = 32, of demo_batches 3] demo_batches_ok by (auto simp: with_capacity_def demo_map_def)
  have "match_lists (concat demo_batches) (Some [True, True, False, True]) 0 [10, 30, 20, 10] = [[2, 0], [], [], [2, 0]]"
    by (simp add: demo_batches_def hash_rows_def key_is_null_def vec_get_def)
  then show ?thesis
    using join_map_chunks_complete [OF w demo_batches_ok jm, of 3 "[10, 30, 20, 10]" "Some [True, True, False, True]"]
    by (auto simp: covers_def)
qed

end
