(* ===== verification/Join_Keys.thy ===== *)
theory Join_Keys
  imports Functional_Dependencies Join_Chain
begin

text \<open>
  Join keys (\<open>physical-plan/src/joins/utils.rs\<close>): which rows have a key that can match, and the
  comparison of candidate pairs.  A record batch is the list of its rows, the key columns of a
  batch are the list of its keys, one nullable value per key column.  Evaluation of the key
  expressions, hashing and arrow's comparators are parameters; a failed index or \<open>unwrap\<close> is the
  error \<open>Join_Panic\<close>.
\<close>

section \<open>Results\<close>

datatype 'e join_error = Join_Failed 'e | Join_Internal string | Join_Panic

definition res_bind :: "'e + 'a \<Rightarrow> ('a \<Rightarrow> 'e + 'b) \<Rightarrow> 'e + 'b" where
  "res_bind r f = (case r of Inl e \<Rightarrow> Inl e | Inr x \<Rightarrow> f x)"

lemma res_bind_simps [simp]: "res_bind (Inl e) f = Inl e" "res_bind (Inr x) f = f x"
  by (simp_all add: res_bind_def)

lemma res_bind_eq_Inr: "res_bind r f = Inr y \<longleftrightarrow> (\<exists>x. r = Inr x \<and> f x = Inr y)"
  by (cases r) auto

definition or_panic :: "'a option \<Rightarrow> 'e join_error + 'a" where
  "or_panic r = (case r of None \<Rightarrow> Inl Join_Panic | Some x \<Rightarrow> Inr x)"

definition or_error :: "'e + 'a \<Rightarrow> 'e join_error + 'a" where
  "or_error r = (case r of Inl e \<Rightarrow> Inl (Join_Failed e) | Inr x \<Rightarrow> Inr x)"

definition unless_error :: "'e option \<Rightarrow> 'a \<Rightarrow> 'e join_error + 'a" where
  "unless_error r x = (case r of None \<Rightarrow> Inr x | Some e \<Rightarrow> Inl (Join_Failed e))"

lemma or_panic_simps [simp]: "or_panic None = Inl Join_Panic" "or_panic (Some x) = Inr x"
  by (simp_all add: or_panic_def)

lemma or_error_simps [simp]: "or_error (Inl e) = Inl (Join_Failed e)" "or_error (Inr x) = Inr x"
  by (simp_all add: or_error_def)

lemma unless_error_simps [simp]: "unless_error None x = Inr x" "unless_error (Some e) x = Inl (Join_Failed e)"
  by (simp_all add: unless_error_def)

text \<open>
  A result is \<^emph>\<open>sound\<close> if it is an error that an operation returned, never a panic or an internal
  error, or a value with the property.
\<close>

definition sound :: "('a \<Rightarrow> bool) \<Rightarrow> 'e join_error + 'a \<Rightarrow> bool" where
  "sound Q r \<longleftrightarrow> (case r of Inl e \<Rightarrow> \<exists>x. e = Join_Failed x | Inr x \<Rightarrow> Q x)"

lemma sound_simps [simp]: "sound Q (Inl (Join_Failed e))" "sound Q (Inr x) \<longleftrightarrow> Q x" "\<not> sound Q (Inl Join_Panic)"
  "\<not> sound Q (Inl (Join_Internal m))"
  by (simp_all add: sound_def)

lemma sound_bind: "sound Q r \<Longrightarrow> (\<And>x. r = Inr x \<Longrightarrow> Q x \<Longrightarrow> sound Q' (f x)) \<Longrightarrow> sound Q' (res_bind r f)"
  by (auto simp: sound_def split: sum.splits)

lemma sound_or_error: "(\<And>x. r = Inr x \<Longrightarrow> Q x) \<Longrightarrow> sound Q (or_error r)"
  by (cases r) auto

lemma sound_unless_error: "Q x \<Longrightarrow> sound Q (unless_error r x)"
  by (cases r) auto

lemma sound_mono: "sound Q r \<Longrightarrow> (\<And>x. r = Inr x \<Longrightarrow> Q x \<Longrightarrow> Q' x) \<Longrightarrow> sound Q' r"
  by (auto simp: sound_def split: sum.splits)

section \<open>Sides and keys\<close>

datatype join_side = Left_Side | Right_Side | No_Side

fun negate :: "join_side \<Rightarrow> join_side" where
  "negate Left_Side = Right_Side"
| "negate Right_Side = Left_Side"
| "negate No_Side = No_Side"

type_synonym 'v key = "'v option list"

text \<open>
  The key expressions of a side evaluated on a batch, the hashes of keys, the comparator of a key
  column, whether the only key column has a type with a specialised comparison, and whether two
  batches fail to be concatenated.
\<close>

record ('v, 'e) key_ops =
  ko_eval :: "join_side \<Rightarrow> 'v row list \<Rightarrow> 'e + 'v key list"
  ko_hashes :: "'v key list \<Rightarrow> 'e + u64 list"
  ko_comparator :: "nat \<Rightarrow> 'e + ('v option \<Rightarrow> 'v option \<Rightarrow> ordering)"
  ko_specialized :: bool
  ko_concat :: "'v row list \<Rightarrow> 'v row list \<Rightarrow> 'e option"
  ko_on :: nat
  ko_null_equality :: null_equality

definition matchable_join_keys :: "'v key list \<Rightarrow> null_equality \<Rightarrow> bool list option" where
  "matchable_join_keys keys ne =
     (case ne of
        NullEqualsNothing \<Rightarrow>
          (let valid = map (\<lambda>key. None \<notin> set key) keys
           in if list_all (\<lambda>b. b) valid then None else Some valid)
      | NullEqualsNull \<Rightarrow> None)"

definition valid_rows :: "u64 list \<Rightarrow> bool list option \<Rightarrow> (nat \<times> u64) list" where
  "valid_rows hash_values valid_keys =
     filter (\<lambda>(i, _). case valid_keys of None \<Rightarrow> True | Some valid \<Rightarrow> valid ! i) (enumerate 0 hash_values)"

section \<open>Comparison of keys\<close>

text \<open>The value of key column \<open>c\<close> in row \<open>i\<close>.\<close>

definition key_cell :: "'v key list \<Rightarrow> nat \<Rightarrow> nat \<Rightarrow> 'v option option" where
  "key_cell keys c i = do { key \<leftarrow> vec_get keys i; vec_get key c }"

definition has_nulls :: "'v key list \<Rightarrow> nat \<Rightarrow> bool" where
  "has_nulls keys c = list_ex (\<lambda>key. vec_get key c = Some None) keys"

type_synonym dyn_comparator = "nat \<Rightarrow> nat \<Rightarrow> ordering option"

definition column_comparator ::
  "('v option \<Rightarrow> 'v option \<Rightarrow> ordering) \<Rightarrow> 'v key list \<Rightarrow> 'v key list \<Rightarrow> null_equality \<Rightarrow> nat \<Rightarrow> dyn_comparator" where
  "column_comparator cmp left right ne c =
     (let inner = (\<lambda>i j. do { a \<leftarrow> key_cell left c i; b \<leftarrow> key_cell right c j; Some (cmp a b) })
      in if ne = NullEqualsNothing \<and> has_nulls left c \<and> has_nulls right c
         then (\<lambda>i j. do { a \<leftarrow> key_cell left c i; b \<leftarrow> key_cell right c j;
                         if a = None \<and> b = None then Some Less else inner i j })
         else inner)"

fun build_columns ::
  "('v, 'e) key_ops \<Rightarrow> 'v key list \<Rightarrow> 'v key list \<Rightarrow> nat list \<Rightarrow> 'e join_error + dyn_comparator list" where
  "build_columns K left right [] = Inr []"
| "build_columns K left right (c # cs) =
     res_bind (or_error (ko_comparator K c)) (\<lambda>cmp.
     res_bind (build_columns K left right cs) (\<lambda>rest.
       Inr (column_comparator cmp left right (ko_null_equality K) c # rest)))"

definition comparator_new ::
  "('v, 'e) key_ops \<Rightarrow> 'v key list \<Rightarrow> 'v key list \<Rightarrow> nat \<Rightarrow> 'e join_error + dyn_comparator list" where
  "comparator_new K left right n = (if n = 0 then Inl Join_Panic else build_columns K left right [0..<n])"

fun comparator_compare :: "dyn_comparator list \<Rightarrow> nat \<Rightarrow> nat \<Rightarrow> ordering option" where
  "comparator_compare [] left right = Some Equal"
| "comparator_compare (cmp_fn # rest) left right = do {
     ord \<leftarrow> cmp_fn left right;
     if ord \<noteq> Equal then Some ord else comparator_compare rest left right }"

fun comparator_is_equal :: "dyn_comparator list \<Rightarrow> nat \<Rightarrow> nat \<Rightarrow> bool option" where
  "comparator_is_equal [] left right = Some True"
| "comparator_is_equal (cmp_fn # rest) left right = do {
     ord \<leftarrow> cmp_fn left right;
     if ord \<noteq> Equal then Some False else comparator_is_equal rest left right }"

text \<open>The loops over the candidate pairs.\<close>

fun keep_pairs :: "(nat \<Rightarrow> nat \<Rightarrow> bool option) \<Rightarrow> nat list \<Rightarrow> nat list \<Rightarrow> (nat list \<times> nat list) option" where
  "keep_pairs is_equal (l # ls) (r # rs) = do {
     eq \<leftarrow> is_equal l r;
     (left_filtered, right_filtered) \<leftarrow> keep_pairs is_equal ls rs;
     Some (if eq then (l # left_filtered, r # right_filtered) else (left_filtered, right_filtered)) }"
| "keep_pairs is_equal _ _ = Some ([], [])"

definition equal_rows_single_col ::
  "nat list \<Rightarrow> nat list \<Rightarrow> 'v key list \<Rightarrow> 'v key list \<Rightarrow> null_equality \<Rightarrow> (nat list \<times> nat list) option" where
  "equal_rows_single_col indices_left indices_right left right ne =
     keep_pairs (\<lambda>i j. do {
        l \<leftarrow> key_cell left 0 i;
        r \<leftarrow> key_cell right 0 j;
        Some (case (l, r) of
                (Some a, Some b) \<Rightarrow> a = b
              | (None, None) \<Rightarrow> ne = NullEqualsNull
              | _ \<Rightarrow> False) }) indices_left indices_right"

definition equal_rows_arr ::
  "('v, 'e) key_ops \<Rightarrow> nat list \<Rightarrow> nat list \<Rightarrow> 'v key list \<Rightarrow> nat \<Rightarrow> 'v key list \<Rightarrow> nat
   \<Rightarrow> 'e join_error + nat list \<times> nat list" where
  "equal_rows_arr K indices_left indices_right left left_columns right right_columns =
     (if length indices_left \<noteq> length indices_right then Inl (Join_Internal ''join indices with different lengths'')
      else if left_columns \<noteq> right_columns then Inl (Join_Internal ''join keys with different column counts'')
      else if left_columns = 0 then Inr ([], [])
      else if left_columns = 1 \<and> ko_specialized K
      then or_panic (equal_rows_single_col indices_left indices_right left right (ko_null_equality K))
      else res_bind (comparator_new K left right left_columns) (\<lambda>comparator.
             or_panic (keep_pairs (comparator_is_equal comparator) indices_left indices_right)))"

section \<open>What the operations rely on\<close>

text \<open>
  Keys and hashes are computed row by row; \<open>norm\<close> maps the values that compare equal (the two
  floating point zeros) to one value.  The comparators treat two nulls as equal and a null as
  different from every value, equal keys have equal hashes, and the specialised types have no
  distinct values that compare equal.
\<close>

definition keys_equal :: "('v \<Rightarrow> 'v) \<Rightarrow> 'v key \<Rightarrow> 'v key \<Rightarrow> bool" where
  "keys_equal norm k k' \<longleftrightarrow> map (map_option norm) k = map (map_option norm) k'"

definition key_ops_ok ::
  "('v, 'e) key_ops \<Rightarrow> (join_side \<Rightarrow> 'v row \<Rightarrow> 'v key) \<Rightarrow> ('v key \<Rightarrow> u64) \<Rightarrow> ('v \<Rightarrow> 'v) \<Rightarrow> bool" where
  "key_ops_ok K kf hf norm \<longleftrightarrow>
     (\<forall>side b ks. ko_eval K side b = Inr ks \<longrightarrow> ks = map (kf side) b)
     \<and> (\<forall>side r. length (kf side r) = ko_on K)
     \<and> (\<forall>ks hs. ko_hashes K ks = Inr hs \<longrightarrow> hs = map hf ks)
     \<and> (\<forall>k k'. keys_equal norm k k' \<longrightarrow> hf k = hf k')
     \<and> (\<forall>c cmp a b. ko_comparator K c = Inr cmp \<longrightarrow> (cmp a b = Equal \<longleftrightarrow> map_option norm a = map_option norm b))
     \<and> (ko_specialized K \<longrightarrow> (\<forall>a b. norm a = norm b \<longrightarrow> a = b))"

lemma key_ops_okD:
  assumes "key_ops_ok K kf hf norm"
  shows "ko_eval K side b = Inr ks \<Longrightarrow> ks = map (kf side) b"
    and "length (kf side r) = ko_on K"
    and "ko_hashes K ks = Inr hs \<Longrightarrow> hs = map hf ks"
    and "keys_equal norm k k' \<Longrightarrow> hf k = hf k'"
    and "ko_comparator K c = Inr cmp \<Longrightarrow> cmp x y = Equal \<longleftrightarrow> map_option norm x = map_option norm y"
    and "ko_specialized K \<Longrightarrow> norm v = norm w \<longleftrightarrow> v = w"
  using assms unfolding key_ops_ok_def by blast+

definition matchable :: "null_equality \<Rightarrow> 'v key \<Rightarrow> bool" where
  "matchable ne key \<longleftrightarrow> ne = NullEqualsNull \<or> None \<notin> set key"

definition keys_match :: "null_equality \<Rightarrow> ('v \<Rightarrow> 'v) \<Rightarrow> 'v key \<Rightarrow> 'v key \<Rightarrow> bool" where
  "keys_match ne norm k k' \<longleftrightarrow> keys_equal norm k k' \<and> matchable ne k"

lemma keys_match_matchable: "keys_match ne norm k k' \<Longrightarrow> matchable ne k \<and> matchable ne k'"
proof -
  assume a: "keys_match ne norm k k'"
  then have "None \<in> set k \<longleftrightarrow> None \<in> set k'"
    unfolding keys_match_def keys_equal_def by (metis (no_types, lifting) image_eqI image_iff list.set_map option.map_disc_iff)
  then show ?thesis using a by (auto simp: keys_match_def matchable_def)
qed

lemma keys_match_sym: "keys_match ne norm k k' \<longleftrightarrow> keys_match ne norm k' k"
  using keys_match_matchable [of ne norm k k'] keys_match_matchable [of ne norm k' k]
  by (auto simp: keys_match_def keys_equal_def)

section \<open>The comparison keeps the matching pairs\<close>

lemma keep_pairs_spec:
  assumes "\<forall>(l, r) \<in> set ps. is_equal l r = Some (Q l r)"
  shows "keep_pairs is_equal (map fst ps) (map snd ps)
    = Some (map fst (filter (\<lambda>(l, r). Q l r) ps), map snd (filter (\<lambda>(l, r). Q l r) ps))"
  using assms by (induction ps) auto

lemma comparator_is_equal_compare: "comparator_is_equal cs l r = map_option (\<lambda>ord. ord = Equal) (comparator_compare cs l r)"
  by (induction cs) (auto split: option.split bind_split)

lemma build_columns_equal:
  assumes K: "key_ops_ok K kf hf norm" and i: "i < length left" "length (left ! i) = n" and j: "j < length right" "length (right ! j) = n"
  shows "\<forall>c \<in> set cs. c < n \<Longrightarrow> sound (\<lambda>comps. comparator_is_equal comps i j =
      Some (\<forall>c \<in> set cs. map_option norm (left ! i ! c) = map_option norm (right ! j ! c)
         \<and> (ko_null_equality K = NullEqualsNothing \<longrightarrow> left ! i ! c \<noteq> None))) (build_columns K left right cs)"
proof (induction cs)
  case (Cons c cs)
  let ?ne = "ko_null_equality K"
  have cells: "key_cell left c i = Some (left ! i ! c)" "key_cell right c j = Some (right ! j ! c)"
    using i j Cons.prems by (simp_all add: key_cell_def)
  have nulls: "left ! i ! c = None \<Longrightarrow> has_nulls left c" "right ! j ! c = None \<Longrightarrow> has_nulls right c"
    using i j Cons.prems unfolding has_nulls_def list_ex_iff
    by (metis list.set_intros(1) nth_mem vec_get_Some)+
  show ?case unfolding build_columns.simps
  proof (rule sound_bind [OF sound_or_error [where Q = "\<lambda>cmp. ko_comparator K c = Inr cmp"]], assumption)
    fix cmp assume cmp: "ko_comparator K c = Inr cmp"
    note eq = key_ops_okD(5) [OF K cmp, of "left ! i ! c" "right ! j ! c"]
    have "\<exists>ord. column_comparator cmp left right ?ne c i j = Some ord \<and> (ord = Equal \<longleftrightarrow>
        map_option norm (left ! i ! c) = map_option norm (right ! j ! c) \<and> (?ne = NullEqualsNothing \<longrightarrow> left ! i ! c \<noteq> None))"
      using eq nulls by (auto simp: column_comparator_def cells Let_def)
    then obtain ord where ord: "column_comparator cmp left right ?ne c i j = Some ord" "ord = Equal \<longleftrightarrow>
        map_option norm (left ! i ! c) = map_option norm (right ! j ! c) \<and> (?ne = NullEqualsNothing \<longrightarrow> left ! i ! c \<noteq> None)"
      by blast
    show "sound (\<lambda>comps. comparator_is_equal comps i j =
        Some (\<forall>c \<in> set (c # cs). map_option norm (left ! i ! c) = map_option norm (right ! j ! c)
         \<and> (?ne = NullEqualsNothing \<longrightarrow> left ! i ! c \<noteq> None)))
      (res_bind (build_columns K left right cs) (\<lambda>rest. Inr (column_comparator cmp left right ?ne c # rest)))"
      using Cons.prems ord by (intro sound_bind [OF Cons.IH]) auto
  qed
qed simp

lemma keys_match_nth:
  assumes "length k = n" and "length k' = n"
  shows "keys_match ne norm k k' \<longleftrightarrow> (\<forall>c < n. map_option norm (k ! c) = map_option norm (k' ! c) \<and> (ne = NullEqualsNothing \<longrightarrow> k ! c \<noteq> None))"
proof -
  have "ne = NullEqualsNull \<longleftrightarrow> ne \<noteq> NullEqualsNothing" by (cases ne) auto
  then show ?thesis
    using assms by (auto simp: keys_match_def keys_equal_def matchable_def list_eq_iff_nth_eq in_set_conv_nth)
qed

text \<open>The pairs of positions that \<open>equal_rows_arr\<close> keeps, on candidates within range.\<close>

lemma equal_rows_arr_spec:
  assumes K: "key_ops_ok K kf hf norm" and on: "0 < ko_on K"
    and left: "\<forall>k \<in> set left. length k = ko_on K" and right: "\<forall>k \<in> set right. length k = ko_on K"
    and ps: "\<forall>(i, j) \<in> set ps. i < length left \<and> j < length right"
  shows "sound (\<lambda>res. res = (let qs = filter (\<lambda>(i, j). keys_match (ko_null_equality K) norm (left ! i) (right ! j)) ps
                            in (map fst qs, map snd qs)))
    (equal_rows_arr K (map fst ps) (map snd ps) left (ko_on K) right (ko_on K))"
proof (cases "ko_on K = 1 \<and> ko_specialized K")
  case True
  have cell: "key_cell left 0 i = Some (left ! i ! 0)" "length (left ! i) = 1" if "i < length left" for i
    using that left True by (auto simp: key_cell_def)
  have cell': "key_cell right 0 j = Some (right ! j ! 0)" "length (right ! j) = 1" if "j < length right" for j
    using that right True by (auto simp: key_cell_def)
  have eq: "(case (l, r) of (Some a, Some b) \<Rightarrow> a = b | (None, None) \<Rightarrow> ko_null_equality K = NullEqualsNull | _ \<Rightarrow> False)
      \<longleftrightarrow> map_option norm l = map_option norm r \<and> (ko_null_equality K = NullEqualsNothing \<longrightarrow> l \<noteq> None)" for l r
    using key_ops_okD(6) [OF K] True by (cases "ko_null_equality K") (auto split: option.splits)
  show ?thesis
    using True ps unfolding equal_rows_arr_def equal_rows_single_col_def eq
    by (subst keep_pairs_spec [where Q = "\<lambda>i j. keys_match (ko_null_equality K) norm (left ! i) (right ! j)"])
      (auto simp: cell cell' keys_match_nth [where n = 1] Let_def case_prod_unfold)
next
  case False
  have eq: "comparator_is_equal comps i j = Some (keys_match (ko_null_equality K) norm (left ! i) (right ! j))"
    if "build_columns K left right [0..<ko_on K] = Inr comps" "i < length left" "j < length right" for comps i j
    using build_columns_equal [OF K that(2) _ that(3), of "ko_on K" "[0..<ko_on K]"] that left right
    by (simp add: keys_match_nth [where n = "ko_on K"] Ball_def)
  have sd: "sound (\<lambda>_. True) (build_columns K left right cs)" for cs
    by (induction cs) (auto intro!: sound_bind [where Q = "\<lambda>_. True"] sound_or_error)
  have "equal_rows_arr K (map fst ps) (map snd ps) left (ko_on K) right (ko_on K) =
      res_bind (build_columns K left right [0..<ko_on K]) (\<lambda>comparator.
        or_panic (keep_pairs (comparator_is_equal comparator) (map fst ps) (map snd ps)))"
    using False on by (auto simp: equal_rows_arr_def comparator_new_def)
  also have "sound (\<lambda>res. res = (let qs = filter (\<lambda>(i, j). keys_match (ko_null_equality K) norm (left ! i) (right ! j)) ps
                            in (map fst qs, map snd qs))) \<dots>"
    using ps eq by (intro sound_bind [OF sd])
      (subst keep_pairs_spec [where Q = "\<lambda>i j. keys_match (ko_null_equality K) norm (left ! i) (right ! j)"], auto simp: Let_def)
  finally show ?thesis .
qed

end
