(* ===== verification/Pruning_Map.thy ===== *)
theory Pruning_Map
  imports Join_Hash_Map Join_Keys
begin

text \<open>
  The map of the symmetric hash join, whose oldest rows can be pruned
  (\<open>physical-plan/src/joins/stream_join_utils.rs\<close>), and one side of that join
  (\<open>OneSideHashJoiner\<close> in \<open>symmetric_hash_join.rs\<close>).  A record batch is the list of its rows.
  Evaluation of the key expressions and hashing are operations of other crates and parameters;
  a failed index or \<open>unwrap\<close> is the error \<open>Join_Panic\<close>.
\<close>

section \<open>The map\<close>

record pruning_map =
  pm_map :: "(u64 \<times> u64) list"
  pm_next :: "u64 list"

definition pm_with_capacity :: "nat \<Rightarrow> pruning_map" where
  "pm_with_capacity capacity = \<lparr> pm_map = [], pm_next = [] \<rparr>"

definition pm_extend_zero :: "pruning_map \<Rightarrow> nat \<Rightarrow> pruning_map" where
  "pm_extend_zero pm len = pm\<lparr>pm_next := pm_next pm @ replicate len 0\<rparr>"

definition pm_update_from_iter :: "pruning_map \<Rightarrow> (nat \<times> u64) list \<Rightarrow> nat \<Rightarrow> pruning_map option" where
  "pm_update_from_iter pm iter deleted_offset = do {
     (m, nxt, _) \<leftarrow> update_from_iter (pm_map pm) (pm_next pm) iter deleted_offset False;
     Some (pm\<lparr>pm_map := m, pm_next := nxt\<rparr>) }"

definition pm_get_matched_indices ::
  "pruning_map \<Rightarrow> (nat \<times> u64) list \<Rightarrow> nat option \<Rightarrow> (u32 list \<times> u64 list) option" where
  "pm_get_matched_indices pm iter deleted_offset = get_matched_indices (pm_map pm) (pm_next pm) iter deleted_offset"

definition pm_get_matched_indices_with_limit_offset ::
  "pruning_map \<Rightarrow> u64 list \<Rightarrow> bool list option \<Rightarrow> usize \<Rightarrow> probe_offset
   \<Rightarrow> (probe_offset option \<times> u32 list \<times> u64 list) option" where
  "pm_get_matched_indices_with_limit_offset pm hash_values valid_keys limit offset =
     get_matched_indices_with_limit_offset (pm_map pm) (pm_next pm) (length (pm_map pm) = length (pm_next pm))
       hash_values valid_keys limit offset"

text \<open>The loop that removes keys from the map; \<open>find_entry(..).unwrap()\<close> panics on a missing one.\<close>

fun remove_keys :: "(u64 \<times> u64) list \<Rightarrow> u64 list \<Rightarrow> (u64 \<times> u64) list option" where
  "remove_keys m [] = Some m"
| "remove_keys m (hash_value # hs) =
     (case map_of m hash_value of
        None \<Rightarrow> None
      | Some _ \<Rightarrow> remove_keys (AList.delete hash_value m) hs)"

definition prune_hash_values :: "pruning_map \<Rightarrow> nat \<Rightarrow> u64 \<Rightarrow> pruning_map option" where
  "prune_hash_values pm prune_length deleting_offset =
     (if length (pm_next pm) < prune_length then None
      else do {
        let removable_keys =
          map fst (filter (\<lambda>(hash, tail_index). tail_index < of_nat prune_length + deleting_offset) (pm_map pm));
        m \<leftarrow> remove_keys (pm_map pm) removable_keys;
        Some (pm\<lparr>pm_map := m, pm_next := drop prune_length (pm_next pm)\<rparr>) })"

section \<open>One side of the join\<close>

definition update_hash ::
  "('v, 'e) key_ops \<Rightarrow> join_side \<Rightarrow> 'v row list \<Rightarrow> pruning_map \<Rightarrow> nat \<Rightarrow> nat \<Rightarrow> bool
   \<Rightarrow> 'e join_error + pruning_map" where
  "update_hash K side batch pm offset deleted_offset fifo_hashmap =
     res_bind (or_error (ko_eval K side batch)) (\<lambda>keys_values.
     res_bind (or_error (ko_hashes K keys_values)) (\<lambda>hash_values.
       (let pm1 = pm_extend_zero pm (length batch);
            valid_keys = matchable_join_keys keys_values (ko_null_equality K);
            iter = map (\<lambda>(i, val). (i + offset, val)) (valid_rows hash_values valid_keys)
        in or_panic (pm_update_from_iter pm1 (if fifo_hashmap then rev iter else iter) deleted_offset))))"

record 'v joiner =
  j_build_side :: join_side
  j_input_buffer :: "'v row list"
  j_hashmap :: pruning_map
  j_visited_rows :: "nat set"
  j_offset :: nat
  j_deleted_offset :: nat

definition joiner_new :: "join_side \<Rightarrow> 'v joiner" where
  "joiner_new side =
     \<lparr> j_build_side = side, j_input_buffer = [], j_hashmap = pm_with_capacity 0, j_visited_rows = {},
       j_offset = 0, j_deleted_offset = 0 \<rparr>"

definition update_internal_state ::
  "('v, 'e) key_ops \<Rightarrow> 'v joiner \<Rightarrow> 'v row list \<Rightarrow> 'e join_error + 'v joiner" where
  "update_internal_state K j batch =
     (let j1 = j\<lparr>j_input_buffer := j_input_buffer j @ batch\<rparr>
      in res_bind (unless_error (ko_concat K (j_input_buffer j) batch) ()) (\<lambda>_.
         res_bind (update_hash K (j_build_side j) batch (j_hashmap j1) (j_offset j1) (j_deleted_offset j1) False)
           (\<lambda>pm. Inr (j1\<lparr>j_hashmap := pm\<rparr>))))"

definition prune_internal_state :: "'v joiner \<Rightarrow> nat \<Rightarrow> 'e join_error + 'v joiner" where
  "prune_internal_state j prune_length =
     res_bind (or_panic (prune_hash_values (j_hashmap j) prune_length (of_nat (j_deleted_offset j)))) (\<lambda>pm.
       (if length (j_input_buffer j) < prune_length then Inl Join_Panic
        else Inr (j\<lparr>j_hashmap := pm,
                    j_visited_rows := j_visited_rows j - {j_deleted_offset j..<j_deleted_offset j + prune_length},
                    j_input_buffer := drop prune_length (j_input_buffer j),
                    j_deleted_offset := j_deleted_offset j + prune_length\<rparr>)))"

section \<open>Pruning keeps the live rows\<close>

lemma remove_keys_filter:
  "distinct hs \<Longrightarrow> set hs \<subseteq> fst ` set m \<Longrightarrow> remove_keys m hs = Some (filter (\<lambda>(h, _). h \<notin> set hs) m)"
proof (induction hs arbitrary: m)
  case (Cons h hs)
  obtain t where t: "map_of m h = Some t" using Cons.prems by (metis insert_subset list.set(2) map_of_eq_None_iff not_None_eq)
  have del: "AList.delete h m = filter (\<lambda>(k, _). k \<noteq> h) m" by (auto simp: AList.delete_eq intro: filter_cong)
  have "set hs \<subseteq> fst ` set (AList.delete h m)" using Cons.prems by (force simp: del)
  then have "remove_keys (AList.delete h m) hs = Some (filter (\<lambda>(h, _). h \<notin> set hs) (AList.delete h m))"
    using Cons.IH Cons.prems(1) by simp
  moreover have "filter (\<lambda>(h, _). h \<notin> set hs) (AList.delete h m) = filter (\<lambda>(k, _). k \<notin> set (h # hs)) m"
    unfolding del filter_filter by (rule filter_cong) auto
  ultimately show ?case using t by simp
qed simp

lemma chain_prune:
  assumes "chain nxt d i rs" and "sorted_wrt (>) rs" and "k \<le> length nxt"
  shows "chain (drop k nxt) (d + k) i (filter (\<lambda>r. d + k \<le> r) rs)"
  using assms(1,2)
proof (induction rs arbitrary: i)
  case (Cons r rs)
  show ?case
  proof (cases "d + k \<le> r")
    case True
    then have "drop k nxt ! (r - (d + k)) = nxt ! (r - d)" using assms(3) by simp
    moreover have "r - (d + k) < length nxt - k" using Cons.prems(1) True assms(3) by auto
    ultimately show ?thesis using Cons True by simp
  next
    case False
    then have "filter (\<lambda>r. d + k \<le> r) (r # rs) = []" using Cons.prems(2) by (auto simp: filter_empty_conv)
    moreover have "unat i \<le> d + k" using Cons.prems(1) False by simp
    ultimately show ?thesis by (simp only: chain.simps)
  qed
qed simp

lemma live_rows_prune: "live_rows (d + k) ins h = filter (\<lambda>r. d + k \<le> r) (live_rows d ins h)"
  by (auto simp: live_rows_def intro: filter_cong)

lemma live_rows_sorted:
  assumes "sorted_wrt (<) (map fst ins)"
  shows "sorted_wrt (>) (live_rows d ins h)"
proof -
  have "sorted_wrt (<) (map fst (filter (\<lambda>(r, h'). h' = h) ins))"
    using assms by (metis sorted_wrt_filter sorted_wrt_map)
  then show ?thesis
    unfolding live_rows_def hash_rows_def by (intro sorted_wrt_filter) (simp add: sorted_wrt_rev)
qed

lemma map_of_filter_not:
  "distinct (map fst m) \<Longrightarrow>
   map_of (filter (\<lambda>p. \<not> Q p) m) h = (case map_of m h of None \<Rightarrow> None | Some t \<Rightarrow> if Q (h, t) then None else Some t)"
proof (induction m)
  case (Cons p m)
  obtain k t where p: "p = (k, t)" by fastforce
  have "map_of m k = None" using Cons.prems p by (simp add: map_of_eq_None_iff)
  then show ?case using Cons p by (auto split: option.splits)
qed simp

lemma prune_hash_values_ok:
  assumes ok: "map_ok (pm_map pm) (pm_next pm) d ins" and asc: "sorted_wrt (<) (map fst ins)"
    and k: "k \<le> length (pm_next pm)" and small: "d + length (pm_next pm) < 2 ^ 64"
  shows "\<exists>pm'. prune_hash_values pm k (of_nat d) = Some pm' \<and> pm_next pm' = drop k (pm_next pm)
    \<and> map_ok (pm_map pm') (pm_next pm') (d + k) ins"
proof -
  let ?m = "pm_map pm" and ?nxt = "pm_next pm"
  let ?dead = "\<lambda>(hash, tail). tail < of_nat k + (of_nat d :: u64)"
  let ?keys = "map fst (filter ?dead ?m)"
  have dist: "distinct (map fst ?m)" using ok by (simp add: map_ok_def)
  then have "distinct ?keys" by (rule distinct_map_filter)
  then have rem: "remove_keys ?m ?keys = Some (filter (\<lambda>(h, _). h \<notin> set ?keys) ?m)"
    by (rule remove_keys_filter) auto
  have "(\<lambda>(h, _). h \<notin> set ?keys) p \<longleftrightarrow> \<not> ?dead p" if "p \<in> set ?m" for p
  proof -
    obtain h t where p: "p = (h, t)" by fastforce
    have "t' = t" if "(h, t') \<in> set ?m" for t' using that \<open>p \<in> set ?m\<close> dist p by (metis eq_key_imp_eq_value)
    moreover have "h \<in> set ?keys \<longleftrightarrow> (\<exists>t'. (h, t') \<in> set ?m \<and> ?dead (h, t'))" by (auto simp: image_iff)
    ultimately show ?thesis using \<open>p \<in> set ?m\<close> unfolding p by blast
  qed
  then have m': "filter (\<lambda>(h, _). h \<notin> set ?keys) ?m = filter (\<lambda>p. \<not> ?dead p) ?m" by (rule filter_cong [OF refl])
  let ?m' = "filter (\<lambda>p. \<not> ?dead p) ?m"
  have bound: "unat (of_nat k + (of_nat d :: u64)) = k + d"
    using k small by (metis add.commute add_le_cancel_left le_less_trans of_nat_add unat_of_nat_u64)
  have look: "map_of ?m' h = (case map_of ?m h of None \<Rightarrow> None | Some t \<Rightarrow> if unat t < k + d then None else Some t)" for h
    using map_of_filter_not [OF dist, of ?dead h] bound by (auto simp: word_less_nat_alt split: option.splits)
  have "chain (drop k ?nxt) (d + k) (head_of ?m' h) (live_rows (d + k) ins h)" for h
  proof -
    have ch: "chain ?nxt d (head_of ?m h) (live_rows d ins h)" using ok by (simp add: map_ok_def)
    have pr: "chain (drop k ?nxt) (d + k) (head_of ?m h) (live_rows (d + k) ins h)"
      unfolding live_rows_prune by (rule chain_prune [OF ch live_rows_sorted [OF asc] k])
    show ?thesis
    proof (cases "head_of ?m' h = head_of ?m h")
      case True
      then show ?thesis using pr by simp
    next
      case False
      then have "head_of ?m' h = 0" "unat (head_of ?m h) < k + d"
        using look [of h] by (auto simp: head_of_def split: option.splits if_splits)
      moreover have "live_rows (d + k) ins h = []"
        using pr \<open>unat (head_of ?m h) < k + d\<close> by (cases "live_rows (d + k) ins h") auto
      ultimately show ?thesis by simp
    qed
  qed
  then have "map_ok ?m' (drop k ?nxt) (d + k) ins"
    using ok look distinct_map_filter [OF dist] by (auto simp: map_ok_def add.assoc split: option.splits if_splits)
  then show ?thesis
    using rem k unfolding m' by (simp add: prune_hash_values_def Let_def)
qed

section \<open>A side holds the rows it received\<close>

text \<open>The rows a side inserts into its map, with their hashes.\<close>

definition side_entries ::
  "null_equality \<Rightarrow> ('v row \<Rightarrow> 'v key) \<Rightarrow> ('v key \<Rightarrow> u64) \<Rightarrow> nat \<Rightarrow> 'v row list \<Rightarrow> (nat \<times> u64) list" where
  "side_entries ne k hf n rows =
     map (\<lambda>(i, r). (i, hf (k r))) (filter (\<lambda>(i, r). matchable ne (k r)) (enumerate n rows))"

lemma side_entries_append:
  "side_entries ne k hf n (xs @ ys) = side_entries ne k hf n xs @ side_entries ne k hf (n + length xs) ys"
  by (simp add: side_entries_def enumerate_append_eq)

lemma side_entries_Nil [simp]: "side_entries ne k hf n [] = []"
  by (simp add: side_entries_def)

lemma side_entries_Cons:
  "side_entries ne k hf n (r # rows) = (if matchable ne (k r) then [(n, hf (k r))] else []) @ side_entries ne k hf (Suc n) rows"
  by (simp add: side_entries_def)

lemma side_entries_shift: "map (\<lambda>(i, h). (i + m, h)) (side_entries ne k hf n rows) = side_entries ne k hf (n + m) rows"
  by (induction rows arbitrary: n) (simp_all add: side_entries_Cons)

lemma side_entries_bounds: "(i, h) \<in> set (side_entries ne k hf n rows) \<Longrightarrow> n \<le> i \<and> i < n + length rows"
  by (auto simp: side_entries_def in_set_enumerate_eq)

lemma side_entries_sorted: "sorted_wrt (<) (map fst (side_entries ne k hf n rows))"
proof (induction rows arbitrary: n)
  case (Cons r rows)
  have "\<forall>i \<in> set (map fst (side_entries ne k hf (Suc n) rows)). n < i" by (auto dest: side_entries_bounds)
  then show ?case using Cons by (simp add: side_entries_Cons)
qed simp

lemma side_entries_distinct: "distinct (map fst (side_entries ne k hf n rows))"
  using side_entries_sorted strict_sorted_iff by blast

lemma valid_rows_entries:
  fixes b :: "'v row list"
  shows "valid_rows (map hf (map k b)) (matchable_join_keys (map k b) ne) = side_entries ne k hf 0 b"
proof -
  let ?ks = "map k b"
  have "(case matchable_join_keys ?ks ne of None \<Rightarrow> True | Some valid \<Rightarrow> valid ! i) \<longleftrightarrow> matchable ne (k (b ! i))"
    if "i < length b" for i
    using that by (auto simp: matchable_join_keys_def matchable_def list_all_iff split: null_equality.splits)
  then have "valid_rows (map hf ?ks) (matchable_join_keys ?ks ne)
      = filter (\<lambda>(i, _). matchable ne (k (b ! i))) (enumerate 0 (map hf ?ks))"
    unfolding valid_rows_def by (intro filter_cong) (auto simp: in_set_enumerate_eq)
  also have "\<dots> = map (\<lambda>(i, r). (i, hf (k r))) (filter (\<lambda>(i, _). matchable ne (k (b ! i))) (enumerate 0 b))"
    by (simp add: enumerate_map_upt enumerate_eq_zip zip_map2 filter_map comp_def case_prod_unfold)
  also have "\<dots> = side_entries ne k hf 0 b"
    unfolding side_entries_def by (intro arg_cong [of _ _ "map _"] filter_cong) (auto simp: in_set_enumerate_eq)
  finally show ?thesis .
qed

definition joiner_holds ::
  "null_equality \<Rightarrow> (join_side \<Rightarrow> 'v row \<Rightarrow> 'v key) \<Rightarrow> ('v key \<Rightarrow> u64) \<Rightarrow> join_side \<Rightarrow> 'v joiner \<Rightarrow> 'v row list \<Rightarrow> bool" where
  "joiner_holds ne kf hf side j rows \<longleftrightarrow>
     j_build_side j = side \<and> j_deleted_offset j \<le> length rows
     \<and> j_input_buffer j = drop (j_deleted_offset j) rows
     \<and> length (pm_next (j_hashmap j)) = length rows - j_deleted_offset j
     \<and> map_ok (pm_map (j_hashmap j)) (pm_next (j_hashmap j)) (j_deleted_offset j) (side_entries ne (kf side) hf 0 rows)"

lemma chain_append: "chain nxt d i rs \<Longrightarrow> chain (nxt @ zs) d i rs"
  by (induction rs arbitrary: i) (auto simp: nth_append)

lemma map_ok_extend_zero: "map_ok m nxt d ins \<Longrightarrow> map_ok m (nxt @ replicate k 0) d ins"
  by (auto simp: map_ok_def chain_append nth_append)

lemma joiner_new_holds: "joiner_holds ne kf hf side (joiner_new side) []"
  by (simp add: joiner_holds_def joiner_new_def pm_with_capacity_def map_ok_def head_of_def live_rows_def hash_rows_def)

lemma update_internal_state_holds:
  assumes K: "key_ops_ok K kf hf norm" and h: "joiner_holds (ko_null_equality K) kf hf side j rows" and off: "j_offset j = length rows"
    and small: "length rows + length batch < 2 ^ 64"
  shows "sound (\<lambda>j'. joiner_holds (ko_null_equality K) kf hf side j' (rows @ batch) \<and> j_offset j' = j_offset j
      \<and> j_deleted_offset j' = j_deleted_offset j \<and> j_visited_rows j' = j_visited_rows j) (update_internal_state K j batch)"
proof -
  let ?ne = "ko_null_equality K" and ?d = "j_deleted_offset j" and ?pm = "j_hashmap j"
  have H: "j_build_side j = side" "?d \<le> length rows" "j_input_buffer j = drop ?d rows"
      "length (pm_next ?pm) = length rows - ?d"
      "map_ok (pm_map ?pm) (pm_next ?pm) ?d (side_entries ?ne (kf side) hf 0 rows)"
    using h by (auto simp: joiner_holds_def)
  let ?new = "side_entries ?ne (kf side) hf (length rows) batch" and ?nxt = "pm_next ?pm @ replicate (length batch) 0"
  have len: "?d + length ?nxt = length rows + length batch" using H(2,4) by simp
  have iter: "map (\<lambda>(i, val). (i + length rows, val))
      (valid_rows (map hf (map (kf side) batch)) (matchable_join_keys (map (kf side) batch) ?ne)) = ?new"
    unfolding valid_rows_entries by (simp add: side_entries_shift)
  have d: "distinct (map fst (side_entries ?ne (kf side) hf 0 rows @ ?new))"
    using side_entries_distinct [of ?ne "kf side" hf 0 "rows @ batch"] by (simp add: side_entries_append)
  have b: "\<forall>(r, h) \<in> set ?new. ?d \<le> r \<and> r < ?d + length ?nxt"
    using H(2) len by (auto dest: side_entries_bounds)
  obtain m nxt c where u: "update_from_iter (pm_map ?pm) ?nxt ?new ?d False = Some (m, nxt, c)"
      "map_ok m nxt ?d (side_entries ?ne (kf side) hf 0 rows @ ?new)" "length nxt = length ?nxt"
    using update_from_iter_ok [OF _ map_ok_extend_zero [OF H(5)] d b, of False] small len by auto
  have up: "or_panic (pm_update_from_iter (pm_extend_zero ?pm (length batch)) ?new ?d) = Inr (?pm\<lparr>pm_map := m, pm_next := nxt\<rparr>)"
    using u(1) by (simp add: pm_update_from_iter_def pm_extend_zero_def)
  have "sound (\<lambda>pm. pm = ?pm\<lparr>pm_map := m, pm_next := nxt\<rparr>) (update_hash K side batch ?pm (length rows) ?d False)"
    unfolding update_hash_def
  proof (intro sound_bind)
    show "sound (\<lambda>keys. keys = map (kf side) batch) (or_error (ko_eval K side batch))"
      using key_ops_okD(1) [OF K] by (intro sound_or_error) blast
    show "sound (\<lambda>hashes. hashes = map hf keys) (or_error (ko_hashes K keys))" for keys
      using key_ops_okD(3) [OF K] by (intro sound_or_error) blast
  qed (simp only: iter Let_def if_False up sound_simps)
  then have "sound (\<lambda>j'. j' = j\<lparr>j_input_buffer := j_input_buffer j @ batch, j_hashmap := ?pm\<lparr>pm_map := m, pm_next := nxt\<rparr>\<rparr>)
      (update_internal_state K j batch)"
    using H(1) off unfolding update_internal_state_def Let_def
    by (intro sound_bind [OF sound_unless_error [where Q = "\<lambda>_. True"]]) (auto intro: sound_bind)
  then show ?thesis
    by (rule sound_mono) (use u(2,3) H len in \<open>auto simp: joiner_holds_def side_entries_append\<close>)
qed

lemma prune_internal_state_holds:
  assumes h: "joiner_holds ne kf hf side j rows" and k: "k \<le> length (j_input_buffer j)" and small: "length rows < 2 ^ 64"
  shows "\<exists>j'. (prune_internal_state j k :: 'e join_error + _) = Inr j' \<and> joiner_holds ne kf hf side j' rows
    \<and> j_offset j' = j_offset j \<and> j_deleted_offset j' = j_deleted_offset j + k
    \<and> j_visited_rows j' = j_visited_rows j - {j_deleted_offset j..<j_deleted_offset j + k}"
proof -
  let ?d = "j_deleted_offset j" and ?pm = "j_hashmap j"
  have H: "?d \<le> length rows" "j_input_buffer j = drop ?d rows" "length (pm_next ?pm) = length rows - ?d"
      "map_ok (pm_map ?pm) (pm_next ?pm) ?d (side_entries ne (kf side) hf 0 rows)"
    using h by (auto simp: joiner_holds_def)
  obtain pm where pm: "prune_hash_values ?pm k (of_nat ?d) = Some pm" "pm_next pm = drop k (pm_next ?pm)"
      "map_ok (pm_map pm) (pm_next pm) (?d + k) (side_entries ne (kf side) hf 0 rows)"
    using prune_hash_values_ok [OF H(4) side_entries_sorted, of k] H k small by auto
  then show ?thesis
    using H k h by (auto simp: prune_internal_state_def joiner_holds_def add.commute)
qed

section \<open>Lookup\<close>

text \<open>The positions in a buffer of the rows with a matchable key of the given hash.\<close>

definition hash_positions :: "null_equality \<Rightarrow> ('v row \<Rightarrow> 'v key) \<Rightarrow> ('v key \<Rightarrow> u64) \<Rightarrow> 'v row list \<Rightarrow> u64 \<Rightarrow> nat list" where
  "hash_positions ne k hf rows h =
     filter (\<lambda>i. matchable ne (k (rows ! i)) \<and> hf (k (rows ! i)) = h) [0..<length rows]"

lemma entries_positions: "map fst (filter (\<lambda>(_, h'). h' = h) (side_entries ne k hf 0 rows)) = hash_positions ne k hf rows h"
proof (induction rows rule: rev_induct)
  case (snoc r rows)
  have "hash_positions ne k hf (rows @ [r]) h = hash_positions ne k hf rows h
      @ (if matchable ne (k r) \<and> hf (k r) = h then [length rows] else [])"
    unfolding hash_positions_def by (auto simp: nth_append intro!: filter_cong)
  then show ?case using snoc by (simp add: side_entries_append side_entries_Cons)
qed (simp add: hash_positions_def)

lemma live_rows_positions:
  assumes "d \<le> length rows"
  shows "live_rows d (side_entries ne k hf 0 rows) h = map (\<lambda>i. i + d) (rev (hash_positions ne k hf (drop d rows) h))"
proof -
  let ?old = "side_entries ne k hf 0 (take d rows)" and ?new = "side_entries ne k hf 0 (drop d rows)"
  have "side_entries ne k hf 0 rows = ?old @ map (\<lambda>(i, h). (i + d, h)) ?new"
    using side_entries_append [of ne k hf 0 "take d rows" "drop d rows"] assms
    by (simp add: side_entries_shift)
  moreover have "filter (\<lambda>r. d \<le> r) (map fst (filter (\<lambda>(_, h'). h' = h) ?old)) = []"
    by (auto simp: filter_empty_conv dest!: side_entries_bounds)
  moreover have "map fst (filter (\<lambda>(_, h'). h' = h) (map (\<lambda>(i, h). (i + d, h)) ?new))
      = map (\<lambda>i. i + d) (map fst (filter (\<lambda>(_, h'). h' = h) ?new))"
    by (simp add: filter_map comp_def case_prod_unfold)
  ultimately show ?thesis
    by (simp add: live_rows_def hash_rows_def rev_filter [symmetric] entries_positions filter_map comp_def rev_map)
qed

lemma pm_lookup:
  assumes h: "joiner_holds ne kf hf side j rows" and small: "length rows < 2 ^ 64"
  shows "pm_get_matched_indices (j_hashmap j) iter (Some (j_deleted_offset j)) =
    (let ms = concat (map (\<lambda>(p, h). map (Pair p) (rev (hash_positions ne (kf side) hf (j_input_buffer j) h))) iter)
     in Some (encode_probe ms, encode_build ms))"
proof -
  let ?d = "j_deleted_offset j" and ?ins = "side_entries ne (kf side) hf 0 rows"
  have H: "?d \<le> length rows" "j_input_buffer j = drop ?d rows" and ok: "map_ok (pm_map (j_hashmap j)) (pm_next (j_hashmap j)) ?d ?ins"
    using h by (auto simp: joiner_holds_def)
  let ?f = "\<lambda>(p, h). map (Pair p) (rev (hash_positions ne (kf side) hf (j_input_buffer j) h))"
  have all: "all_matches ?d ?ins iter = map (\<lambda>(p, i). (p, i + ?d)) (concat (map ?f iter))"
    by (simp add: all_matches_def live_rows_positions [OF H(1)] H(2) map_concat comp_def case_prod_unfold)
  show ?thesis
    using matched_rows_spec [OF ok, of "Some ?d" iter "[]" "[]"] H(1) small
    by (simp add: pm_get_matched_indices_def get_matched_indices_def all Let_def comp_def case_prod_unfold)
qed

text \<open>What the stream does with one side: receive a batch, which ends by advancing the offset, or prune.\<close>

datatype 'v joiner_op = Receive "'v row list" | Prune nat

fun joiner_run :: "('v, 'e) key_ops \<Rightarrow> 'v joiner \<Rightarrow> 'v joiner_op list \<Rightarrow> 'e join_error + 'v joiner" where
  "joiner_run K j [] = Inr j"
| "joiner_run K j (Receive batch # ops) =
     res_bind (update_internal_state K j batch) (\<lambda>j1. joiner_run K (j1\<lparr>j_offset := j_offset j1 + length batch\<rparr>) ops)"
| "joiner_run K j (Prune k # ops) = res_bind (prune_internal_state j k) (\<lambda>j1. joiner_run K j1 ops)"

fun received :: "'v joiner_op list \<Rightarrow> 'v row list" where
  "received [] = []"
| "received (Receive batch # ops) = batch @ received ops"
| "received (Prune k # ops) = received ops"

lemma joiner_run_holds:
  assumes "key_ops_ok K kf hf norm"
  shows "joiner_run K j ops = Inr j' \<Longrightarrow> joiner_holds (ko_null_equality K) kf hf side j rows \<Longrightarrow> j_offset j = length rows \<Longrightarrow>
    length rows + length (received ops) < 2 ^ 64 \<Longrightarrow> joiner_holds (ko_null_equality K) kf hf side j' (rows @ received ops)"
proof (induction ops arbitrary: j rows rule: received.induct)
  case (2 batch ops)
  have small: "length rows + length batch < 2 ^ 64" using "2.prems"(4) by simp
  obtain j1 where j1: "update_internal_state K j batch = Inr j1" using "2.prems"(1) by (auto simp: res_bind_def split: sum.splits)
  have "joiner_holds (ko_null_equality K) kf hf side j1 (rows @ batch)" "j_offset j1 = length rows"
    using update_internal_state_holds [OF assms "2.prems"(2,3) small] j1 "2.prems"(3) by auto
  then show ?case
    using "2.IH" [of "j1\<lparr>j_offset := j_offset j1 + length batch\<rparr>" "rows @ batch"] "2.prems"(1,4) j1
    by (simp add: joiner_holds_def)
next
  case (3 k ops)
  obtain j1 where j1: "(prune_internal_state j k :: 'b join_error + _) = Inr j1"
    using "3.prems"(1) by (auto simp: res_bind_def split: sum.splits)
  have "k \<le> length (j_input_buffer j)"
    using j1 by (auto simp: prune_internal_state_def res_bind_def split: sum.splits if_splits)
  then have "joiner_holds (ko_null_equality K) kf hf side j1 rows" "j_offset j1 = j_offset j"
    using prune_internal_state_holds [OF "3.prems"(2), of k, where 'e = 'b] j1 "3.prems"(4) by auto
  then show ?case using "3.IH" [of j1 rows] "3.prems" j1 by simp
qed simp


text \<open>The key is the first column; the hash is the parity of the value.\<close>

definition demo_hash :: "int key \<Rightarrow> u64" where
  "demo_hash key = (case key of Some n # _ \<Rightarrow> if even n then 2 else 1 | _ \<Rightarrow> 0)"

definition demo_keys :: "(int, string) key_ops" where
  "demo_keys = \<lparr> ko_eval = (\<lambda>_ batch. Inr (map (\<lambda>row. [hd (row @ [None])]) batch)), ko_hashes = (\<lambda>keys. Inr (map demo_hash keys)),
                 ko_comparator = (\<lambda>_. Inr (\<lambda>a b. if a = b then Equal else Less)), ko_specialized = True,
                 ko_concat = (\<lambda>_ _. None), ko_on = 1,
                 ko_null_equality = NullEqualsNothing \<rparr>"

lemma demo_keys_ok: "key_ops_ok demo_keys (\<lambda>_ row. [hd (row @ [None])]) demo_hash (\<lambda>v. v)"
  by (auto simp: key_ops_ok_def demo_keys_def keys_equal_def option.map_id0 [unfolded id_def] option.map_ident)




text \<open>
  The chunked lookup of the pruning map, which the symmetric join does not call, does not subtract
  the number of pruned rows, and a stale entry makes it take the path for unique hashes: of the two
  rows with hash 1 that are left here it returns one, at an index outside the buffer.
\<close>

lemma pruned_map_chunked_lookup_stale:
  "\<exists>j. joiner_run demo_keys (joiner_new Left_Side) [Receive [[Some 4], [Some 7], [Some 9]], Prune 1] = Inr j
     \<and> j_input_buffer j = [[Some 7], [Some 9]]
     \<and> pm_get_matched_indices (j_hashmap j) [(0, 1)] (Some (j_deleted_offset j)) = Some ([0, 0], [1, 0])
     \<and> pm_get_matched_indices_with_limit_offset (j_hashmap j) [1] None 8 (AtRow 0) = Some (None, [0], [2])"
proof -
  let ?j = "\<lparr> j_build_side = Left_Side, j_input_buffer = [[Some 7], [Some 9]],
     j_hashmap = \<lparr> pm_map = [(2, 1), (1, 3)], pm_next = [0, 2] \<rparr>, j_visited_rows = {}, j_offset = 3, j_deleted_offset = 1 \<rparr> :: int joiner"
  have run: "joiner_run demo_keys (joiner_new Left_Side) [Receive [[Some 4], [Some 7], [Some 9]], Prune 1] = Inr ?j"
    by (simp add: demo_keys_def joiner_new_def update_internal_state_def update_hash_def
      pm_with_capacity_def pm_extend_zero_def pm_update_from_iter_def prune_internal_state_def prune_hash_values_def
      matchable_join_keys_def valid_rows_def demo_hash_def try_from_usize_def)
  have "joiner_holds NullEqualsNothing (\<lambda>_ row. [hd (row @ [None])]) demo_hash Left_Side ?j [[Some 4], [Some 7], [Some 9]]"
    using joiner_run_holds [OF demo_keys_ok run joiner_new_holds] by (simp add: joiner_new_def demo_keys_def)
  then have "pm_get_matched_indices (j_hashmap ?j) [(0, 1)] (Some (j_deleted_offset ?j)) = Some ([0, 0], [1, 0])"
    by (rule pm_lookup [where iter = "[(0, 1)]", THEN trans]) (simp_all add: hash_positions_def matchable_def demo_hash_def upt_rec)
  moreover have "pm_get_matched_indices_with_limit_offset (j_hashmap ?j) [1] None 8 (AtRow 0) = Some (None, [0], [2])"
    by (simp add: pm_get_matched_indices_with_limit_offset_def get_matched_indices_with_limit_offset_def key_is_null_def)
  ultimately show ?thesis using run by (intro exI [of _ ?j]) simp
qed


end
