(* ===== verification/Join_Batch.thy ===== *)
theory Join_Batch
  imports Join_Keys
begin

text \<open>
  How the join operators build their output (\<open>physical-plan/src/joins/utils.rs\<close>): the columns of the
  output schema, batches built from pairs of row indices, the filter of a join applied to
  candidate pairs, and the transformers that split the output into batches.
\<close>

section \<open>Columns of the output\<close>

record column_index =
  ci_index :: nat
  ci_side :: join_side

text \<open>Fields are represented by their nullability.\<close>

definition output_join_field :: "bool \<Rightarrow> join_type \<Rightarrow> bool \<Rightarrow> bool" where
  "output_join_field old_field jt is_left =
     (let force_nullable =
        (case jt of
           Inner \<Rightarrow> False
         | Left \<Rightarrow> \<not> is_left
         | Right \<Rightarrow> is_left
         | Full \<Rightarrow> True
         | _ \<Rightarrow> False)
      in if force_nullable then True else old_field)"

definition physical_join_schema :: "bool list \<Rightarrow> bool list \<Rightarrow> join_type \<Rightarrow> bool list \<times> column_index list" where
  "physical_join_schema left right jt =
     (let left_fields = map (\<lambda>(index, f). (output_join_field f jt True, \<lparr> ci_index = index, ci_side = Left_Side \<rparr>)) (enumerate 0 left);
          right_fields = map (\<lambda>(index, f). (output_join_field f jt False, \<lparr> ci_index = index, ci_side = Right_Side \<rparr>)) (enumerate 0 right);
          mark = [(True, \<lparr> ci_index = 0, ci_side = No_Side \<rparr>)];
          fields =
            (case jt of
               Inner \<Rightarrow> left_fields @ right_fields
             | Left \<Rightarrow> left_fields @ right_fields
             | Full \<Rightarrow> left_fields @ right_fields
             | Right \<Rightarrow> left_fields @ right_fields
             | LeftSemi \<Rightarrow> left_fields
             | LeftAnti \<Rightarrow> left_fields
             | LeftMark \<Rightarrow> left_fields @ mark
             | RightSemi \<Rightarrow> right_fields
             | RightAnti \<Rightarrow> right_fields
             | RightMark \<Rightarrow> right_fields @ mark)
      in (map fst fields, map snd fields))"

section \<open>Batches from indices\<close>

text \<open>
  The values of the mark column, and whether assembling the given columns for an output schema
  fails.
\<close>

record ('v, 'e) batch_ops =
  bo_mark :: "bool \<Rightarrow> 'v option"
  bo_try_new :: "column_index list \<Rightarrow> 'v option list list \<Rightarrow> 'e option"

text \<open>One column: all null if the input is empty or every index is null, taken by index otherwise.\<close>

definition take_column :: "'v row list \<Rightarrow> nat \<Rightarrow> nat option list \<Rightarrow> 'v option list option" where
  "take_column rows c indices =
     (if rows = [] \<or> list_all (\<lambda>i. i = None) indices
      then (if list_all (\<lambda>i. i = None) indices then Some (replicate (length indices) None) else None)
      else those (map (\<lambda>i. case i of None \<Rightarrow> Some None | Some r \<Rightarrow> do { row \<leftarrow> vec_get rows r; vec_get row c }) indices))"

definition rows_of_columns :: "nat \<Rightarrow> 'v option list list \<Rightarrow> 'v row list" where
  "rows_of_columns n columns = map (\<lambda>i. map (\<lambda>column. column ! i) columns) [0..<n]"

definition build_batch_from_indices ::
  "('v, 'e) batch_ops \<Rightarrow> 'v row list \<Rightarrow> 'v row list \<Rightarrow> nat option list \<Rightarrow> nat option list
   \<Rightarrow> column_index list \<Rightarrow> join_side \<Rightarrow> join_type \<Rightarrow> 'e join_error + 'v row list" where
  "build_batch_from_indices B build_input_buffer probe_batch build_indices probe_indices column_indices build_side jt =
     (if column_indices = [] then
        (let row_count = (if jt = RightAnti \<or> jt = RightSemi then length probe_indices else length build_indices)
         in Inr (replicate row_count []))
      else
        res_bind (or_panic (those (map (\<lambda>ci.
            if ci_side ci = No_Side then Some (map (\<lambda>i. bo_mark B (i \<noteq> None)) probe_indices)
            else if ci_side ci = build_side then take_column build_input_buffer (ci_index ci) build_indices
            else take_column probe_batch (ci_index ci) probe_indices) column_indices))) (\<lambda>columns.
          if list_all (\<lambda>column. length column = length (hd columns)) columns
          then unless_error (bo_try_new B column_indices columns) (rows_of_columns (length (hd columns)) columns)
          else Inl (Join_Internal ''all columns in a record batch must have the same length'')))"

section \<open>The filter of a join\<close>

text \<open>The columns the expression reads, and its evaluation on a batch of them.\<close>

record ('v, 'e) join_filter =
  jf_column_indices :: "column_index list"
  jf_evaluate :: "'v row list \<Rightarrow> 'e + bool option list"

definition filter_chunk ::
  "('v, 'e) batch_ops \<Rightarrow> 'v row list \<Rightarrow> 'v row list \<Rightarrow> nat list \<Rightarrow> nat list \<Rightarrow> ('v, 'e) join_filter
   \<Rightarrow> join_side \<Rightarrow> join_type \<Rightarrow> 'e join_error + bool option list" where
  "filter_chunk B build_input_buffer probe_batch build_indices probe_indices filt build_side jt =
     res_bind (build_batch_from_indices B build_input_buffer probe_batch (map Some build_indices) (map Some probe_indices)
                 (jf_column_indices filt) build_side jt) (\<lambda>intermediate_batch.
       or_error (jf_evaluate filt intermediate_batch))"

text \<open>The loop over slices of \<open>max_size\<close> pairs; \<open>step_by(0)\<close> panics.\<close>

function filter_chunks ::
  "('v, 'e) batch_ops \<Rightarrow> 'v row list \<Rightarrow> 'v row list \<Rightarrow> nat list \<Rightarrow> nat list \<Rightarrow> ('v, 'e) join_filter
   \<Rightarrow> join_side \<Rightarrow> join_type \<Rightarrow> nat \<Rightarrow> 'e join_error + bool option list" where
  "filter_chunks B bb pb bi pi filt side jt max_size =
     (if max_size = 0 then Inl Join_Panic
      else if bi = [] then Inr []
      else res_bind (filter_chunk B bb pb (take max_size bi) (take max_size pi) filt side jt) (\<lambda>flags.
           res_bind (filter_chunks B bb pb (drop max_size bi) (drop max_size pi) filt side jt max_size) (\<lambda>flags2.
             Inr (flags @ flags2))))"
  by pat_completeness auto
termination by (relation "measure (\<lambda>(_, _, _, bi, _). length bi)") auto

declare filter_chunks.simps [simp del]

text \<open>\<open>compute::filter\<close>: a null in the mask drops the element.\<close>

definition mask_filter :: "bool option list \<Rightarrow> 'a list \<Rightarrow> 'a list" where
  "mask_filter flags xs = map snd (filter (\<lambda>(m, _). m = Some True) (zip flags xs))"

definition apply_join_filter_to_indices ::
  "('v, 'e) batch_ops \<Rightarrow> 'v row list \<Rightarrow> 'v row list \<Rightarrow> nat list \<Rightarrow> nat list \<Rightarrow> ('v, 'e) join_filter
   \<Rightarrow> join_side \<Rightarrow> nat option \<Rightarrow> join_type \<Rightarrow> 'e join_error + nat list \<times> nat list" where
  "apply_join_filter_to_indices B build_input_buffer probe_batch build_indices probe_indices filt build_side
     max_intermediate_size jt =
     (if build_indices = [] \<and> probe_indices = [] then Inr (build_indices, probe_indices)
      else res_bind
        (case max_intermediate_size of
           Some max_size \<Rightarrow>
             filter_chunks B build_input_buffer probe_batch build_indices probe_indices filt build_side jt max_size
         | None \<Rightarrow> filter_chunk B build_input_buffer probe_batch build_indices probe_indices filt build_side jt)
        (\<lambda>flags. Inr (mask_filter flags build_indices, mask_filter flags probe_indices)))"

section \<open>Batch transformers\<close>

datatype 'v transformer =
  Noop "'v row list option"
| Splitter "'v row list option" nat nat

definition noop_new :: "'v transformer" where
  "noop_new = Noop None"

definition splitter_new :: "nat \<Rightarrow> 'v transformer" where
  "splitter_new batch_size = Splitter None batch_size 0"

fun set_batch :: "'v transformer \<Rightarrow> 'v row list \<Rightarrow> 'v transformer" where
  "set_batch (Noop _) batch = Noop (Some batch)"
| "set_batch (Splitter _ batch_size row_index) batch = Splitter (Some batch) batch_size 0"

fun transformer_next :: "'v transformer \<Rightarrow> ('v row list \<times> bool) option \<times> 'v transformer" where
  "transformer_next (Noop batch) = (map_option (\<lambda>b. (b, True)) batch, Noop None)"
| "transformer_next (Splitter None batch_size row_index) = (None, Splitter None batch_size row_index)"
| "transformer_next (Splitter (Some batch) batch_size row_index) =
     (let remaining_rows = length batch - row_index;
          rows_to_slice = min remaining_rows batch_size;
          sliced_batch = take rows_to_slice (drop row_index batch);
          row_index' = row_index + rows_to_slice
      in if length batch \<le> row_index' then (Some (sliced_batch, True), Splitter None batch_size row_index')
         else (Some (sliced_batch, False), Splitter (Some batch) batch_size row_index'))"

section \<open>The rows of a batch built from indices\<close>

text \<open>The value of a column in the output row of a pair of optional rows.\<close>

fun cell :: "('v, 'e) batch_ops \<Rightarrow> join_side \<Rightarrow> 'v row option \<Rightarrow> 'v row option \<Rightarrow> column_index \<Rightarrow> 'v option" where
  "cell B side b p ci =
     (if ci_side ci = No_Side then bo_mark B (p \<noteq> None)
      else if ci_side ci = side then (case b of None \<Rightarrow> None | Some row \<Rightarrow> row ! ci_index ci)
      else (case p of None \<Rightarrow> None | Some row \<Rightarrow> row ! ci_index ci))"

declare cell.simps [simp del]

definition pick :: "'v row list \<Rightarrow> nat option \<Rightarrow> 'v row option" where
  "pick rows i = map_option ((!) rows) i"

lemma pick_simps [simp]: "pick rows None = None" "pick rows (Some i) = Some (rows ! i)"
  by (simp_all add: pick_def)

lemma those_map_Some: "(\<forall>x \<in> set xs. f x = Some (g x)) \<Longrightarrow> those (map f xs) = Some (map g xs)"
  by (induction xs) auto

definition indices_ok :: "'v row list \<Rightarrow> nat \<Rightarrow> nat option list \<Rightarrow> bool" where
  "indices_ok rows n is \<longleftrightarrow> (\<forall>i. Some i \<in> set is \<longrightarrow> i < length rows) \<and> (\<forall>row \<in> set rows. length row = n)"

lemma take_column_spec:
  assumes ok: "indices_ok rows n is" and c: "c < n"
  shows "take_column rows c is = Some (map (\<lambda>i. case pick rows i of None \<Rightarrow> None | Some row \<Rightarrow> row ! c) is)"
proof (cases "list_all (\<lambda>i. i = None) is")
  case True
  then have "map (\<lambda>i. case pick rows i of None \<Rightarrow> None | Some row \<Rightarrow> row ! c) is = replicate (length is) None"
    by (induction "is") auto
  then show ?thesis using True by (simp add: take_column_def)
next
  case False
  have "those (map (\<lambda>i. case i of None \<Rightarrow> Some None | Some r \<Rightarrow> do { row \<leftarrow> vec_get rows r; vec_get row c }) is)
      = Some (map (\<lambda>i. case pick rows i of None \<Rightarrow> None | Some row \<Rightarrow> row ! c) is)"
    using ok c by (intro those_map_Some) (auto simp: indices_ok_def split: option.split)
  moreover have "rows \<noteq> []" using False ok by (auto simp: list_all_iff indices_ok_def)
  ultimately show ?thesis using False by (auto simp: take_column_def)
qed

text \<open>The number of columns a side has.\<close>

definition column_ok :: "join_side \<Rightarrow> nat \<Rightarrow> nat \<Rightarrow> column_index \<Rightarrow> bool" where
  "column_ok side nb np ci \<longleftrightarrow> ci_side ci = No_Side \<or> (if ci_side ci = side then ci_index ci < nb else ci_index ci < np)"

lemma rows_of_columns_map:
  "rows_of_columns (length ps) (map (\<lambda>ci. map (f ci) ps) cis) = map (\<lambda>p. map (\<lambda>ci. f ci p) cis) ps"
  by (rule nth_equalityI) (auto simp: rows_of_columns_def)

lemma build_batch_spec:
  assumes bi: "indices_ok bb nb bi"
    and pi: "\<And>ci. ci \<in> set cis \<Longrightarrow> ci_side ci \<noteq> No_Side \<Longrightarrow> ci_side ci \<noteq> side \<Longrightarrow> indices_ok pb np pi"
    and len: "length bi = length pi" and cis: "\<forall>ci \<in> set cis. column_ok side nb np ci"
  shows "sound (\<lambda>rows. rows = map (\<lambda>(b, p). map (cell B side (pick bb b) (pick pb p)) cis) (zip bi pi))
    (build_batch_from_indices B bb pb bi pi cis side jt)"
proof (cases "cis = []")
  case True
  then show ?thesis using len by (simp add: build_batch_from_indices_def Let_def case_prod_unfold map_replicate_const)
next
  case False
  let ?f = "\<lambda>ci (b, p). cell B side (pick bb b) (pick pb p) ci"
  let ?cols = "map (\<lambda>ci. map (?f ci) (zip bi pi)) cis"
  have "(if ci_side ci = No_Side then Some (map (\<lambda>i. bo_mark B (i \<noteq> None)) pi)
      else if ci_side ci = side then take_column bb (ci_index ci) bi else take_column pb (ci_index ci) pi)
      = Some (map (?f ci) (zip bi pi))" if "ci \<in> set cis" for ci
  proof -
    have ok: "column_ok side nb np ci" using that cis by blast
    have fst: "map (\<lambda>(b, p). g b) (zip bi pi) = map g bi" for g :: "nat option \<Rightarrow> 'a option"
      using len by (intro nth_equalityI) auto
    have snd: "map (\<lambda>(b, p). g p) (zip bi pi) = map g pi" for g :: "nat option \<Rightarrow> 'a option"
      using len by (intro nth_equalityI) auto
    consider "ci_side ci = No_Side" | "ci_side ci \<noteq> No_Side" "ci_side ci = side" | "ci_side ci \<noteq> No_Side" "ci_side ci \<noteq> side"
      by blast
    then show ?thesis
    proof cases
      case 1
      then show ?thesis by (simp add: cell.simps snd pick_def)
    next
      case 2
      then show ?thesis using take_column_spec [OF bi, of "ci_index ci"] ok by (simp add: cell.simps fst column_ok_def)
    next
      case 3
      then show ?thesis using take_column_spec [OF pi [OF that], of "ci_index ci"] ok by (simp add: cell.simps snd column_ok_def)
    qed
  qed
  then have "those (map (\<lambda>ci. if ci_side ci = No_Side then Some (map (\<lambda>i. bo_mark B (i \<noteq> None)) pi)
      else if ci_side ci = side then take_column bb (ci_index ci) bi else take_column pb (ci_index ci) pi) cis) = Some ?cols"
    by (intro those_map_Some) blast
  moreover have "list_all (\<lambda>column. length column = length (hd ?cols)) ?cols" "length (hd ?cols) = length (zip bi pi)"
    using False len by (auto simp: list_all_iff hd_map)
  ultimately show ?thesis
    using False rows_of_columns_map [of "zip bi pi" ?f cis]
    by (simp add: build_batch_from_indices_def case_prod_unfold sound_unless_error)
qed

section \<open>The filter keeps the accepted pairs\<close>

definition filter_ok :: "('v, 'e) join_filter \<Rightarrow> ('v row \<Rightarrow> bool option) \<Rightarrow> bool" where
  "filter_ok filt fp \<longleftrightarrow> (\<forall>rows flags. jf_evaluate filt rows = Inr flags \<longrightarrow> flags = map fp rows)"

definition pair_accepted ::
  "('v, 'e) batch_ops \<Rightarrow> ('v, 'e) join_filter \<Rightarrow> ('v row \<Rightarrow> bool option) \<Rightarrow> join_side \<Rightarrow> 'v row \<Rightarrow> 'v row \<Rightarrow> bool" where
  "pair_accepted B filt fp side b p \<longleftrightarrow> fp (map (cell B side (Some b) (Some p)) (jf_column_indices filt)) = Some True"

lemma pair_accepted_swap:
  assumes "side = Left_Side \<or> side = Right_Side"
  shows "pair_accepted B filt fp side b p \<longleftrightarrow> pair_accepted B filt fp (negate side) p b"
proof -
  have "cell B side (Some b) (Some p) = cell B (negate side) (Some p) (Some b)"
  proof
    show "cell B side (Some b) (Some p) ci = cell B (negate side) (Some p) (Some b) ci" for ci
      using assms by (cases "ci_side ci") (auto simp: cell.simps)
  qed
  then show ?thesis by (simp add: pair_accepted_def)
qed

lemma mask_filter_map: "mask_filter (map f xs) (map g xs) = map g (filter (\<lambda>x. f x = Some True) xs)"
  by (induction xs) (auto simp: mask_filter_def)

lemma filter_chunk_spec:
  assumes f: "filter_ok filt fp" and cis: "\<forall>ci \<in> set (jf_column_indices filt). column_ok side nb np ci"
    and bb: "\<forall>row \<in> set bb. length row = nb" and pb: "\<forall>row \<in> set pb. length row = np"
    and ps: "\<forall>(i, j) \<in> set ps. i < length bb \<and> j < length pb"
  shows "sound (\<lambda>flags. flags = map (\<lambda>(i, j). fp (map (cell B side (Some (bb ! i)) (Some (pb ! j))) (jf_column_indices filt))) ps)
    (filter_chunk B bb pb (map fst ps) (map snd ps) filt side jt)"
  unfolding filter_chunk_def
proof (rule sound_bind [OF build_batch_spec])
  show "indices_ok bb nb (map Some (map fst ps))" "indices_ok pb np (map Some (map snd ps))"
    using bb pb ps by (auto simp: indices_ok_def)
  fix rows
  assume "rows = map (\<lambda>(b, p). map (cell B side (pick bb b) (pick pb p)) (jf_column_indices filt))
      (zip (map Some (map fst ps)) (map Some (map snd ps)))"
  moreover have "zip (map Some (map fst ps)) (map Some (map snd ps)) = map (\<lambda>(i, j). (Some i, Some j)) ps"
    by (induction ps) auto
  ultimately have rows: "rows = map (\<lambda>(i, j). map (cell B side (Some (bb ! i)) (Some (pb ! j))) (jf_column_indices filt)) ps"
    by (simp add: comp_def case_prod_unfold)
  have "map fp rows = map (\<lambda>(i, j). fp (map (cell B side (Some (bb ! i)) (Some (pb ! j))) (jf_column_indices filt))) ps"
    unfolding rows by (simp add: case_prod_unfold)
  then show "sound (\<lambda>flags. flags = map (\<lambda>(i, j). fp (map (cell B side (Some (bb ! i)) (Some (pb ! j))) (jf_column_indices filt))) ps)
      (or_error (jf_evaluate filt rows))"
    using f unfolding filter_ok_def by (intro sound_or_error) metis
qed (use cis in simp_all)

lemma filter_chunks_spec:
  assumes f: "filter_ok filt fp" and cis: "\<forall>ci \<in> set (jf_column_indices filt). column_ok side nb np ci"
    and bb: "\<forall>row \<in> set bb. length row = nb" and pb: "\<forall>row \<in> set pb. length row = np" and max: "0 < max_size"
  shows "\<forall>(i, j) \<in> set ps. i < length bb \<and> j < length pb \<Longrightarrow>
    sound (\<lambda>flags. flags = map (\<lambda>(i, j). fp (map (cell B side (Some (bb ! i)) (Some (pb ! j))) (jf_column_indices filt))) ps)
      (filter_chunks B bb pb (map fst ps) (map snd ps) filt side jt max_size)"
proof (induction ps rule: length_induct)
  case (1 ps)
  let ?m = "\<lambda>ps. map (\<lambda>(i, j). fp (map (cell B side (Some (bb ! i)) (Some (pb ! j))) (jf_column_indices filt))) ps"
  show ?case
  proof (cases "ps = []")
    case True
    then show ?thesis using max by (simp add: filter_chunks.simps)
  next
    case False
    have rest: "sound (\<lambda>flags. flags = ?m (drop max_size ps))
        (filter_chunks B bb pb (map fst (drop max_size ps)) (map snd (drop max_size ps)) filt side jt max_size)"
      using False max "1.prems" by (intro "1.IH" [rule_format]) (auto dest: in_set_dropD)
    have "\<forall>(i, j) \<in> set (take max_size ps). i < length bb \<and> j < length pb"
      using "1.prems" by (auto dest: in_set_takeD)
    note chunk = filter_chunk_spec [OF f cis bb pb this, of B jt]
    have "?m ps = ?m (take max_size ps) @ ?m (drop max_size ps)" by (metis append_take_drop_id map_append)
    then have "sound (\<lambda>flags. flags = ?m ps) (res_bind (filter_chunk B bb pb (map fst (take max_size ps)) (map snd (take max_size ps)) filt side jt) (\<lambda>flags.
           res_bind (filter_chunks B bb pb (map fst (drop max_size ps)) (map snd (drop max_size ps)) filt side jt max_size) (\<lambda>flags2.
             Inr (flags @ flags2))))"
      by (intro sound_bind [OF chunk] sound_bind [OF rest]) simp
    then show ?thesis
      using False max by (subst filter_chunks.simps) (simp add: take_map drop_map)
  qed
qed

lemma apply_join_filter_spec:
  assumes f: "filter_ok filt fp" and cis: "\<forall>ci \<in> set (jf_column_indices filt). column_ok side nb np ci"
    and bb: "\<forall>row \<in> set bb. length row = nb" and pb: "\<forall>row \<in> set pb. length row = np"
    and ps: "\<forall>(i, j) \<in> set ps. i < length bb \<and> j < length pb" and max: "max_size \<noteq> Some 0"
  shows "sound (\<lambda>res. res = (let qs = filter (\<lambda>(i, j). pair_accepted B filt fp side (bb ! i) (pb ! j)) ps in (map fst qs, map snd qs)))
    (apply_join_filter_to_indices B bb pb (map fst ps) (map snd ps) filt side max_size jt)"
proof (cases "ps = []")
  case False
  let ?m = "map (\<lambda>(i, j). fp (map (cell B side (Some (bb ! i)) (Some (pb ! j))) (jf_column_indices filt))) ps"
  have flags: "sound (\<lambda>flags. flags = ?m)
    (case max_size of
       Some max_size \<Rightarrow> filter_chunks B bb pb (map fst ps) (map snd ps) filt side jt max_size
     | None \<Rightarrow> filter_chunk B bb pb (map fst ps) (map snd ps) filt side jt)"
    using filter_chunks_spec [OF f cis bb pb _ ps] filter_chunk_spec [OF f cis bb pb ps] max
    by (cases max_size) auto
  have "(\<lambda>x. (case x of (i, j) \<Rightarrow> fp (map (cell B side (Some (bb ! i)) (Some (pb ! j))) (jf_column_indices filt))) = Some True)
      = (\<lambda>(i, j). pair_accepted B filt fp side (bb ! i) (pb ! j))"
    by (auto simp: pair_accepted_def)
  then show ?thesis
    using False unfolding apply_join_filter_to_indices_def
    by (auto simp: mask_filter_map Let_def intro!: sound_bind [OF flags])
qed (simp add: apply_join_filter_to_indices_def)

section \<open>Columns of the output rows\<close>

definition side_columns :: "join_side \<Rightarrow> nat \<Rightarrow> column_index list" where
  "side_columns side n = map (\<lambda>i. \<lparr> ci_index = i, ci_side = side \<rparr>) [0..<n]"

lemma physical_join_columns:
  "snd (physical_join_schema left right jt) =
     (let l = side_columns Left_Side (length left); r = side_columns Right_Side (length right);
          m = [\<lparr> ci_index = 0, ci_side = No_Side \<rparr>]
      in case jt of LeftSemi \<Rightarrow> l | LeftAnti \<Rightarrow> l | LeftMark \<Rightarrow> l @ m
         | RightSemi \<Rightarrow> r | RightAnti \<Rightarrow> r | RightMark \<Rightarrow> r @ m | _ \<Rightarrow> l @ r)"
proof -
  have "map (\<lambda>x. snd (case x of (index, f) \<Rightarrow> (g f, \<lparr> ci_index = index, ci_side = side \<rparr>))) (enumerate 0 xs) = side_columns side (length xs)"
    for g :: "bool \<Rightarrow> bool" and side and xs :: "bool list"
    by (rule nth_equalityI) (auto simp: side_columns_def nth_enumerate_eq)
  then show ?thesis by (simp add: physical_join_schema_def Let_def comp_def split: join_type.split)
qed

lemma cells_side_columns:
  assumes "side' \<noteq> No_Side"
  shows "map (cell B side b p) (side_columns side' n)
    = (case (if side' = side then b else p) of None \<Rightarrow> replicate n None | Some row \<Rightarrow> map ((!) row) [0..<n])"
  using assms by (auto simp: side_columns_def cell.simps comp_def map_replicate_trivial map_replicate_const split: option.split)

end
