(* ===== verification/Symmetric_Join.thy ===== *)
theory Symmetric_Join
  imports Pruning_Map Join_Batch
begin

text \<open>
  The symmetric hash join (\<open>physical-plan/src/joins/symmetric_hash_join.rs\<close>): both inputs are
  buffered and hashed, each arriving batch is joined with the buffer of the other side, and rows
  that can no longer match are pruned, with the output an outer, semi, anti or mark join owes them.
  An input stream is the list of what its polls return.  The analysis that determines how many rows
  may be pruned and the update of the memory reservation are operations on an outer state \<open>'x\<close>.
\<close>

section \<open>State\<close>

datatype shj_state = PullRight | PullLeft | RightExhausted | LeftExhausted | BothExhausted bool

datatype ('v, 'e) input_poll = Input_Pending | Input_Item "'e + 'v row list"

record ('v, 'e, 'x) shj_ops =
  so_keys :: "('v, 'e) key_ops"
  so_batch :: "('v, 'e) batch_ops"
  so_filter :: "('v, 'e) join_filter option"
  so_join_type :: join_type
  so_column_indices :: "column_index list"
  so_prune_length :: "('x \<Rightarrow> join_side \<Rightarrow> 'v row list \<Rightarrow> 'v row list \<Rightarrow> 'e + nat \<times> 'x) option"
  so_try_resize :: "'x \<Rightarrow> 'v joiner \<Rightarrow> 'v joiner \<Rightarrow> 'v transformer \<Rightarrow> 'e + 'x"

record ('v, 'e, 'x) shj =
  sh_left_stream :: "('v, 'e) input_poll list"
  sh_right_stream :: "('v, 'e) input_poll list"
  sh_left :: "'v joiner"
  sh_right :: "'v joiner"
  sh_state :: shj_state
  sh_transformer :: "'v transformer"
  sh_outer :: 'x

definition shj_new ::
  "('v, 'e) input_poll list \<Rightarrow> ('v, 'e) input_poll list \<Rightarrow> 'v transformer \<Rightarrow> 'x \<Rightarrow> ('v, 'e, 'x) shj" where
  "shj_new left_stream right_stream batch_transformer x =
     \<lparr> sh_left_stream = left_stream, sh_right_stream = right_stream, sh_left = joiner_new Left_Side,
       sh_right = joiner_new Right_Side, sh_state = PullRight, sh_transformer = batch_transformer, sh_outer = x \<rparr>"

section \<open>Results for pruned rows\<close>

definition need_to_produce_result_in_final :: "join_side \<Rightarrow> join_type \<Rightarrow> bool" where
  "need_to_produce_result_in_final build_side jt \<longleftrightarrow>
     (if build_side = Left_Side then jt \<in> set [Left, LeftAnti, Full, LeftSemi, LeftMark]
      else jt \<in> set [Right, RightAnti, Full, RightSemi, RightMark])"

definition get_pruning_anti_indices :: "nat \<Rightarrow> nat \<Rightarrow> nat set \<Rightarrow> nat list" where
  "get_pruning_anti_indices prune_length deleted_offset visited_rows =
     (let bitmap = map (\<lambda>v. v + deleted_offset \<in> visited_rows) [0..<prune_length]
      in filter (\<lambda>idx. \<not> bitmap ! idx) [0..<prune_length])"

definition get_pruning_semi_indices :: "nat \<Rightarrow> nat \<Rightarrow> nat set \<Rightarrow> nat list" where
  "get_pruning_semi_indices prune_length deleted_offset visited_rows =
     (let bitmap = map (\<lambda>v. v + deleted_offset \<in> visited_rows) [0..<prune_length]
      in filter (\<lambda>idx. bitmap ! idx) [0..<prune_length])"

text \<open>The indices into the build side and the probe side; \<open>None\<close> is the unreachable case.\<close>

definition calculate_indices_by_join_type ::
  "join_side \<Rightarrow> nat \<Rightarrow> nat set \<Rightarrow> nat \<Rightarrow> join_type \<Rightarrow> (nat option list \<times> nat option list) option" where
  "calculate_indices_by_join_type build_side prune_length visited_rows deleted_offset jt =
     (if build_side = Left_Side \<and> jt = LeftMark \<or> build_side = Right_Side \<and> jt = RightMark then
        Some (map Some [0..<prune_length],
              map (\<lambda>idx. if idx + deleted_offset \<in> visited_rows then Some 0 else None) [0..<prune_length])
      else if build_side = Left_Side \<and> (jt = Left \<or> jt = LeftAnti)
           \<or> build_side = Right_Side \<and> (jt = Right \<or> jt = RightAnti) \<or> jt = Full then
        (let build_unmatched_indices = get_pruning_anti_indices prune_length deleted_offset visited_rows
         in Some (map Some build_unmatched_indices, replicate (length build_unmatched_indices) None))
      else if build_side = Left_Side \<and> jt = LeftSemi \<or> build_side = Right_Side \<and> jt = RightSemi then
        (let build_unmatched_indices = get_pruning_semi_indices prune_length deleted_offset visited_rows
         in Some (map Some build_unmatched_indices, replicate (length build_unmatched_indices) None))
      else None)"

definition some_if_rows :: "'v row list \<Rightarrow> 'v row list option" where
  "some_if_rows batch = (if batch \<noteq> [] then Some batch else None)"

definition build_side_determined_results ::
  "('v, 'e, 'x) shj_ops \<Rightarrow> 'v joiner \<Rightarrow> nat \<Rightarrow> 'e join_error + 'v row list option" where
  "build_side_determined_results J build_hash_joiner prune_length =
     (if 0 < prune_length \<and> need_to_produce_result_in_final (j_build_side build_hash_joiner) (so_join_type J) then
        res_bind (or_panic (calculate_indices_by_join_type (j_build_side build_hash_joiner) prune_length
                     (j_visited_rows build_hash_joiner) (j_deleted_offset build_hash_joiner) (so_join_type J)))
          (\<lambda>(build_indices, probe_indices).
        res_bind (build_batch_from_indices (so_batch J) (j_input_buffer build_hash_joiner) [] build_indices probe_indices
                    (so_column_indices J) (j_build_side build_hash_joiner) (so_join_type J)) (\<lambda>batch.
          Inr (some_if_rows batch)))
      else Inr None)"

section \<open>Joining a batch\<close>

definition record_visited_indices :: "nat set \<Rightarrow> nat \<Rightarrow> nat list \<Rightarrow> nat set" where
  "record_visited_indices visited offset indices = visited \<union> (\<lambda>i. i + offset) ` set indices"

definition lookup_join_hashmap ::
  "('v, 'e) key_ops \<Rightarrow> pruning_map \<Rightarrow> 'v row list \<Rightarrow> 'v row list \<Rightarrow> join_side \<Rightarrow> nat option
   \<Rightarrow> 'e join_error + nat list \<times> nat list" where
  "lookup_join_hashmap K build_hashmap build_batch probe_batch build_side deleted_offset =
     res_bind (or_error (ko_eval K (negate build_side) probe_batch)) (\<lambda>keys_values.
     res_bind (or_error (ko_eval K build_side build_batch)) (\<lambda>build_join_values.
     res_bind (or_error (ko_hashes K keys_values)) (\<lambda>hash_values.
       (let valid_keys = matchable_join_keys keys_values (ko_null_equality K)
        in res_bind (or_panic (pm_get_matched_indices build_hashmap (rev (valid_rows hash_values valid_keys)) deleted_offset))
             (\<lambda>(matched_probe, matched_build).
               equal_rows_arr K (map unat (rev matched_build)) (map unat (rev matched_probe))
                 build_join_values (ko_on K) keys_values (ko_on K))))))"

definition join_with_probe_batch ::
  "('v, 'e, 'x) shj_ops \<Rightarrow> 'v joiner \<Rightarrow> 'v joiner \<Rightarrow> 'v row list
   \<Rightarrow> 'e join_error + 'v row list option \<times> 'v joiner \<times> 'v joiner" where
  "join_with_probe_batch J build_hash_joiner probe_hash_joiner probe_batch =
     (if j_input_buffer build_hash_joiner = [] \<or> probe_batch = []
      then Inr (None, build_hash_joiner, probe_hash_joiner)
      else
        res_bind (lookup_join_hashmap (so_keys J) (j_hashmap build_hash_joiner) (j_input_buffer build_hash_joiner)
                    probe_batch (j_build_side build_hash_joiner) (Some (j_deleted_offset build_hash_joiner)))
          (\<lambda>(build_indices, probe_indices).
        res_bind
          (case so_filter J of
             Some filt \<Rightarrow> apply_join_filter_to_indices (so_batch J) (j_input_buffer build_hash_joiner) probe_batch
                build_indices probe_indices filt (j_build_side build_hash_joiner) None (so_join_type J)
           | None \<Rightarrow> Inr (build_indices, probe_indices))
          (\<lambda>(build_indices, probe_indices).
            (let build1 = (if need_to_produce_result_in_final (j_build_side build_hash_joiner) (so_join_type J)
                   then build_hash_joiner\<lparr>j_visited_rows := record_visited_indices (j_visited_rows build_hash_joiner)
                          (j_deleted_offset build_hash_joiner) build_indices\<rparr>
                   else build_hash_joiner);
                 probe1 = (if need_to_produce_result_in_final (negate (j_build_side build_hash_joiner)) (so_join_type J)
                   then probe_hash_joiner\<lparr>j_visited_rows := record_visited_indices (j_visited_rows probe_hash_joiner)
                          (j_offset probe_hash_joiner) probe_indices\<rparr>
                   else probe_hash_joiner)
             in if so_join_type J \<in> set [LeftAnti, RightAnti, LeftSemi, LeftMark, RightSemi, RightMark]
                then Inr (None, build1, probe1)
                else res_bind (build_batch_from_indices (so_batch J) (j_input_buffer build_hash_joiner) probe_batch
                       (map Some build_indices) (map Some probe_indices) (so_column_indices J)
                       (j_build_side build_hash_joiner) (so_join_type J)) (\<lambda>batch.
                     Inr (some_if_rows batch, build1, probe1))))))"

definition combine_two_batches ::
  "('v, 'e) key_ops \<Rightarrow> 'v row list option \<Rightarrow> 'v row list option \<Rightarrow> 'e join_error + 'v row list option" where
  "combine_two_batches K left_batch right_batch =
     (case (left_batch, right_batch) of
        (Some batch, None) \<Rightarrow> Inr (Some batch)
      | (None, Some batch) \<Rightarrow> Inr (Some batch)
      | (Some left, Some right) \<Rightarrow> unless_error (ko_concat K left right) (Some (left @ right))
      | (None, None) \<Rightarrow> Inr None)"

definition update_reservation :: "('v, 'e, 'x) shj_ops \<Rightarrow> ('v, 'e, 'x) shj \<Rightarrow> 'e join_error + ('v, 'e, 'x) shj" where
  "update_reservation J s =
     res_bind (or_error (so_try_resize J (sh_outer s) (sh_left s) (sh_right s) (sh_transformer s))) (\<lambda>x.
       Inr (s\<lparr>sh_outer := x\<rparr>))"

definition side_joiner :: "join_side \<Rightarrow> ('v, 'e, 'x) shj \<Rightarrow> 'v joiner" where
  "side_joiner side s = (if side = Left_Side then sh_left s else sh_right s)"

definition set_joiners :: "join_side \<Rightarrow> 'v joiner \<Rightarrow> 'v joiner \<Rightarrow> ('v, 'e, 'x) shj \<Rightarrow> ('v, 'e, 'x) shj" where
  "set_joiners probe_side probe build s =
     (if probe_side = Left_Side then s\<lparr>sh_left := probe, sh_right := build\<rparr> else s\<lparr>sh_right := probe, sh_left := build\<rparr>)"

definition perform_join_for_given_side ::
  "('v, 'e, 'x) shj_ops \<Rightarrow> ('v, 'e, 'x) shj \<Rightarrow> 'v row list \<Rightarrow> join_side
   \<Rightarrow> 'e join_error + 'v row list option \<times> ('v, 'e, 'x) shj" where
  "perform_join_for_given_side J s probe_batch probe_side =
     res_bind (update_internal_state (so_keys J) (side_joiner probe_side s) probe_batch) (\<lambda>probe1.
     res_bind (join_with_probe_batch J (side_joiner (negate probe_side) s) probe1 probe_batch) (\<lambda>(equal_result, build1, probe2).
       (let probe3 = probe2\<lparr>j_offset := j_offset probe2 + length probe_batch\<rparr>
        in res_bind
             (case so_prune_length J of
                Some prune \<Rightarrow>
                  res_bind (or_error (prune (sh_outer s) (j_build_side build1) (j_input_buffer build1) probe_batch)) (\<lambda>(prune_length, x).
                  res_bind (build_side_determined_results J build1 prune_length) (\<lambda>result.
                  res_bind (prune_internal_state build1 prune_length) (\<lambda>build2.
                    Inr (result, build2, x))))
              | None \<Rightarrow> Inr (None, build1, sh_outer s))
             (\<lambda>(anti_result, build2, x).
               res_bind (combine_two_batches (so_keys J) equal_result anti_result) (\<lambda>result.
               res_bind (update_reservation J ((set_joiners probe_side probe3 build2 s)\<lparr>sh_outer := x\<rparr>)) (\<lambda>s'.
                 Inr (result, s')))))))"

section \<open>The stream\<close>

datatype 'v stateful_result = Continue | Ready_With "'v row list option"

datatype 'a polling = Not_Ready | Is_Ready 'a

definition process_batch ::
  "('v, 'e, 'x) shj_ops \<Rightarrow> ('v, 'e, 'x) shj \<Rightarrow> 'v row list \<Rightarrow> join_side
   \<Rightarrow> 'e join_error + 'v stateful_result polling \<times> ('v, 'e, 'x) shj" where
  "process_batch J s batch side =
     res_bind (perform_join_for_given_side J s batch side) (\<lambda>(maybe_batch, s').
       Inr (Is_Ready (if maybe_batch \<noteq> None then Ready_With maybe_batch else Continue), s'))"

definition process_batch_from_right ::
  "('v, 'e, 'x) shj_ops \<Rightarrow> ('v, 'e, 'x) shj \<Rightarrow> 'v row list
   \<Rightarrow> 'e join_error + 'v stateful_result polling \<times> ('v, 'e, 'x) shj" where
  [simp]: "process_batch_from_right J s batch = process_batch J s batch Right_Side"

definition process_batch_from_left ::
  "('v, 'e, 'x) shj_ops \<Rightarrow> ('v, 'e, 'x) shj \<Rightarrow> 'v row list
   \<Rightarrow> 'e join_error + 'v stateful_result polling \<times> ('v, 'e, 'x) shj" where
  [simp]: "process_batch_from_left J s batch = process_batch J s batch Left_Side"

definition process_batch_after_left_end ::
  "('v, 'e, 'x) shj_ops \<Rightarrow> ('v, 'e, 'x) shj \<Rightarrow> 'v row list
   \<Rightarrow> 'e join_error + 'v stateful_result polling \<times> ('v, 'e, 'x) shj" where
  [simp]: "process_batch_after_left_end J s right_batch = process_batch_from_right J s right_batch"

definition process_batch_after_right_end ::
  "('v, 'e, 'x) shj_ops \<Rightarrow> ('v, 'e, 'x) shj \<Rightarrow> 'v row list
   \<Rightarrow> 'e join_error + 'v stateful_result polling \<times> ('v, 'e, 'x) shj" where
  [simp]: "process_batch_after_right_end J s left_batch = process_batch_from_left J s left_batch"

definition fetch_next_from_right_stream ::
  "('v, 'e, 'x) shj_ops \<Rightarrow> ('v, 'e, 'x) shj \<Rightarrow> 'e join_error + 'v stateful_result polling \<times> ('v, 'e, 'x) shj" where
  "fetch_next_from_right_stream J s =
     (case sh_right_stream s of
        [] \<Rightarrow> Inr (Is_Ready Continue, s\<lparr>sh_right_stream := [], sh_state := RightExhausted\<rparr>)
      | Input_Pending # rest \<Rightarrow> Inr (Not_Ready, s\<lparr>sh_right_stream := rest\<rparr>)
      | Input_Item (Inl e) # rest \<Rightarrow> Inl (Join_Failed e)
      | Input_Item (Inr batch) # rest \<Rightarrow>
          (let s1 = s\<lparr>sh_right_stream := rest\<rparr>
           in if length batch = 0 then Inr (Is_Ready Continue, s1)
              else process_batch_from_right J (s1\<lparr>sh_state := PullLeft\<rparr>) batch))"

definition fetch_next_from_left_stream ::
  "('v, 'e, 'x) shj_ops \<Rightarrow> ('v, 'e, 'x) shj \<Rightarrow> 'e join_error + 'v stateful_result polling \<times> ('v, 'e, 'x) shj" where
  "fetch_next_from_left_stream J s =
     (case sh_left_stream s of
        [] \<Rightarrow> Inr (Is_Ready Continue, s\<lparr>sh_left_stream := [], sh_state := LeftExhausted\<rparr>)
      | Input_Pending # rest \<Rightarrow> Inr (Not_Ready, s\<lparr>sh_left_stream := rest\<rparr>)
      | Input_Item (Inl e) # rest \<Rightarrow> Inl (Join_Failed e)
      | Input_Item (Inr batch) # rest \<Rightarrow>
          (let s1 = s\<lparr>sh_left_stream := rest\<rparr>
           in if length batch = 0 then Inr (Is_Ready Continue, s1)
              else process_batch_from_left J (s1\<lparr>sh_state := PullRight\<rparr>) batch))"

definition handle_right_stream_end ::
  "('v, 'e, 'x) shj_ops \<Rightarrow> ('v, 'e, 'x) shj \<Rightarrow> 'e join_error + 'v stateful_result polling \<times> ('v, 'e, 'x) shj" where
  "handle_right_stream_end J s =
     (case sh_left_stream s of
        [] \<Rightarrow> Inr (Is_Ready Continue, s\<lparr>sh_left_stream := [], sh_state := BothExhausted False\<rparr>)
      | Input_Pending # rest \<Rightarrow> Inr (Not_Ready, s\<lparr>sh_left_stream := rest\<rparr>)
      | Input_Item (Inl e) # rest \<Rightarrow> Inl (Join_Failed e)
      | Input_Item (Inr batch) # rest \<Rightarrow>
          (let s1 = s\<lparr>sh_left_stream := rest\<rparr>
           in if length batch = 0 then Inr (Is_Ready Continue, s1) else process_batch_after_right_end J s1 batch))"

definition handle_left_stream_end ::
  "('v, 'e, 'x) shj_ops \<Rightarrow> ('v, 'e, 'x) shj \<Rightarrow> 'e join_error + 'v stateful_result polling \<times> ('v, 'e, 'x) shj" where
  "handle_left_stream_end J s =
     (case sh_right_stream s of
        [] \<Rightarrow> Inr (Is_Ready Continue, s\<lparr>sh_right_stream := [], sh_state := BothExhausted False\<rparr>)
      | Input_Pending # rest \<Rightarrow> Inr (Not_Ready, s\<lparr>sh_right_stream := rest\<rparr>)
      | Input_Item (Inl e) # rest \<Rightarrow> Inl (Join_Failed e)
      | Input_Item (Inr batch) # rest \<Rightarrow>
          (let s1 = s\<lparr>sh_right_stream := rest\<rparr>
           in if length batch = 0 then Inr (Is_Ready Continue, s1) else process_batch_after_left_end J s1 batch))"

definition process_batches_before_finalization ::
  "('v, 'e, 'x) shj_ops \<Rightarrow> ('v, 'e, 'x) shj \<Rightarrow> 'e join_error + 'v stateful_result" where
  "process_batches_before_finalization J s =
     res_bind (build_side_determined_results J (sh_left s) (length (j_input_buffer (sh_left s)))) (\<lambda>left_result.
     res_bind (build_side_determined_results J (sh_right s) (length (j_input_buffer (sh_right s)))) (\<lambda>right_result.
     res_bind (combine_two_batches (so_keys J) left_result right_result) (\<lambda>result.
       Inr (if result \<noteq> None then Ready_With result else Continue))))"

definition prepare_for_final_results_after_exhaustion ::
  "('v, 'e, 'x) shj_ops \<Rightarrow> ('v, 'e, 'x) shj \<Rightarrow> 'e join_error + 'v stateful_result polling \<times> ('v, 'e, 'x) shj" where
  "prepare_for_final_results_after_exhaustion J s =
     (let s1 = s\<lparr>sh_state := BothExhausted True\<rparr>
      in res_bind (process_batches_before_finalization J s1) (\<lambda>r. Inr (Is_Ready r, s1)))"

text \<open>The match on the state in the loop of \<open>poll_next_impl\<close>; \<open>Ready_With None\<close> ends the stream.\<close>

definition state_step ::
  "('v, 'e, 'x) shj_ops \<Rightarrow> ('v, 'e, 'x) shj \<Rightarrow> 'e join_error + 'v stateful_result polling \<times> ('v, 'e, 'x) shj" where
  "state_step J s =
     (case sh_state s of
        PullRight \<Rightarrow> fetch_next_from_right_stream J s
      | PullLeft \<Rightarrow> fetch_next_from_left_stream J s
      | RightExhausted \<Rightarrow> handle_right_stream_end J s
      | LeftExhausted \<Rightarrow> handle_left_stream_end J s
      | BothExhausted False \<Rightarrow> prepare_for_final_results_after_exhaustion J s
      | BothExhausted True \<Rightarrow> Inr (Is_Ready (Ready_With None), s))"

lemma res_bind_cong [fundef_cong]: "r = r' \<Longrightarrow> (\<And>x. r' = Inr x \<Longrightarrow> f x = g x) \<Longrightarrow> res_bind r f = res_bind r' g"
  by (cases r') auto

text \<open>How far the stream is from its end: what is left of the inputs and the rank of the state.\<close>

fun state_rank :: "shj_state \<Rightarrow> nat" where
  "state_rank PullRight = 3"
| "state_rank PullLeft = 3"
| "state_rank RightExhausted = 2"
| "state_rank LeftExhausted = 2"
| "state_rank (BothExhausted False) = 1"
| "state_rank (BothExhausted True) = 0"

definition steps_left :: "('v, 'e, 'x) shj \<Rightarrow> nat" where
  "steps_left s = length (sh_left_stream s) + length (sh_right_stream s) + state_rank (sh_state s)"

lemma update_reservation_keeps:
  "update_reservation J s = Inr s' \<Longrightarrow> \<exists>x. s' = s\<lparr>sh_outer := x\<rparr>"
  by (auto simp: update_reservation_def res_bind_eq_Inr)

lemma perform_join_keeps:
  assumes "perform_join_for_given_side J s b side = Inr (r, s')"
  shows "sh_left_stream s' = sh_left_stream s \<and> sh_right_stream s' = sh_right_stream s \<and> sh_state s' = sh_state s
    \<and> sh_transformer s' = sh_transformer s"
  using assms unfolding perform_join_for_given_side_def Let_def res_bind_eq_Inr
  by (auto simp: set_joiners_def res_bind_eq_Inr dest!: update_reservation_keeps)

lemma process_batch_keeps:
  assumes "process_batch J s b side = Inr (r, s')"
  shows "sh_left_stream s' = sh_left_stream s \<and> sh_right_stream s' = sh_right_stream s \<and> sh_state s' = sh_state s
    \<and> sh_transformer s' = sh_transformer s"
  using assms perform_join_keeps unfolding process_batch_def by (fastforce simp: res_bind_eq_Inr)

lemma state_step_decreases:
  assumes "state_step J s = Inr (r, s')"
  shows "r = Is_Ready (Ready_With None) \<or> steps_left s' < steps_left s"
proof -
  note fetch = fetch_next_from_right_stream_def fetch_next_from_left_stream_def handle_right_stream_end_def
    handle_left_stream_end_def prepare_for_final_results_after_exhaustion_def
  show ?thesis
    using assms unfolding state_step_def fetch Let_def
    by (auto simp: steps_left_def res_bind_eq_Inr split: shj_state.splits bool.splits list.splits input_poll.splits
        sum.splits if_splits dest!: process_batch_keeps)
qed

datatype 'v poll_out = Out_Pending | Out_End | Out_Batch "'v row list"

function poll_next_impl ::
  "('v, 'e, 'x) shj_ops \<Rightarrow> ('v, 'e, 'x) shj \<Rightarrow> 'e join_error + 'v poll_out \<times> ('v, 'e, 'x) shj" where
  "poll_next_impl J s =
     (case transformer_next (sh_transformer s) of
        (Some (batch, _), t) \<Rightarrow>
          res_bind (update_reservation J (s\<lparr>sh_transformer := t\<rparr>)) (\<lambda>s'. Inr (Out_Batch batch, s'))
      | (None, t) \<Rightarrow>
          res_bind (state_step J (s\<lparr>sh_transformer := t\<rparr>)) (\<lambda>(result, s1).
            case result of
              Not_Ready \<Rightarrow> Inr (Out_Pending, s1)
            | Is_Ready (Ready_With None) \<Rightarrow> Inr (Out_End, s1)
            | Is_Ready (Ready_With (Some batch)) \<Rightarrow>
                res_bind (update_reservation J (s1\<lparr>sh_transformer := set_batch (sh_transformer s1) batch\<rparr>)) (\<lambda>s2.
                  poll_next_impl J s2)
            | Is_Ready Continue \<Rightarrow> poll_next_impl J s1))"
  by pat_completeness auto
termination
proof (relation "measure (\<lambda>(J, s). steps_left s)")
  have t: "steps_left (s\<lparr>sh_transformer := t\<rparr>) = steps_left s" "steps_left (s\<lparr>sh_outer := x\<rparr>) = steps_left s"
    for s :: "('v, 'e, 'x) shj" and t x by (simp_all add: steps_left_def)
  show "((J, s1), J, s) \<in> measure (\<lambda>(J, s). steps_left s)"
    if "state_step J (s\<lparr>sh_transformer := t\<rparr>) = Inr p" "(result, s1) = p" "result = Is_Ready r" "r = Continue"
    for J :: "('v, 'e, 'x) shj_ops" and s p result s1 r t
    using that state_step_decreases [of J "s\<lparr>sh_transformer := t\<rparr>" result s1] by (auto simp: t)
  show "((J, s2), J, s) \<in> measure (\<lambda>(J, s). steps_left s)"
    if "state_step J (s\<lparr>sh_transformer := t\<rparr>) = Inr p" "(result, s1) = p" "result = Is_Ready r" "r = Ready_With ob" "ob = Some batch"
      "update_reservation J (s1\<lparr>sh_transformer := set_batch (sh_transformer s1) batch\<rparr>) = Inr s2"
    for J :: "('v, 'e, 'x) shj_ops" and s p result s1 r t ob batch s2
    using that state_step_decreases [of J "s\<lparr>sh_transformer := t\<rparr>" result s1] update_reservation_keeps [OF that(6)]
    by (auto simp: t)
qed (rule wf_measure)

declare poll_next_impl.simps [simp del]

text \<open>The consumer of the stream: it polls until the stream ends or fails, and collects the batches.\<close>

partial_function (option) collect ::
  "('v, 'e, 'x) shj_ops \<Rightarrow> ('v, 'e, 'x) shj \<Rightarrow> 'v row list list \<Rightarrow> ('v row list list \<times> 'e join_error option) option" where
  "collect J s out =
     (case poll_next_impl J s of
        Inl e \<Rightarrow> Some (out, Some e)
      | Inr (Out_End, s') \<Rightarrow> Some (out, None)
      | Inr (Out_Pending, s') \<Rightarrow> collect J s' out
      | Inr (Out_Batch batch, s') \<Rightarrow> collect J s' (out @ [batch]))"

end
