(* ===== verification/Symmetric_Batch.thy ===== *)
theory Symmetric_Batch
  imports Symmetric_Join
begin

text \<open>
  What one batch does in the symmetric hash join: the candidate pairs are the pairs that satisfy the
  condition of the join, the visited rows are those with a match, pruned rows get the output that
  is owed to them, and the invariant of both sides is kept.
\<close>

section \<open>Candidate pairs\<close>

definition all_pairs :: "(nat \<Rightarrow> nat \<Rightarrow> bool) \<Rightarrow> nat \<Rightarrow> nat \<Rightarrow> (nat \<times> nat) list" where
  "all_pairs Q n m = concat (map (\<lambda>p. map (\<lambda>b. (b, p)) (filter (\<lambda>b. Q b p) [0..<n])) [0..<m])"

lemma set_all_pairs: "set (all_pairs Q n m) = {(b, p). b < n \<and> p < m \<and> Q b p}"
  by (auto simp: all_pairs_def)

lemma filter_all_pairs: "filter (\<lambda>(b, p). Q' b p) (all_pairs Q n m) = all_pairs (\<lambda>b p. Q b p \<and> Q' b p) n m"
  by (simp add: all_pairs_def filter_concat filter_map comp_def)

text \<open>The rows of one side that have hashes of the other, and the comparison of the keys.\<close>

lemma filter_hash_positions:
  assumes K: "key_ops_ok K kf hf norm"
  shows "concat (map (\<lambda>(p, h). filter (\<lambda>(b, p). keys_match ne norm (k (bb ! b)) (k' (pb ! p)))
        (map (\<lambda>b. (b, p)) (hash_positions ne k hf bb h))) (side_entries ne k' hf 0 pb))
    = all_pairs (\<lambda>b p. keys_match ne norm (k (bb ! b)) (k' (pb ! p))) (length bb) (length pb)"
proof -
  let ?Q = "\<lambda>b p. keys_match ne norm (k (bb ! b)) (k' (pb ! p))"
  let ?f = "\<lambda>p. map (\<lambda>b. (b, p)) (filter (\<lambda>b. ?Q b p) [0..<length bb])"
  have same: "filter (\<lambda>(b, p). ?Q b p) (map (\<lambda>b. (b, p)) (hash_positions ne k hf bb (hf (k' (pb ! p))))) = ?f p" for p
  proof -
    have "matchable ne (k (bb ! b)) \<and> hf (k (bb ! b)) = hf (k' (pb ! p))" if "?Q b p" for b
      using that keys_match_matchable key_ops_okD(4) [OF K] unfolding keys_match_def by blast
    then have "filter (\<lambda>b. ?Q b p) (hash_positions ne k hf bb (hf (k' (pb ! p)))) = filter (\<lambda>b. ?Q b p) [0..<length bb]"
      unfolding hash_positions_def filter_filter by (intro filter_cong) auto
    then show ?thesis by (simp add: filter_map comp_def)
  qed
  have none: "?f p = []" if "\<not> matchable ne (k' (pb ! p))" for p
    using that keys_match_matchable by (fastforce simp: filter_empty_conv)
  have entries: "side_entries ne k' hf 0 pb
      = map (\<lambda>p. (p, hf (k' (pb ! p)))) (filter (\<lambda>p. matchable ne (k' (pb ! p))) [0..<length pb])"
  proof -
    have "enumerate 0 pb = map (\<lambda>p. (p, pb ! p)) [0..<length pb]"
      by (rule nth_equalityI) (auto simp: nth_enumerate_eq)
    then show ?thesis by (simp add: side_entries_def filter_map comp_def)
  qed
  have drop_empty: "concat (map ?f (filter (\<lambda>p. matchable ne (k' (pb ! p))) ps)) = concat (map ?f ps)" for ps
    using none by (induction ps) auto
  show ?thesis
    using drop_empty [of "[0..<length pb]"] unfolding entries all_pairs_def by (simp add: same comp_def)
qed

lemma decode_pairs:
  assumes "\<forall>(b, p) \<in> set ps. b < n \<and> p < m" and "n \<le> 2 ^ 64" and "m \<le> 2 ^ 32"
  shows "map (\<lambda>(b, p). unat (of_nat b :: u64)) ps = map fst ps" "map (\<lambda>(b, p). unat (of_nat p :: u32)) ps = map snd ps"
  using assms by (induction ps) (auto simp: unat_of_nat)

lemma lookup_spec:
  assumes K: "key_ops_ok K kf hf norm" and on: "0 < ko_on K"
    and h: "joiner_holds (ko_null_equality K) kf hf side j rows" and small: "length rows < 2 ^ 64"
    and pb: "length pb < 2 ^ 32"
  shows "sound (\<lambda>res. res = (let qs = all_pairs (\<lambda>b p. keys_match (ko_null_equality K) norm
          (kf side (j_input_buffer j ! b)) (kf (negate side) (pb ! p))) (length (j_input_buffer j)) (length pb) in (map fst qs, map snd qs)))
    (lookup_join_hashmap K (j_hashmap j) (j_input_buffer j) pb side (Some (j_deleted_offset j)))"
proof -
  let ?ne = "ko_null_equality K" and ?bb = "j_input_buffer j" and ?k = "kf side" and ?k' = "kf (negate side)"
  let ?iter = "side_entries ?ne ?k' hf 0 pb"
  let ?g = "\<lambda>(p, h). map (\<lambda>b. (b, p)) (hash_positions ?ne ?k hf ?bb h)"
  define ps where "ps = concat (map ?g ?iter)"
  define ms where "ms = concat (map (\<lambda>(p, h). map (Pair p) (rev (hash_positions ?ne ?k hf ?bb h))) (rev ?iter))"
  have rev_ms: "rev ms = map (\<lambda>(b, p). (p, b)) ps"
    by (simp add: ms_def ps_def rev_concat rev_map map_concat comp_def case_prod_unfold)
  have in_range: "\<forall>(b, p) \<in> set ps. b < length ?bb \<and> p < length pb"
    by (auto simp: ps_def hash_positions_def dest: side_entries_bounds)
  have bb: "length ?bb < 2 ^ 64" using h small by (auto simp: joiner_holds_def)
  have "map unat (rev (encode_build ms)) = map (\<lambda>(b, p). unat (of_nat b :: u64)) ps"
    "map unat (rev (encode_probe ms)) = map (\<lambda>(b, p). unat (of_nat p :: u32)) ps"
    unfolding rev_map rev_ms by (simp_all add: comp_def case_prod_unfold)
  then have decode: "map unat (rev (encode_build ms)) = map fst ps" "map unat (rev (encode_probe ms)) = map snd ps"
    using decode_pairs [OF in_range] bb pb by simp_all
  have look: "or_panic (pm_get_matched_indices (j_hashmap j) (rev ?iter) (Some (j_deleted_offset j))) = Inr (encode_probe ms, encode_build ms)"
    using pm_lookup [OF h small, of "rev ?iter"] by (simp add: Let_def ms_def)
  have eq: "sound (\<lambda>res. res = (let qs = filter (\<lambda>(i, i'). keys_match ?ne norm (map ?k ?bb ! i) (map ?k' pb ! i')) ps in (map fst qs, map snd qs)))
      (equal_rows_arr K (map fst ps) (map snd ps) (map ?k ?bb) (ko_on K) (map ?k' pb) (ko_on K))"
    using in_range by (intro equal_rows_arr_spec [OF K on]) (auto simp: key_ops_okD(2) [OF K])
  have "filter (\<lambda>(i, i'). keys_match ?ne norm (map ?k ?bb ! i) (map ?k' pb ! i')) ps
      = filter (\<lambda>(b, p). keys_match ?ne norm (?k (?bb ! b)) (?k' (pb ! p))) ps"
    using in_range by (intro filter_cong) auto
  also have "\<dots> = all_pairs (\<lambda>b p. keys_match ?ne norm (?k (?bb ! b)) (?k' (pb ! p))) (length ?bb) (length pb)"
    using filter_hash_positions [OF K, of ?ne ?k ?bb ?k' pb] by (simp add: ps_def filter_concat comp_def case_prod_unfold)
  finally have qs: "filter (\<lambda>(i, i'). keys_match ?ne norm (map ?k ?bb ! i) (map ?k' pb ! i')) ps
      = all_pairs (\<lambda>b p. keys_match ?ne norm (?k (?bb ! b)) (?k' (pb ! p))) (length ?bb) (length pb)" .
  note eq' = eq [unfolded qs]
  have keys: "sound (\<lambda>keys. keys = map ?k' pb) (or_error (ko_eval K (negate side) pb))"
      "sound (\<lambda>keys. keys = map ?k ?bb) (or_error (ko_eval K side ?bb))"
    using key_ops_okD(1) [OF K] by (auto intro!: sound_or_error)
  have hashes: "sound (\<lambda>hashes. hashes = map hf keys) (or_error (ko_hashes K keys))" for keys
    using key_ops_okD(3) [OF K] by (auto intro!: sound_or_error)
  have "(let valid_keys = matchable_join_keys (map ?k' pb) ?ne in
      res_bind (or_panic (pm_get_matched_indices (j_hashmap j) (rev (valid_rows (map hf (map ?k' pb)) valid_keys)) (Some (j_deleted_offset j))))
        (\<lambda>(matched_probe, matched_build).
           equal_rows_arr K (map unat (rev matched_build)) (map unat (rev matched_probe)) (map ?k ?bb) (ko_on K) (map ?k' pb) (ko_on K)))
      = equal_rows_arr K (map fst ps) (map snd ps) (map ?k ?bb) (ko_on K) (map ?k' pb) (ko_on K)"
    unfolding Let_def valid_rows_entries look res_bind_simps prod.case decode ..
  then show ?thesis
    unfolding lookup_join_hashmap_def using eq' by (intro sound_bind [OF keys(1)] sound_bind [OF keys(2)] sound_bind [OF hashes]) metis
qed

section \<open>The condition of the join\<close>

definition join_condition ::
  "('v, 'e, 'x) shj_ops \<Rightarrow> (join_side \<Rightarrow> 'v row \<Rightarrow> 'v key) \<Rightarrow> ('v \<Rightarrow> 'v) \<Rightarrow> ('v row \<Rightarrow> bool option) \<Rightarrow> 'v row \<Rightarrow> 'v row \<Rightarrow> bool" where
  "join_condition J kf norm fp l r \<longleftrightarrow>
     keys_match (ko_null_equality (so_keys J)) norm (kf Left_Side l) (kf Right_Side r)
     \<and> (case so_filter J of None \<Rightarrow> True | Some filt \<Rightarrow> pair_accepted (so_batch J) filt fp Left_Side l r)"

text \<open>The condition with the row of the given side first.\<close>

definition cond :: "('a \<Rightarrow> 'a \<Rightarrow> bool) \<Rightarrow> join_side \<Rightarrow> 'a \<Rightarrow> 'a \<Rightarrow> bool" where
  "cond P side b p \<longleftrightarrow> (if side = Left_Side then P b p else P p b)"

abbreviation is_side :: "join_side \<Rightarrow> bool" where
  "is_side side \<equiv> side = Left_Side \<or> side = Right_Side"

lemma cond_negate: "is_side side \<Longrightarrow> cond P (negate side) p b \<longleftrightarrow> cond P side b p"
  by (auto simp: cond_def)

lemma cond_join_condition:
  assumes "is_side side"
  shows "cond (join_condition J kf norm fp) side b p \<longleftrightarrow>
     keys_match (ko_null_equality (so_keys J)) norm (kf side b) (kf (negate side) p)
     \<and> (case so_filter J of None \<Rightarrow> True | Some filt \<Rightarrow> pair_accepted (so_batch J) filt fp side b p)"
  using assms
  by (auto simp: cond_def join_condition_def keys_match_sym [of _ _ "kf Right_Side b"] pair_accepted_swap [of Right_Side, simplified]
      split: option.split)

definition side_width :: "bool list \<Rightarrow> bool list \<Rightarrow> join_side \<Rightarrow> nat" where
  "side_width fl fr side = (if side = Left_Side then length fl else length fr)"

text \<open>
  What the stream relies on: the operations on keys and the filter work row by row, there is a key,
  and the columns of the output are those of the join schema.
\<close>

definition shj_ok ::
  "('v, 'e, 'x) shj_ops \<Rightarrow> (join_side \<Rightarrow> 'v row \<Rightarrow> 'v key) \<Rightarrow> ('v key \<Rightarrow> u64) \<Rightarrow> ('v \<Rightarrow> 'v) \<Rightarrow> ('v row \<Rightarrow> bool option)
   \<Rightarrow> bool list \<Rightarrow> bool list \<Rightarrow> bool" where
  "shj_ok J kf hf norm fp fl fr \<longleftrightarrow>
     key_ops_ok (so_keys J) kf hf norm \<and> 0 < ko_on (so_keys J)
     \<and> so_column_indices J = snd (physical_join_schema fl fr (so_join_type J))
     \<and> (\<forall>filt. so_filter J = Some filt \<longrightarrow> filter_ok filt fp
          \<and> (\<forall>ci \<in> set (jf_column_indices filt). column_ok Left_Side (length fl) (length fr) ci))"

lemma shj_okD:
  assumes "shj_ok J kf hf norm fp fl fr"
  shows "key_ops_ok (so_keys J) kf hf norm" "0 < ko_on (so_keys J)"
    "so_column_indices J = snd (physical_join_schema fl fr (so_join_type J))"
    "so_filter J = Some filt \<Longrightarrow> filter_ok filt fp"
    "so_filter J = Some filt \<Longrightarrow> ci \<in> set (jf_column_indices filt) \<Longrightarrow> column_ok Left_Side (length fl) (length fr) ci"
  using assms unfolding shj_ok_def by blast+

lemma column_ok_side:
  "is_side side \<Longrightarrow> column_ok Left_Side (length fl) (length fr) ci
     \<Longrightarrow> column_ok side (side_width fl fr side) (side_width fl fr (negate side)) ci"
  by (cases "ci_side ci") (auto simp: column_ok_def side_width_def)

section \<open>Joining one batch\<close>

lemma matching_pairs_spec:
  assumes J: "shj_ok J kf hf norm fp fl fr" and side: "is_side side"
    and h: "joiner_holds (ko_null_equality (so_keys J)) kf hf side j rows" and small: "length rows < 2 ^ 64"
    and pb: "length pb < 2 ^ 32"
    and wb: "\<forall>row \<in> set (j_input_buffer j). length row = side_width fl fr side"
    and wp: "\<forall>row \<in> set pb. length row = side_width fl fr (negate side)"
  shows "sound (\<lambda>res. res = (let qs = all_pairs (\<lambda>b p. cond (join_condition J kf norm fp) side (j_input_buffer j ! b) (pb ! p))
          (length (j_input_buffer j)) (length pb) in (map fst qs, map snd qs)))
    (res_bind (lookup_join_hashmap (so_keys J) (j_hashmap j) (j_input_buffer j) pb side (Some (j_deleted_offset j)))
      (\<lambda>(bi, pi). case so_filter J of
         Some filt \<Rightarrow> apply_join_filter_to_indices (so_batch J) (j_input_buffer j) pb bi pi filt side None jt
       | None \<Rightarrow> Inr (bi, pi)))"
proof (rule sound_bind [OF lookup_spec [OF shj_okD(1,2) [OF J] h small pb]])
  let ?bb = "j_input_buffer j"
  let ?Q = "\<lambda>b p. keys_match (ko_null_equality (so_keys J)) norm (kf side (?bb ! b)) (kf (negate side) (pb ! p))"
  let ?qs = "all_pairs ?Q (length ?bb) (length pb)"
  let ?rs = "all_pairs (\<lambda>b p. cond (join_condition J kf norm fp) side (?bb ! b) (pb ! p)) (length ?bb) (length pb)"
  fix res assume res: "res = (let qs = ?qs in (map fst qs, map snd qs))"
  show "sound (\<lambda>res. res = (let qs = ?rs in (map fst qs, map snd qs))) ((\<lambda>(bi, pi). case so_filter J of
         Some filt \<Rightarrow> apply_join_filter_to_indices (so_batch J) ?bb pb bi pi filt side None jt
       | None \<Rightarrow> Inr (bi, pi)) res)"
  proof (cases "so_filter J")
    case None
    then show ?thesis by (simp add: res Let_def cond_join_condition [OF side])
  next
    case (Some filt)
    have in_range: "\<forall>(i, j') \<in> set ?qs. i < length ?bb \<and> j' < length pb" by (auto simp: set_all_pairs)
    have "filter (\<lambda>(i, j). pair_accepted (so_batch J) filt fp side (?bb ! i) (pb ! j)) ?qs = ?rs"
      using Some by (simp add: filter_all_pairs cond_join_condition [OF side])
    then show ?thesis
      using apply_join_filter_spec [OF shj_okD(4) [OF J Some] _ wb wp in_range, of side None "so_batch J" jt]
        column_ok_side [OF side shj_okD(5) [OF J Some]] Some by (simp add: res Let_def)
  qed
qed

text \<open>The output row of a pair, and the multiset of the output rows of all matching pairs.\<close>

definition pair_row :: "join_side \<Rightarrow> 'v row \<Rightarrow> 'v row \<Rightarrow> 'v row" where
  "pair_row side b p = (if side = Left_Side then b @ p else p @ b)"

definition pairs_of :: "('v row \<Rightarrow> 'v row \<Rightarrow> bool) \<Rightarrow> join_side \<Rightarrow> 'v row list \<Rightarrow> 'v row list \<Rightarrow> 'v row multiset" where
  "pairs_of P side bs ps = (\<Sum>b\<in>#mset bs. \<Sum>p\<in>#mset ps. if cond P side b p then {#pair_row side b p#} else {#})"

definition emits_pairs :: "join_type \<Rightarrow> bool" where
  "emits_pairs jt \<longleftrightarrow> jt \<in> {Inner, Left, Right, Full}"

lemma pairs_of_append [simp]:
  "pairs_of P side (bs @ bs') ps = pairs_of P side bs ps + pairs_of P side bs' ps"
  "pairs_of P side bs (ps @ ps') = pairs_of P side bs ps + pairs_of P side bs ps'"
  by (simp_all add: pairs_of_def sum_mset.distrib)

lemma pairs_of_swap: "is_side side \<Longrightarrow> pairs_of P (negate side) ps bs = pairs_of P side bs ps"
  unfolding pairs_of_def by (subst mset_pairs_swap) (auto simp: cond_def pair_row_def cong: if_cong)

lemma pairs_of_none: "(\<And>b p. b \<in> set bs \<Longrightarrow> p \<in> set ps \<Longrightarrow> \<not> cond P side b p) \<Longrightarrow> pairs_of P side bs ps = {#}"
  by (auto simp: pairs_of_def)

lemma mset_nth_upt: "image_mset ((!) xs) (mset [0..<length xs]) = mset xs"
  by (metis map_nth mset_map)

lemma sum_nth_upt: "(\<Sum>i\<in>#mset [0..<length xs]. f (xs ! i)) = (\<Sum>x\<in>#mset xs. f x)"
  unfolding mset_nth_upt [of xs, symmetric] by (simp add: image_mset.compositionality comp_def)

lemma mset_all_pairs:
  "mset (map (\<lambda>(b, p). f (bs ! b) (ps ! p)) (all_pairs (\<lambda>b p. Q (bs ! b) (ps ! p)) (length bs) (length ps)))
     = (\<Sum>b\<in>#mset bs. \<Sum>p\<in>#mset ps. if Q b p then {#f b p#} else {#})"
proof -
  have "mset (map (\<lambda>(b, p). f (bs ! b) (ps ! p)) (all_pairs (\<lambda>b p. Q (bs ! b) (ps ! p)) (length bs) (length ps)))
      = (\<Sum>p\<in>#mset [0..<length ps]. \<Sum>b\<in>#mset [0..<length bs]. if Q (bs ! b) (ps ! p) then {#f (bs ! b) (ps ! p)#} else {#})"
    unfolding all_pairs_def map_concat map_map mset_concat_map
    by (simp only: comp_def map_map prod.case mset_concat_map mset_map_filter_sum)
  also have "\<dots> = (\<Sum>b\<in>#mset [0..<length bs]. \<Sum>p\<in>#mset [0..<length ps]. if Q (bs ! b) (ps ! p) then {#f (bs ! b) (ps ! p)#} else {#})"
    by (rule mset_pairs_swap)
  finally show ?thesis
    unfolding sum_nth_upt [where f = "\<lambda>p. if Q _ p then {#f _ p#} else {#}"]
      sum_nth_upt [where f = "\<lambda>b. \<Sum>p\<in>#mset ps. if Q b p then {#f b p#} else {#}"] .
qed

definition rows_of :: "'v row list option \<Rightarrow> 'v row list" where
  "rows_of r = (case r of None \<Rightarrow> [] | Some rows \<Rightarrow> rows)"

lemma rows_of_simps [simp]: "rows_of None = []" "rows_of (Some rows) = rows" "rows_of (some_if_rows rows) = rows"
  by (simp_all add: rows_of_def some_if_rows_def)

lemma some_if_rows_not_empty [simp]: "some_if_rows rows \<noteq> Some []"
  by (simp add: some_if_rows_def)

text \<open>The rows that were matched by the batch.\<close>

lemma fst_all_pairs: "fst ` set (all_pairs (\<lambda>b p. Q (bs ! b) (ps ! p)) (length bs) (length ps)) = {b. b < length bs \<and> (\<exists>p \<in> set ps. Q (bs ! b) p)}"
  unfolding set_all_pairs by (force simp: in_set_conv_nth image_iff)

lemma snd_all_pairs: "snd ` set (all_pairs (\<lambda>b p. Q (bs ! b) (ps ! p)) (length bs) (length ps)) = {p. p < length ps \<and> (\<exists>b \<in> set bs. Q b (ps ! p))}"
  unfolding set_all_pairs by (force simp: in_set_conv_nth image_iff)

lemma map_nth_length: "length xs = n \<Longrightarrow> map ((!) xs) [0..<n] = xs"
  using map_nth by blast

lemma output_pairs_spec:
  assumes J: "shj_ok J kf hf norm fp fl fr" and side: "is_side side" and jt: "emits_pairs (so_join_type J)"
    and wb: "\<forall>row \<in> set bb. length row = side_width fl fr side"
    and wp: "\<forall>row \<in> set pb. length row = side_width fl fr (negate side)"
    and qs: "\<forall>(b, p) \<in> set qs. b < length bb \<and> p < length pb"
  shows "sound (\<lambda>rows. rows = map (\<lambda>(b, p). pair_row side (bb ! b) (pb ! p)) qs)
    (build_batch_from_indices (so_batch J) bb pb (map Some (map fst qs)) (map Some (map snd qs)) (so_column_indices J) side jt')"
proof -
  let ?B = "so_batch J"
  let ?cis = "side_columns Left_Side (length fl) @ side_columns Right_Side (length fr)"
  have cis: "so_column_indices J = ?cis"
    using jt shj_okD(3) [OF J] by (auto simp: physical_join_columns Let_def emits_pairs_def)
  have zip: "zip (map Some (map fst qs)) (map Some (map snd qs)) = map (\<lambda>(b, p). (Some b, Some p)) qs"
    by (induction qs) auto
  have row: "map (cell ?B side (pick bb (Some b)) (pick pb (Some p))) ?cis = pair_row side (bb ! b) (pb ! p)"
    if "(b, p) \<in> set qs" for b p
  proof -
    have "b < length bb" "p < length pb" using that qs by auto
    then have "length (bb ! b) = side_width fl fr side" "length (pb ! p) = side_width fl fr (negate side)"
      using wb wp nth_mem by blast+
    then show ?thesis using side by (auto simp: cells_side_columns pair_row_def side_width_def map_nth_length)
  qed
  have "sound (\<lambda>rows. rows = map (\<lambda>(b, p). map (cell ?B side (pick bb b) (pick pb p)) ?cis) (zip (map Some (map fst qs)) (map Some (map snd qs))))
    (build_batch_from_indices ?B bb pb (map Some (map fst qs)) (map Some (map snd qs)) ?cis side jt')"
    using wb wp qs side
    by (intro build_batch_spec [where nb = "side_width fl fr side" and np = "side_width fl fr (negate side)"])
      (auto simp: indices_ok_def column_ok_def side_columns_def side_width_def)
  moreover have "map (\<lambda>(b, p). map (cell ?B side (pick bb b) (pick pb p)) ?cis) (map (\<lambda>(b, p). (Some b, Some p)) qs)
      = map (\<lambda>(b, p). pair_row side (bb ! b) (pb ! p)) qs"
    using row by (auto simp del: map_append)
  ultimately show ?thesis unfolding cis zip by (simp only:)
qed

text \<open>What a batch adds: output for the matching pairs, and the visited rows of both sides.\<close>

definition visit :: "('v, 'e, 'x) shj_ops \<Rightarrow> join_side \<Rightarrow> nat set \<Rightarrow> 'v joiner \<Rightarrow> 'v joiner" where
  "visit J side V j = (if need_to_produce_result_in_final side (so_join_type J) then j\<lparr>j_visited_rows := j_visited_rows j \<union> V\<rparr> else j)"

lemma join_with_probe_batch_spec:
  assumes J: "shj_ok J kf hf norm fp fl fr" and side: "is_side side"
    and h: "joiner_holds (ko_null_equality (so_keys J)) kf hf side j rows" and small: "length rows < 2 ^ 64"
    and pb: "length pb < 2 ^ 32"
    and wb: "\<forall>row \<in> set (j_input_buffer j). length row = side_width fl fr side"
    and wp: "\<forall>row \<in> set pb. length row = side_width fl fr (negate side)"
  shows "sound (\<lambda>(r, build1, probe1).
      build1 = visit J side ((\<lambda>i. i + j_deleted_offset j) ` {b. b < length (j_input_buffer j)
        \<and> (\<exists>p \<in> set pb. cond (join_condition J kf norm fp) side (j_input_buffer j ! b) p)}) j
      \<and> probe1 = visit J (negate side) ((\<lambda>i. i + j_offset probe) ` {p. p < length pb
        \<and> (\<exists>b \<in> set (j_input_buffer j). cond (join_condition J kf norm fp) side b (pb ! p))}) probe
      \<and> r \<noteq> Some [] \<and> mset (rows_of r) =
         (if emits_pairs (so_join_type J) then pairs_of (join_condition J kf norm fp) side (j_input_buffer j) pb else {#}))
    (join_with_probe_batch J j probe pb)"
proof (cases "j_input_buffer j = [] \<or> pb = []")
  case True
  then show ?thesis by (auto simp: join_with_probe_batch_def visit_def pairs_of_def)
next
  case False
  let ?bb = "j_input_buffer j" and ?P = "join_condition J kf norm fp"
  let ?qs = "all_pairs (\<lambda>b p. cond ?P side (?bb ! b) (pb ! p)) (length ?bb) (length pb)"
  have bs: "j_build_side j = side" using h by (simp add: joiner_holds_def)
  have visited: "record_visited_indices V d (map fst ?qs) = V \<union> (\<lambda>i. i + d) ` {b. b < length ?bb \<and> (\<exists>p \<in> set pb. cond ?P side (?bb ! b) p)}"
    "record_visited_indices V d (map snd ?qs) = V \<union> (\<lambda>i. i + d) ` {p. p < length pb \<and> (\<exists>b \<in> set ?bb. cond ?P side b (pb ! p))}" for V d
    unfolding record_visited_indices_def set_map fst_all_pairs snd_all_pairs by simp_all
  have pairs: "mset (map (\<lambda>(b, p). pair_row side (?bb ! b) (pb ! p)) ?qs) = pairs_of ?P side ?bb pb"
    unfolding pairs_of_def by (rule mset_all_pairs)
  have types: "so_join_type J \<in> set [LeftAnti, RightAnti, LeftSemi, LeftMark, RightSemi, RightMark] \<longleftrightarrow> \<not> emits_pairs (so_join_type J)"
    by (cases "so_join_type J") (auto simp: emits_pairs_def)
  have out: "sound (\<lambda>rows. rows = map (\<lambda>(b, p). pair_row side (?bb ! b) (pb ! p)) ?qs)
    (build_batch_from_indices (so_batch J) ?bb pb (map Some (map fst ?qs)) (map Some (map snd ?qs)) (so_column_indices J) side (so_join_type J))"
    if "emits_pairs (so_join_type J)"
    by (rule output_pairs_spec [OF J side that wb wp]) (auto simp: set_all_pairs)
  have eq: "join_with_probe_batch J j probe pb =
     res_bind (res_bind (lookup_join_hashmap (so_keys J) (j_hashmap j) ?bb pb side (Some (j_deleted_offset j)))
      (\<lambda>(bi, pi). case so_filter J of
         Some filt \<Rightarrow> apply_join_filter_to_indices (so_batch J) ?bb pb bi pi filt side None (so_join_type J)
       | None \<Rightarrow> Inr (bi, pi)))
      (\<lambda>(bi, pi). (let build1 = visit J side ((\<lambda>i. i + j_deleted_offset j) ` set bi) j;
           probe1 = visit J (negate side) ((\<lambda>i. i + j_offset probe) ` set pi) probe
       in if \<not> emits_pairs (so_join_type J) then Inr (None, build1, probe1)
          else res_bind (build_batch_from_indices (so_batch J) ?bb pb (map Some bi) (map Some pi) (so_column_indices J) side (so_join_type J))
            (\<lambda>batch. Inr (some_if_rows batch, build1, probe1))))"
    using False unfolding join_with_probe_batch_def types bs visit_def record_visited_indices_def
    by (auto simp: res_bind_def split: sum.split)
  show ?thesis unfolding eq
    by (rule sound_bind [OF matching_pairs_spec [OF J side h small pb wb wp]])
      (auto simp: Let_def fst_all_pairs snd_all_pairs pairs simp del: map_map mset_map intro!: sound_bind [OF out])
qed

section \<open>Rows that are settled\<close>

text \<open>The output owed to a row of the given side once all its matches are known.\<close>

definition final_rows ::
  "('v, 'e, 'x) shj_ops \<Rightarrow> bool list \<Rightarrow> bool list \<Rightarrow> join_side \<Rightarrow> 'v row \<Rightarrow> bool \<Rightarrow> 'v row list" where
  "final_rows J fl fr side b m =
     (let jt = so_join_type J
      in if \<not> need_to_produce_result_in_final side jt then []
         else if jt \<in> {Left, Right, Full} then (if m then [] else [pair_row side b (replicate (side_width fl fr (negate side)) None)])
         else if jt \<in> {LeftAnti, RightAnti} then (if m then [] else [b])
         else if jt \<in> {LeftSemi, RightSemi} then (if m then [b] else [])
         else [b @ [bo_mark (so_batch J) m]])"

definition settled_rows ::
  "('v, 'e, 'x) shj_ops \<Rightarrow> bool list \<Rightarrow> bool list \<Rightarrow> ('v row \<Rightarrow> 'v row \<Rightarrow> bool) \<Rightarrow> join_side \<Rightarrow> 'v row list \<Rightarrow> 'v row list \<Rightarrow> 'v row list" where
  "settled_rows J fl fr P side bs ps = concat (map (\<lambda>b. final_rows J fl fr side b (\<exists>p \<in> set ps. cond P side b p)) bs)"

lemma settled_rows_append [simp]:
  "settled_rows J fl fr P side (bs @ bs') ps = settled_rows J fl fr P side bs ps @ settled_rows J fl fr P side bs' ps"
  by (simp add: settled_rows_def)

lemma settled_rows_more:
  assumes "\<And>b p. b \<in> set bs \<Longrightarrow> p \<in> set ps' \<Longrightarrow> \<not> cond P side b p"
  shows "settled_rows J fl fr P side bs (ps @ ps') = settled_rows J fl fr P side bs ps"
proof -
  have "map (\<lambda>b. final_rows J fl fr side b (\<exists>p \<in> set (ps @ ps'). cond P side b p)) bs
      = map (\<lambda>b. final_rows J fl fr side b (\<exists>p \<in> set ps. cond P side b p)) bs"
    using assms by (intro map_cong refl arg_cong [where f = "final_rows J fl fr side _"]) auto
  then show ?thesis by (simp only: settled_rows_def)
qed

lemma concat_if: "concat (map (\<lambda>x. if Q x then [f x] else []) xs) = map f (filter Q xs)"
  by (induction xs) auto

text \<open>The columns of an output row when the other side is missing.\<close>

lemma final_cells:
  assumes J: "shj_ok J kf hf norm fp fl fr" and side: "is_side side"
    and need: "need_to_produce_result_in_final side (so_join_type J)" and b: "length b = side_width fl fr side"
    and p: "p = None \<or> so_join_type J \<in> {LeftMark, RightMark}"
  shows "map (cell (so_batch J) side (Some b) p) (so_column_indices J) =
    (if so_join_type J \<in> {Left, Right, Full} then pair_row side b (replicate (side_width fl fr (negate side)) None)
     else if so_join_type J \<in> {LeftMark, RightMark} then b @ [bo_mark (so_batch J) (p \<noteq> None)] else b)"
proof -
  have "length fl = length b" if "side = Left_Side" using b that by (simp add: side_width_def)
  moreover have "length fr = length b" if "side = Right_Side" using b that by (simp add: side_width_def)
  ultimately show ?thesis
    unfolding shj_okD(3) [OF J] physical_join_columns Let_def
    using side need p
    by (cases "so_join_type J")
      (auto simp: need_to_produce_result_in_final_def cells_side_columns pair_row_def side_width_def map_nth_length cell.simps)
qed

lemma final_columns_own:
  assumes J: "shj_ok J kf hf norm fp fl fr" and side: "is_side side" and need: "need_to_produce_result_in_final side (so_join_type J)"
    and ci: "ci \<in> set (so_column_indices J)"
  shows "column_ok side (side_width fl fr side) (side_width fl fr (negate side)) ci"
    and "so_join_type J \<notin> {Left, Right, Full} \<Longrightarrow> ci_side ci = No_Side \<or> ci_side ci = side"
  using side need ci unfolding shj_okD(3) [OF J] physical_join_columns Let_def
  by (cases "so_join_type J"; auto simp: need_to_produce_result_in_final_def side_columns_def column_ok_def side_width_def)+

lemma pruning_indices:
  "get_pruning_anti_indices n d V = filter (\<lambda>i. i + d \<notin> V) [0..<n]"
  "get_pruning_semi_indices n d V = filter (\<lambda>i. i + d \<in> V) [0..<n]"
  by (auto simp: get_pruning_anti_indices_def get_pruning_semi_indices_def Let_def intro!: filter_cong)

lemma zip_Some_None: "zip (map Some is) (replicate (length is) None) = map (\<lambda>i. (Some i, None)) is"
  by (induction "is") auto

lemma zip_map_map: "zip (map f xs) (map g xs) = map (\<lambda>x. (f x, g x)) xs"
  by (induction xs) auto

text \<open>The indices for the rows that are settled select and build exactly the rows owed to them.\<close>

lemma final_indices:
  assumes J: "shj_ok J kf hf norm fp fl fr" and side: "is_side side"
    and need: "need_to_produce_result_in_final side (so_join_type J)"
    and w: "\<forall>row \<in> set bb. length row = side_width fl fr side" and n: "n \<le> length bb"
    and vis: "\<forall>i < n. i + d \<in> V \<longleftrightarrow> M (bb ! i)"
  shows "\<exists>bi pi. calculate_indices_by_join_type side n V d (so_join_type J) = Some (map Some bi, pi)
    \<and> length bi = length pi \<and> (\<forall>i \<in> set bi. i < n)
    \<and> (so_join_type J \<in> {LeftMark, RightMark} \<or> (\<forall>p \<in> set pi. p = None))
    \<and> concat (map (\<lambda>b. final_rows J fl fr side b (M b)) (take n bb))
        = map (\<lambda>(b, p). map (cell (so_batch J) side (pick bb b) (pick [] p)) (so_column_indices J)) (zip (map Some bi) pi)"
proof -
  let ?jt = "so_join_type J" and ?B = "so_batch J" and ?cis = "so_column_indices J"
  have tk: "take n bb = map ((!) bb) [0..<n]" using n by (intro nth_equalityI) auto
  have len: "length (bb ! i) = side_width fl fr side" if "i < n" for i using that n w by auto
  note cells = final_cells [OF J side need len]
  consider (mark) "?jt \<in> {LeftMark, RightMark}" | (anti) "?jt \<in> {Left, Right, Full, LeftAnti, RightAnti}" | (semi) "?jt \<in> {LeftSemi, RightSemi}"
    using need by (cases ?jt) (auto simp: need_to_produce_result_in_final_def split: if_splits)
  then show ?thesis
  proof cases
    case mark
    let ?p = "\<lambda>i. if i + d \<in> V then Some (0 :: nat) else None"
    have "concat (map (\<lambda>b. final_rows J fl fr side b (M b)) (take n bb)) = map (\<lambda>i. bb ! i @ [bo_mark ?B (M (bb ! i))]) [0..<n]"
      using mark need by (auto simp: tk final_rows_def Let_def comp_def)
    also have "\<dots> = map (\<lambda>i. map (cell ?B side (Some (bb ! i)) (pick [] (?p i))) ?cis) [0..<n]"
      using mark vis by (intro map_cong refl) (auto simp: cells pick_def)
    finally have "concat (map (\<lambda>b. final_rows J fl fr side b (M b)) (take n bb))
        = map (\<lambda>(b, p). map (cell ?B side (pick bb b) (pick [] p)) ?cis) (zip (map Some [0..<n]) (map ?p [0..<n]))"
      by (simp add: zip_map_map comp_def)
    moreover have "calculate_indices_by_join_type side n V d ?jt = Some (map Some [0..<n], map ?p [0..<n])"
      using mark side need by (auto simp: calculate_indices_by_join_type_def need_to_produce_result_in_final_def)
    ultimately show ?thesis using mark by (intro exI [of _ "[0..<n]"] exI [of _ "map ?p [0..<n]"]) auto
  next
    case anti
    let ?bi = "filter (\<lambda>i. i + d \<notin> V) [0..<n]"
    let ?f = "\<lambda>b. if ?jt \<in> {Left, Right, Full} then pair_row side b (replicate (side_width fl fr (negate side)) None) else b"
    have "concat (map (\<lambda>b. final_rows J fl fr side b (M b)) (take n bb)) = concat (map (\<lambda>b. if \<not> M b then [?f b] else []) (take n bb))"
      using anti need by (auto simp: final_rows_def Let_def intro!: arg_cong [of _ _ concat])
    also have "\<dots> = map (\<lambda>i. ?f (bb ! i)) ?bi"
      unfolding concat_if tk filter_map using vis by (auto intro!: map_cong filter_cong)
    also have "\<dots> = map (\<lambda>i. map (cell ?B side (Some (bb ! i)) None) ?cis) ?bi"
      using anti by (intro map_cong refl) (auto simp: cells)
    finally have "concat (map (\<lambda>b. final_rows J fl fr side b (M b)) (take n bb))
        = map (\<lambda>(b, p). map (cell ?B side (pick bb b) (pick [] p)) ?cis) (zip (map Some ?bi) (replicate (length ?bi) None))"
      unfolding zip_Some_None by (simp add: comp_def)
    moreover have "calculate_indices_by_join_type side n V d ?jt = Some (map Some ?bi, replicate (length ?bi) None)"
      using anti side need by (auto simp: calculate_indices_by_join_type_def need_to_produce_result_in_final_def Let_def pruning_indices)
    ultimately show ?thesis by (intro exI [of _ ?bi] exI [of _ "replicate (length ?bi) None"]) auto
  next
    case semi
    let ?bi = "filter (\<lambda>i. i + d \<in> V) [0..<n]"
    have "concat (map (\<lambda>b. final_rows J fl fr side b (M b)) (take n bb)) = concat (map (\<lambda>b. if M b then [b] else []) (take n bb))"
      using semi need by (auto simp: final_rows_def Let_def intro!: arg_cong [of _ _ concat])
    also have "\<dots> = map (\<lambda>i. bb ! i) ?bi"
      unfolding concat_if tk filter_map using vis by (auto intro!: map_cong filter_cong)
    also have "\<dots> = map (\<lambda>i. map (cell ?B side (Some (bb ! i)) None) ?cis) ?bi"
      using semi by (intro map_cong refl) (auto simp: cells)
    finally have "concat (map (\<lambda>b. final_rows J fl fr side b (M b)) (take n bb))
        = map (\<lambda>(b, p). map (cell ?B side (pick bb b) (pick [] p)) ?cis) (zip (map Some ?bi) (replicate (length ?bi) None))"
      unfolding zip_Some_None by (simp add: comp_def)
    moreover have "calculate_indices_by_join_type side n V d ?jt = Some (map Some ?bi, replicate (length ?bi) None)"
      using semi side need by (auto simp: calculate_indices_by_join_type_def need_to_produce_result_in_final_def Let_def pruning_indices)
    ultimately show ?thesis by (intro exI [of _ ?bi] exI [of _ "replicate (length ?bi) None"]) auto
  qed
qed

lemma determined_spec:
  assumes J: "shj_ok J kf hf norm fp fl fr" and side: "is_side side"
    and j: "j_build_side j = side" and w: "\<forall>row \<in> set (j_input_buffer j). length row = side_width fl fr side"
    and n: "n \<le> length (j_input_buffer j)"
    and visited: "need_to_produce_result_in_final side (so_join_type J) \<Longrightarrow>
      \<forall>i < n. i + j_deleted_offset j \<in> j_visited_rows j \<longleftrightarrow> (\<exists>p \<in> set ps. cond P side (j_input_buffer j ! i) p)"
  shows "sound (\<lambda>r. r \<noteq> Some [] \<and> rows_of r = settled_rows J fl fr P side (take n (j_input_buffer j)) ps)
    (build_side_determined_results J j n)"
proof (cases "0 < n \<and> need_to_produce_result_in_final side (so_join_type J)")
  case False
  then show ?thesis
    by (auto simp: build_side_determined_results_def j settled_rows_def final_rows_def concat_eq_Nil_conv)
next
  case True
  then have need: "need_to_produce_result_in_final side (so_join_type J)" by simp
  let ?bb = "j_input_buffer j"
  obtain bi pi where idx: "calculate_indices_by_join_type side n (j_visited_rows j) (j_deleted_offset j) (so_join_type J) = Some (map Some bi, pi)"
      "length bi = length pi" "\<forall>i \<in> set bi. i < n" "so_join_type J \<in> {LeftMark, RightMark} \<or> (\<forall>p \<in> set pi. p = None)"
      "settled_rows J fl fr P side (take n ?bb) ps
        = map (\<lambda>(b, p). map (cell (so_batch J) side (pick ?bb b) (pick [] p)) (so_column_indices J)) (zip (map Some bi) pi)"
    using final_indices [OF J side need w n visited [OF need]] unfolding settled_rows_def by blast
  have own: "indices_ok ?bb (side_width fl fr side) (map Some bi)"
    using idx(3) n w by (auto simp: indices_ok_def)
  have other: "indices_ok [] (side_width fl fr (negate side)) pi"
    if "ci \<in> set (so_column_indices J)" "ci_side ci \<noteq> No_Side" "ci_side ci \<noteq> side" for ci
    using that final_columns_own(2) [OF J side need that(1)] idx(4) by (auto simp: indices_ok_def)
  have "sound (\<lambda>rows. rows = settled_rows J fl fr P side (take n ?bb) ps)
    (build_batch_from_indices (so_batch J) ?bb [] (map Some bi) pi (so_column_indices J) side (so_join_type J))"
    unfolding idx(5) using idx(2) final_columns_own(1) [OF J side need]
    by (intro build_batch_spec [OF own other]) auto
  then show ?thesis
    using True idx(1) unfolding build_side_determined_results_def j
    by (auto intro: sound_bind)
qed

text \<open>All rows of a join: the matching pairs and what is owed to the rows of either side.\<close>

lemma settled_rows_cases:
  assumes "jt = so_join_type J"
  shows "\<not> need_to_produce_result_in_final side jt \<Longrightarrow> settled_rows J fl fr P side bs ps = []"
    and "need_to_produce_result_in_final side jt \<Longrightarrow> jt \<in> {Left, Right, Full} \<Longrightarrow> settled_rows J fl fr P side bs ps
      = map (\<lambda>b. pair_row side b (replicate (side_width fl fr (negate side)) None)) (filter (\<lambda>b. \<forall>p \<in> set ps. \<not> cond P side b p) bs)"
    and "need_to_produce_result_in_final side jt \<Longrightarrow> jt \<in> {LeftAnti, RightAnti} \<Longrightarrow> settled_rows J fl fr P side bs ps
      = filter (\<lambda>b. \<forall>p \<in> set ps. \<not> cond P side b p) bs"
    and "need_to_produce_result_in_final side jt \<Longrightarrow> jt \<in> {LeftSemi, RightSemi} \<Longrightarrow> settled_rows J fl fr P side bs ps
      = filter (\<lambda>b. \<exists>p \<in> set ps. cond P side b p) bs"
    and "need_to_produce_result_in_final side jt \<Longrightarrow> jt \<in> {LeftMark, RightMark} \<Longrightarrow> settled_rows J fl fr P side bs ps
      = map (\<lambda>b. b @ [bo_mark (so_batch J) (\<exists>p \<in> set ps. cond P side b p)]) bs"
  unfolding assms settled_rows_def by (induction bs) (auto simp: final_rows_def Let_def)

lemma join_rows_settled:
  "mset (join_rows (so_join_type J) P (\<lambda>ms. bo_mark (so_batch J) (ms \<noteq> [])) (length fl) (length fr) L R) =
     (if emits_pairs (so_join_type J) then pairs_of P Left_Side L R else {#})
     + mset (settled_rows J fl fr P Left_Side L R) + mset (settled_rows J fl fr P Right_Side R L)"
proof -
  have pairs: "mset (matched P (@) L R) = pairs_of P Left_Side L R"
    by (simp add: mset_matched pairs_of_def cond_def pair_row_def cong: if_cong)
  note settled = settled_rows_cases [OF refl, of Left_Side J] settled_rows_cases [OF refl, of Right_Side J]
  have marks: "filter Q xs \<noteq> [] \<longleftrightarrow> (\<exists>x \<in> set xs. Q x)" for Q and xs :: "'a option list list"
    by (auto simp: filter_empty_conv)
  show ?thesis
    by (cases "so_join_type J")
      (simp_all add: settled need_to_produce_result_in_final_def emits_pairs_def pairs inner_matched mset_left_outer
        mset_right_outer unmatched_def cond_def pair_row_def side_width_def marks del: join_rows.simps(1) mset_map mset_filter)
qed

section \<open>The invariant\<close>

text \<open>
  One side: it holds the rows it received, a row that is still buffered is visited exactly if it
  matches a row that the other side received, and a pruned row matches no row that is still to
  come.
\<close>

definition side_inv ::
  "('v, 'e, 'x) shj_ops \<Rightarrow> (join_side \<Rightarrow> 'v row \<Rightarrow> 'v key) \<Rightarrow> ('v key \<Rightarrow> u64) \<Rightarrow> ('v row \<Rightarrow> 'v row \<Rightarrow> bool) \<Rightarrow> join_side
   \<Rightarrow> 'v joiner \<Rightarrow> 'v row list \<Rightarrow> 'v row list \<Rightarrow> 'v row list \<Rightarrow> bool" where
  "side_inv J kf hf P side j rows others future \<longleftrightarrow>
     joiner_holds (ko_null_equality (so_keys J)) kf hf side j rows \<and> j_offset j = length rows
     \<and> (need_to_produce_result_in_final side (so_join_type J) \<longrightarrow>
          j_visited_rows j \<subseteq> {..<length rows}
          \<and> (\<forall>i < length rows. j_deleted_offset j \<le> i \<longrightarrow> (i \<in> j_visited_rows j \<longleftrightarrow> (\<exists>p \<in> set others. cond P side (rows ! i) p))))
     \<and> (\<forall>b \<in> set (take (j_deleted_offset j) rows). \<forall>p \<in> set future. \<not> cond P side b p)"

lemma joiner_holds_update [simp]:
  "joiner_holds ne kf hf side (j\<lparr>j_visited_rows := V\<rparr>) rows \<longleftrightarrow> joiner_holds ne kf hf side j rows"
  "joiner_holds ne kf hf side (j\<lparr>j_offset := n\<rparr>) rows \<longleftrightarrow> joiner_holds ne kf hf side j rows"
  by (simp_all add: joiner_holds_def)

lemma joiner_holds_visit: "joiner_holds ne kf hf side (visit J side' V j) rows \<longleftrightarrow> joiner_holds ne kf hf side j rows"
  by (simp add: joiner_holds_def visit_def)

lemma visit_fields [simp]:
  "j_deleted_offset (visit J side V j) = j_deleted_offset j" "j_offset (visit J side V j) = j_offset j"
  "j_input_buffer (visit J side V j) = j_input_buffer j" "j_build_side (visit J side V j) = j_build_side j"
  by (simp_all add: visit_def)

lemma side_inv_buffer:
  assumes "side_inv J kf hf P side j rows others future"
  shows "j_deleted_offset j \<le> length rows" "j_input_buffer j = drop (j_deleted_offset j) rows" "j_build_side j = side"
    "rows = take (j_deleted_offset j) rows @ j_input_buffer j"
  using assms by (auto simp: side_inv_def joiner_holds_def)

lemma build_visit_inv:
  assumes inv: "side_inv J kf hf P side j rows others (pb @ future)"
  shows "side_inv J kf hf P side (visit J side ((\<lambda>i. i + j_deleted_offset j) ` {b. b < length (j_input_buffer j)
      \<and> (\<exists>p \<in> set pb. cond P side (j_input_buffer j ! b) p)}) j) rows (others @ pb) future"
proof -
  let ?d = "j_deleted_offset j"
  let ?V = "(\<lambda>i. i + ?d) ` {b. b < length (j_input_buffer j) \<and> (\<exists>p \<in> set pb. cond P side (j_input_buffer j ! b) p)}"
  note buf = side_inv_buffer [OF inv]
  have V: "i \<in> ?V \<longleftrightarrow> (\<exists>p \<in> set pb. cond P side (rows ! i) p)" if "?d \<le> i" "i < length rows" for i
  proof -
    have "i - ?d < length (j_input_buffer j)" "j_input_buffer j ! (i - ?d) = rows ! i" "i = (i - ?d) + ?d"
      using that buf(1,2) by simp_all
    then show ?thesis by (auto simp: image_iff) (metis+)
  qed
  have "?V \<subseteq> {..<length rows}" using buf(1,2) by auto
  then show ?thesis
    using inv V unfolding side_inv_def joiner_holds_visit by (auto simp: visit_def)
qed

lemma probe_visit_inv:
  assumes inv: "side_inv J kf hf P side j rows others future"
    and h: "joiner_holds (ko_null_equality (so_keys J)) kf hf side j1 (rows @ pb)"
    and j1: "j_offset j1 = length rows" "j_deleted_offset j1 = j_deleted_offset j" "j_visited_rows j1 = j_visited_rows j"
    and bb: "\<And>p. p \<in> set pb \<Longrightarrow> (\<exists>b \<in> set bb. cond P side p b) \<longleftrightarrow> (\<exists>b \<in> set others. cond P side p b)"
  shows "side_inv J kf hf P side ((visit J side ((\<lambda>i. i + j_offset j1) ` {p. p < length pb \<and> (\<exists>b \<in> set bb. cond P side (pb ! p) b)}) j1)
      \<lparr>j_offset := j_offset j1 + length pb\<rparr>) (rows @ pb) others future"
proof -
  let ?n = "length rows"
  let ?V = "(\<lambda>i. i + j_offset j1) ` {p. p < length pb \<and> (\<exists>b \<in> set bb. cond P side (pb ! p) b)}"
  note buf = side_inv_buffer [OF inv]
  have V: "i \<in> ?V \<longleftrightarrow> (\<exists>b \<in> set others. cond P side ((rows @ pb) ! i) b)" if "?n \<le> i" "i < length (rows @ pb)" for i
  proof -
    have "i - ?n < length pb" "(rows @ pb) ! i = pb ! (i - ?n)" "i = (i - ?n) + ?n" using that by (auto simp: nth_append)
    then show ?thesis using bb [of "pb ! (i - ?n)"] j1(1) by (auto simp: image_iff)
  qed
  have old: "i \<notin> ?V" if "i < ?n" for i using that j1(1) by auto
  have sub: "?V \<subseteq> {..<length (rows @ pb)}" using j1(1) by auto
  have vis: "j_visited_rows j \<subseteq> {..<?n}" "\<forall>i < ?n. j_deleted_offset j \<le> i \<longrightarrow> (i \<in> j_visited_rows j \<longleftrightarrow> (\<exists>p \<in> set others. cond P side (rows ! i) p))"
    if "need_to_produce_result_in_final side (so_join_type J)"
    using inv that unfolding side_inv_def by blast+
  have "i \<in> j_visited_rows j \<union> ?V \<longleftrightarrow> (\<exists>p \<in> set others. cond P side ((rows @ pb) ! i) p)"
    if "need_to_produce_result_in_final side (so_join_type J)" "i < length (rows @ pb)" "j_deleted_offset j \<le> i" for i
  proof (cases "i < ?n")
    case True
    then show ?thesis using vis(2) [OF that(1)] old that(3) by (auto simp: nth_append)
  next
    case False
    then show ?thesis using vis(1) [OF that(1)] V that(2) by auto
  qed
  moreover have "j_visited_rows j \<union> ?V \<subseteq> {..<length (rows @ pb)}"
    if "need_to_produce_result_in_final side (so_join_type J)" using vis(1) [OF that] sub by auto
  ultimately show ?thesis
    using inv j1 h buf(1) unfolding side_inv_def visit_def by simp
qed

lemma prune_inv:
  assumes inv: "side_inv J kf hf P side j rows others future" and small: "length rows < 2 ^ 64"
    and n: "n \<le> length (j_input_buffer j)" and safe: "\<forall>b \<in> set (take n (j_input_buffer j)). \<forall>p \<in> set future. \<not> cond P side b p"
  shows "sound (\<lambda>j'. side_inv J kf hf P side j' rows others future \<and> j_deleted_offset j' = j_deleted_offset j + n)
    (prune_internal_state j n :: 'e join_error + _)"
proof -
  let ?d = "j_deleted_offset j"
  note buf = side_inv_buffer [OF inv]
  have "joiner_holds (ko_null_equality (so_keys J)) kf hf side j rows" using inv by (simp add: side_inv_def)
  from prune_internal_state_holds [OF this n small, where 'e = 'e] obtain j' where
    j': "(prune_internal_state j n :: 'e join_error + _) = Inr j'" "joiner_holds (ko_null_equality (so_keys J)) kf hf side j' rows"
      "j_offset j' = j_offset j" "j_deleted_offset j' = ?d + n" "j_visited_rows j' = j_visited_rows j - {?d..<?d + n}"
    by blast
  have "take (?d + n) rows = take ?d rows @ take n (j_input_buffer j)" using buf(2) by (simp add: take_add)
  then show ?thesis using inv safe j' unfolding side_inv_def by auto
qed

section \<open>A batch arrives\<close>

text \<open>What has been returned when the sides have received and pruned the given rows.\<close>

definition emitted ::
  "('v, 'e, 'x) shj_ops \<Rightarrow> bool list \<Rightarrow> bool list \<Rightarrow> ('v row \<Rightarrow> 'v row \<Rightarrow> bool) \<Rightarrow> join_side \<Rightarrow> 'v row list \<Rightarrow> nat \<Rightarrow> 'v row list \<Rightarrow> nat
   \<Rightarrow> 'v row multiset" where
  "emitted J fl fr P side bs db ps dp =
     (if emits_pairs (so_join_type J) then pairs_of P side bs ps else {#})
     + mset (settled_rows J fl fr P side (take db bs) ps) + mset (settled_rows J fl fr P (negate side) (take dp ps) bs)"

lemma emitted_swap: "is_side side \<Longrightarrow> emitted J fl fr P (negate side) ps dp bs db = emitted J fl fr P side bs db ps dp"
  by (auto simp: emitted_def pairs_of_swap ac_simps)

lemma combine_spec: "sound (\<lambda>r. (a \<noteq> Some [] \<longrightarrow> b \<noteq> Some [] \<longrightarrow> r \<noteq> Some []) \<and> rows_of r = rows_of a @ rows_of b) (combine_two_batches K a b)"
  by (auto simp: combine_two_batches_def intro!: sound_unless_error split: option.split)

lemma update_reservation_spec: "sound (\<lambda>s'. \<exists>y. s' = s\<lparr>sh_outer := y\<rparr>) (update_reservation J (s\<lparr>sh_outer := x\<rparr>))"
  unfolding update_reservation_def by (auto intro!: sound_bind [OF sound_or_error [where Q = "\<lambda>_. True"]])

definition prune_step ::
  "('v, 'e, 'x) shj_ops \<Rightarrow> 'v joiner \<Rightarrow> 'v row list \<Rightarrow> 'x \<Rightarrow> 'e join_error + 'v row list option \<times> 'v joiner \<times> 'x" where
  "prune_step J build1 pb x0 =
     (case so_prune_length J of
        Some prune \<Rightarrow>
          res_bind (or_error (prune x0 (j_build_side build1) (j_input_buffer build1) pb)) (\<lambda>(prune_length, x).
          res_bind (build_side_determined_results J build1 prune_length) (\<lambda>result.
          res_bind (prune_internal_state build1 prune_length) (\<lambda>build2.
            Inr (result, build2, x))))
      | None \<Rightarrow> Inr (None, build1, x0))"

lemma side_inv_visited:
  assumes inv: "side_inv J kf hf P side j rows others future"
    and need: "need_to_produce_result_in_final side (so_join_type J)" and n: "n \<le> length (j_input_buffer j)"
  shows "\<forall>i < n. i + j_deleted_offset j \<in> j_visited_rows j \<longleftrightarrow> (\<exists>p \<in> set others. cond P side (j_input_buffer j ! i) p)"
proof (intro allI impI)
  note buf = side_inv_buffer [OF inv]
  fix i assume "i < n"
  then have "i + j_deleted_offset j < length rows" "j_input_buffer j ! i = rows ! (i + j_deleted_offset j)"
    using n buf(1,2) by (auto simp: add.commute)
  then show "i + j_deleted_offset j \<in> j_visited_rows j \<longleftrightarrow> (\<exists>p \<in> set others. cond P side (j_input_buffer j ! i) p)"
    using inv need unfolding side_inv_def by simp
qed

lemma prune_step_spec:
  assumes J: "shj_ok J kf hf norm fp fl fr" and side: "is_side side"
    and inv: "side_inv J kf hf P side j rows others future" and small: "length rows < 2 ^ 64"
    and w: "\<forall>row \<in> set rows. length row = side_width fl fr side"
    and prune: "\<And>prune n x'. so_prune_length J = Some prune \<Longrightarrow> prune x side (j_input_buffer j) pb = Inr (n, x') \<Longrightarrow>
      n \<le> length (j_input_buffer j) \<and> (\<forall>b \<in> set (take n (j_input_buffer j)). \<forall>p \<in> set future. \<not> cond P side b p)"
  shows "sound (\<lambda>(r, j', x'). side_inv J kf hf P side j' rows others future \<and> r \<noteq> Some []
      \<and> settled_rows J fl fr P side (take (j_deleted_offset j') rows) others
        = settled_rows J fl fr P side (take (j_deleted_offset j) rows) others @ rows_of r) (prune_step J j pb x)"
proof (cases "so_prune_length J")
  case None
  then show ?thesis using inv by (simp add: prune_step_def)
next
  case (Some prune)
  note buf = side_inv_buffer [OF inv]
  have wb: "\<forall>row \<in> set (j_input_buffer j). length row = side_width fl fr side" using w buf(2) by (auto dest: in_set_dropD)
  note vis = side_inv_visited [OF inv]
  have "sound (\<lambda>(r, j', x'). side_inv J kf hf P side j' rows others future \<and> r \<noteq> Some []
      \<and> settled_rows J fl fr P side (take (j_deleted_offset j') rows) others
        = settled_rows J fl fr P side (take (j_deleted_offset j) rows) others @ rows_of r)
    (res_bind (or_error (prune x side (j_input_buffer j) pb)) (\<lambda>(prune_length, x).
          res_bind (build_side_determined_results J j prune_length) (\<lambda>result.
          res_bind (prune_internal_state j prune_length) (\<lambda>build2. Inr (result, build2, x)))))"
  proof (rule sound_bind [OF sound_or_error [where Q = "\<lambda>(n, x'). n \<le> length (j_input_buffer j)
      \<and> (\<forall>b \<in> set (take n (j_input_buffer j)). \<forall>p \<in> set future. \<not> cond P side b p)"]])
    fix nx assume "prune x side (j_input_buffer j) pb = Inr nx"
    then show "case nx of (n, x') \<Rightarrow> n \<le> length (j_input_buffer j)
      \<and> (\<forall>b \<in> set (take n (j_input_buffer j)). \<forall>p \<in> set future. \<not> cond P side b p)"
      using prune [OF Some] by (cases nx) simp
  next
    fix nx assume "case nx of (n, x') \<Rightarrow> n \<le> length (j_input_buffer j)
      \<and> (\<forall>b \<in> set (take n (j_input_buffer j)). \<forall>p \<in> set future. \<not> cond P side b p)"
    then obtain n x' where nx: "nx = (n, x')" "n \<le> length (j_input_buffer j)"
      "\<forall>b \<in> set (take n (j_input_buffer j)). \<forall>p \<in> set future. \<not> cond P side b p" by (cases nx) simp
    have split: "take (j_deleted_offset j + n) rows = take (j_deleted_offset j) rows @ take n (j_input_buffer j)"
      using buf(2) by (simp add: take_add)
    show "sound (\<lambda>(r, j', x'). side_inv J kf hf P side j' rows others future \<and> r \<noteq> Some []
      \<and> settled_rows J fl fr P side (take (j_deleted_offset j') rows) others
        = settled_rows J fl fr P side (take (j_deleted_offset j) rows) others @ rows_of r)
     ((\<lambda>(prune_length, x). res_bind (build_side_determined_results J j prune_length) (\<lambda>result.
          res_bind (prune_internal_state j prune_length) (\<lambda>build2. Inr (result, build2, x)))) nx)"
      unfolding nx prod.case
      by (intro sound_bind [OF determined_spec [OF J side buf(3) wb nx(2) vis [OF _ nx(2)]]] sound_bind [OF prune_inv [OF inv small nx(2,3)]])
        (auto simp: split)
  qed
  then show ?thesis using Some buf(3) by (simp add: prune_step_def)
qed

lemma perform_join_eq:
  "perform_join_for_given_side J s pb side =
     res_bind (update_internal_state (so_keys J) (side_joiner side s) pb) (\<lambda>probe1.
     res_bind (join_with_probe_batch J (side_joiner (negate side) s) probe1 pb) (\<lambda>(equal_result, build1, probe2).
     res_bind (prune_step J build1 pb (sh_outer s)) (\<lambda>(anti_result, build2, x).
     res_bind (combine_two_batches (so_keys J) equal_result anti_result) (\<lambda>result.
     res_bind (update_reservation J ((set_joiners side (probe2\<lparr>j_offset := j_offset probe2 + length pb\<rparr>) build2 s)\<lparr>sh_outer := x\<rparr>)) (\<lambda>s'.
       Inr (result, s'))))))"
  by (simp add: perform_join_for_given_side_def prune_step_def Let_def)

lemma side_joiner_set [simp]:
  assumes "is_side side"
  shows "side_joiner side (set_joiners side jp jb s) = jp" "side_joiner (negate side) (set_joiners side jp jb s) = jb"
    "side_joiner side' (s\<lparr>sh_outer := x\<rparr>) = side_joiner side' s"
  using assms by (auto simp: side_joiner_def set_joiners_def)

text \<open>The rows that were pruned do not matter for a batch that arrives later.\<close>

lemma pruned_no_match:
  assumes "side_inv J kf hf P side j rows others (pb @ future)" and "b \<in> set (take (j_deleted_offset j) rows)" and "p \<in> set pb"
  shows "\<not> cond P side b p"
  using assms by (auto simp: side_inv_def)

lemma live_matches:
  assumes inv: "side_inv J kf hf P side j rows others (pb @ future)" and side: "is_side side" and p: "p \<in> set pb"
  shows "(\<exists>b \<in> set (j_input_buffer j). cond P (negate side) p b) \<longleftrightarrow> (\<exists>b \<in> set rows. cond P (negate side) p b)"
proof -
  have "set rows = set (take (j_deleted_offset j) rows) \<union> set (j_input_buffer j)"
    unfolding side_inv_buffer(2) [OF inv] by (metis append_take_drop_id set_append)
  then show ?thesis using pruned_no_match [OF inv _ p] cond_negate [OF side, of P p] by blast
qed

lemma live_pairs:
  assumes side: "is_side side" and inv: "side_inv J kf hf P side j rows others (pb @ future)"
  shows "pairs_of P side (j_input_buffer j) pb = pairs_of P (negate side) pb rows"
proof -
  have "pairs_of P side (take (j_deleted_offset j) rows @ drop (j_deleted_offset j) rows) pb
      = pairs_of P side (take (j_deleted_offset j) rows) pb + pairs_of P side (drop (j_deleted_offset j) rows) pb"
    by (rule pairs_of_append)
  moreover have "pairs_of P side (take (j_deleted_offset j) rows) pb = {#}"
    using pruned_no_match [OF inv] by (rule pairs_of_none)
  ultimately show ?thesis
    unfolding side_inv_buffer(2) [OF inv] append_take_drop_id using pairs_of_swap [OF side, of P pb rows] by simp
qed

lemma sound_bind_triple:
  "sound (\<lambda>(a, b, c). Q a b c) r \<Longrightarrow> (\<And>a b c. Q a b c \<Longrightarrow> sound Q' (f a b c)) \<Longrightarrow> sound Q' (res_bind r (\<lambda>(a, b, c). f a b c))"
  by (erule sound_bind) auto

lemma perform_join_spec:
  assumes J: "shj_ok J kf hf norm fp fl fr" and P: "P = join_condition J kf norm fp" and side: "is_side side"
    and invp: "side_inv J kf hf P side (side_joiner side s) prows brows bfut"
    and invb: "side_inv J kf hf P (negate side) (side_joiner (negate side) s) brows prows (pb @ pfut)"
    and small: "length brows < 2 ^ 64" "length prows + length pb < 2 ^ 64" "length pb < 2 ^ 32"
    and wb: "\<forall>row \<in> set brows. length row = side_width fl fr (negate side)" and wp: "\<forall>row \<in> set pb. length row = side_width fl fr side"
    and prune: "\<And>prune x n x'. so_prune_length J = Some prune \<Longrightarrow>
      prune x (negate side) (j_input_buffer (side_joiner (negate side) s)) pb = Inr (n, x') \<Longrightarrow>
      n \<le> length (j_input_buffer (side_joiner (negate side) s))
      \<and> (\<forall>b \<in> set (take n (j_input_buffer (side_joiner (negate side) s))). \<forall>p \<in> set pfut. \<not> cond P (negate side) b p)"
  shows "sound (\<lambda>(r, s'). side_inv J kf hf P side (side_joiner side s') (prows @ pb) brows bfut
      \<and> side_inv J kf hf P (negate side) (side_joiner (negate side) s') brows (prows @ pb) pfut \<and> r \<noteq> Some []
      \<and> emitted J fl fr P side (prows @ pb) (j_deleted_offset (side_joiner side s')) brows (j_deleted_offset (side_joiner (negate side) s'))
        = emitted J fl fr P side prows (j_deleted_offset (side_joiner side s)) brows (j_deleted_offset (side_joiner (negate side) s)) + mset (rows_of r))
    (perform_join_for_given_side J s pb side)"
proof -
  let ?jb = "side_joiner (negate side) s" and ?jp = "side_joiner side s" and ?ns = "negate side"
  let ?bb = "j_input_buffer ?jb"
  have ns: "is_side ?ns" "negate ?ns = side" using side by auto
  note bufb = side_inv_buffer [OF invb] and bufp = side_inv_buffer [OF invp]
  have hb: "joiner_holds (ko_null_equality (so_keys J)) kf hf ?ns ?jb brows" and hp: "joiner_holds (ko_null_equality (so_keys J)) kf hf side ?jp prows"
    and offp: "j_offset ?jp = length prows" using invb invp by (auto simp: side_inv_def)
  have wbb: "\<forall>row \<in> set ?bb. length row = side_width fl fr ?ns" using wb bufb(2) by (auto dest: in_set_dropD)
  note live = live_matches [OF invb, unfolded ns(2)] and pairs = live_pairs [OF ns(1) invb, unfolded ns(2)]
  have out: "emitted J fl fr P side (prows @ pb) (j_deleted_offset ?jp) brows d
      = (if emits_pairs (so_join_type J) then pairs_of P side prows brows + pairs_of P ?ns ?bb pb else {#})
        + mset (settled_rows J fl fr P side (take (j_deleted_offset ?jp) prows) brows)
        + mset (settled_rows J fl fr P ?ns (take d brows) (prows @ pb))" for d
    using bufp(1) by (simp add: emitted_def pairs)
  have keep: "settled_rows J fl fr P ?ns (take (j_deleted_offset ?jb) brows) (prows @ pb)
      = settled_rows J fl fr P ?ns (take (j_deleted_offset ?jb) brows) prows"
    using pruned_no_match [OF invb] by (rule settled_rows_more)
  let ?Q = "\<lambda>(r, s'). side_inv J kf hf P side (side_joiner side s') (prows @ pb) brows bfut
      \<and> side_inv J kf hf P ?ns (side_joiner ?ns s') brows (prows @ pb) pfut \<and> r \<noteq> Some []
      \<and> emitted J fl fr P side (prows @ pb) (j_deleted_offset (side_joiner side s')) brows (j_deleted_offset (side_joiner ?ns s'))
        = emitted J fl fr P side prows (j_deleted_offset ?jp) brows (j_deleted_offset ?jb) + mset (rows_of r)"
  let ?last = "\<lambda>jp2 r1 (r2, jb2, x). res_bind (combine_two_batches (so_keys J) r1 r2) (\<lambda>result.
      res_bind (update_reservation J ((set_joiners side (jp2\<lparr>j_offset := j_offset jp2 + length pb\<rparr>) jb2 s)\<lparr>sh_outer := x\<rparr>)) (\<lambda>s'.
        Inr (result, s')))"
  show ?thesis unfolding perform_join_eq
  proof (rule sound_bind [OF update_internal_state_holds [OF shj_okD(1) [OF J] hp offp small(2)]], elim conjE)
    fix jp1
    assume jp1: "joiner_holds (ko_null_equality (so_keys J)) kf hf side jp1 (prows @ pb)" "j_offset jp1 = j_offset ?jp"
      "j_deleted_offset jp1 = j_deleted_offset ?jp" "j_visited_rows jp1 = j_visited_rows ?jp"
    let ?jb1 = "visit J ?ns ((\<lambda>i. i + j_deleted_offset ?jb) ` {b. b < length ?bb \<and> (\<exists>p \<in> set pb. cond P ?ns (?bb ! b) p)}) ?jb"
    let ?jp2 = "visit J side ((\<lambda>i. i + j_offset jp1) ` {p. p < length pb \<and> (\<exists>b \<in> set ?bb. cond P side (pb ! p) b)}) jp1"
    have join: "sound (\<lambda>(r, build1, probe1). build1 = ?jb1 \<and> probe1 = ?jp2 \<and> r \<noteq> Some []
        \<and> mset (rows_of r) = (if emits_pairs (so_join_type J) then pairs_of P ?ns ?bb pb else {#})) (join_with_probe_batch J ?jb jp1 pb)"
      using join_with_probe_batch_spec [OF J ns(1) hb small(1,3) wbb, of jp1] wp cond_negate [OF side, of P] unfolding ns(2) P by simp
    have invb1: "side_inv J kf hf P ?ns ?jb1 brows (prows @ pb) pfut" by (rule build_visit_inv [OF invb])
    have invp2: "side_inv J kf hf P side (?jp2\<lparr>j_offset := j_offset ?jp2 + length pb\<rparr>) (prows @ pb) brows bfut"
      using probe_visit_inv [OF invp jp1(1) _ jp1(3,4) live [OF ns(1)]] jp1(2) offp by simp
    have prune1: "sound (\<lambda>(r, j', x'). side_inv J kf hf P ?ns j' brows (prows @ pb) pfut \<and> r \<noteq> Some []
        \<and> settled_rows J fl fr P ?ns (take (j_deleted_offset j') brows) (prows @ pb)
          = settled_rows J fl fr P ?ns (take (j_deleted_offset ?jb) brows) (prows @ pb) @ rows_of r) (prune_step J ?jb1 pb x)" for x
      by (rule prune_step_spec [OF J ns(1) invb1 small(1) wb, unfolded visit_fields]) (rule prune)
    have final: "sound ?Q (?last ?jp2 r1 (r2, jb2, x))"
      if r1: "r1 \<noteq> Some []" "mset (rows_of r1) = (if emits_pairs (so_join_type J) then pairs_of P ?ns ?bb pb else {#})"
        and r2: "r2 \<noteq> Some []" "side_inv J kf hf P ?ns jb2 brows (prows @ pb) pfut"
          "settled_rows J fl fr P ?ns (take (j_deleted_offset jb2) brows) (prows @ pb)
            = settled_rows J fl fr P ?ns (take (j_deleted_offset ?jb) brows) (prows @ pb) @ rows_of r2" for r1 r2 jb2 x
    proof -
      have total: "emitted J fl fr P side (prows @ pb) (j_deleted_offset ?jp) brows (j_deleted_offset jb2)
          = emitted J fl fr P side prows (j_deleted_offset ?jp) brows (j_deleted_offset ?jb) + mset (rows_of r1 @ rows_of r2)"
        unfolding out by (simp add: r2(3) keep r1(2) emitted_def)
      then show ?thesis
        using invp2 r1(1) r2(1,2) jp1(3) unfolding prod.case
        by (intro sound_bind [OF combine_spec] sound_bind [OF update_reservation_spec]) (auto simp: side_joiner_set [OF side])
    qed
    show "sound ?Q (res_bind (join_with_probe_batch J ?jb jp1 pb) (\<lambda>(r1, jb1, jp2).
        res_bind (prune_step J jb1 pb (sh_outer s)) (?last jp2 r1)))"
    proof (rule sound_bind_triple [OF join], elim conjE)
      fix r1 jb1 jp2
      assume r1: "jb1 = ?jb1" "jp2 = ?jp2" "r1 \<noteq> Some []" "mset (rows_of r1) = (if emits_pairs (so_join_type J) then pairs_of P ?ns ?bb pb else {#})"
      show "sound ?Q (res_bind (prune_step J jb1 pb (sh_outer s)) (?last jp2 r1))"
        unfolding r1(1,2)
        by (rule sound_bind_triple [OF prune1], elim conjE, rule final [OF r1(3,4), unfolded prod.case])
    qed
  qed
qed

end
