(* ===== verification/Symmetric_Correct.thy ===== *)
theory Symmetric_Correct
  imports Symmetric_Batch
begin

text \<open>
  The symmetric hash join returns the join: whatever the order in which batches arrive and however
  rows are pruned, the output is a permutation of the rows of the join, for all ten join types.
\<close>

section \<open>The stream\<close>

fun stream_rows :: "('v, 'e) input_poll list \<Rightarrow> 'v row list" where
  "stream_rows [] = []"
| "stream_rows (Input_Item (Inr batch) # rest) = batch @ stream_rows rest"
| "stream_rows (_ # rest) = stream_rows rest"

definition batches_small :: "('v, 'e) input_poll list \<Rightarrow> bool" where
  "batches_small ps = list_all (\<lambda>p. case p of Input_Item (Inr batch) \<Rightarrow> length batch < 2 ^ 32 | _ \<Rightarrow> True) ps"

text \<open>The rows of both inputs have the width of their schema, and their numbers fit the machine.\<close>

definition inputs_ok :: "bool list \<Rightarrow> bool list \<Rightarrow> (join_side \<Rightarrow> 'v row list) \<Rightarrow> bool" where
  "inputs_ok fl fr inp \<longleftrightarrow> (\<forall>side. length (inp side) < 2 ^ 64 \<and> (\<forall>row \<in> set (inp side). length row = side_width fl fr side))"

text \<open>
  Pruning is sound: the rows that it removes from the front of a buffer match no row that the
  other side delivers after the current batch.
\<close>

definition prune_ok :: "('v, 'e, 'x) shj_ops \<Rightarrow> ('v row \<Rightarrow> 'v row \<Rightarrow> bool) \<Rightarrow> (join_side \<Rightarrow> 'v row list) \<Rightarrow> bool" where
  "prune_ok J P inp \<longleftrightarrow>
     (\<forall>prune x side bb pb n x' skipped later before after.
        so_prune_length J = Some prune \<longrightarrow> is_side side \<longrightarrow> inp side = skipped @ bb @ later \<longrightarrow> inp (negate side) = before @ pb @ after \<longrightarrow>
        prune x side bb pb = Inr (n, x') \<longrightarrow> n \<le> length bb \<and> (\<forall>b \<in> set (take n bb). \<forall>p \<in> set after. \<not> cond P side b p))"

definition side_stream :: "join_side \<Rightarrow> ('v, 'e, 'x) shj \<Rightarrow> ('v, 'e) input_poll list" where
  "side_stream side s = (if side = Left_Side then sh_left_stream s else sh_right_stream s)"

definition set_stream :: "join_side \<Rightarrow> ('v, 'e) input_poll list \<Rightarrow> ('v, 'e, 'x) shj \<Rightarrow> ('v, 'e, 'x) shj" where
  "set_stream side ps s = (if side = Left_Side then s\<lparr>sh_left_stream := ps\<rparr> else s\<lparr>sh_right_stream := ps\<rparr>)"

text \<open>The four functions that poll an input differ in the side and the states they enter.\<close>

definition fetch ::
  "('v, 'e, 'x) shj_ops \<Rightarrow> join_side \<Rightarrow> shj_state \<Rightarrow> shj_state \<Rightarrow> ('v, 'e, 'x) shj
   \<Rightarrow> 'e join_error + 'v stateful_result polling \<times> ('v, 'e, 'x) shj" where
  "fetch J side after at_end s =
     (case side_stream side s of
        [] \<Rightarrow> Inr (Is_Ready Continue, (set_stream side [] s)\<lparr>sh_state := at_end\<rparr>)
      | Input_Pending # rest \<Rightarrow> Inr (Not_Ready, set_stream side rest s)
      | Input_Item (Inl e) # rest \<Rightarrow> Inl (Join_Failed e)
      | Input_Item (Inr batch) # rest \<Rightarrow>
          if length batch = 0 then Inr (Is_Ready Continue, set_stream side rest s)
          else process_batch J ((set_stream side rest s)\<lparr>sh_state := after\<rparr>) batch side)"

lemma same_state [simp]: "s\<lparr>sh_left_stream := ps, sh_state := sh_state s\<rparr> = s\<lparr>sh_left_stream := ps\<rparr>"
  "s\<lparr>sh_right_stream := ps, sh_state := sh_state s\<rparr> = s\<lparr>sh_right_stream := ps\<rparr>"
  by (simp_all)

lemma fetch_eqs:
  "fetch_next_from_right_stream J s = fetch J Right_Side PullLeft RightExhausted s"
  "fetch_next_from_left_stream J s = fetch J Left_Side PullRight LeftExhausted s"
  "handle_right_stream_end J s = fetch J Left_Side (sh_state s) (BothExhausted False) s"
  "handle_left_stream_end J s = fetch J Right_Side (sh_state s) (BothExhausted False) s"
  by (simp_all add: fetch_next_from_right_stream_def fetch_next_from_left_stream_def handle_right_stream_end_def
      handle_left_stream_end_def fetch_def side_stream_def set_stream_def Let_def split: list.split input_poll.split sum.split)

text \<open>Both sides hold what they received, and the output so far is what is owed for it.\<close>

definition received_inv ::
  "('v, 'e, 'x) shj_ops \<Rightarrow> bool list \<Rightarrow> bool list \<Rightarrow> (join_side \<Rightarrow> 'v row \<Rightarrow> 'v key) \<Rightarrow> ('v key \<Rightarrow> u64) \<Rightarrow> ('v row \<Rightarrow> 'v row \<Rightarrow> bool)
   \<Rightarrow> (join_side \<Rightarrow> 'v row list) \<Rightarrow> (join_side \<Rightarrow> 'v row list) \<Rightarrow> ('v, 'e, 'x) shj \<Rightarrow> 'v row list \<Rightarrow> bool" where
  "received_inv J fl fr kf hf P inp got s out \<longleftrightarrow>
     (\<forall>side. is_side side \<longrightarrow> inp side = got side @ stream_rows (side_stream side s) \<and> batches_small (side_stream side s)
        \<and> side_inv J kf hf P side (side_joiner side s) (got side) (got (negate side)) (stream_rows (side_stream (negate side) s)))
     \<and> mset out = emitted J fl fr P Left_Side (got Left_Side) (j_deleted_offset (sh_left s)) (got Right_Side) (j_deleted_offset (sh_right s))"

lemma side_stream_simps [simp]:
  "is_side side \<Longrightarrow> side_stream side (set_stream side ps s) = ps"
  "is_side side \<Longrightarrow> side_stream (negate side) (set_stream side ps s) = side_stream (negate side) s"
  "side_stream side' (s\<lparr>sh_state := st\<rparr>) = side_stream side' s"
  "side_joiner side' (set_stream side ps s) = side_joiner side' s" "side_joiner side' (s\<lparr>sh_state := st\<rparr>) = side_joiner side' s"
  "sh_transformer (set_stream side ps s) = sh_transformer s" "sh_state (set_stream side ps s) = sh_state s"
  by (auto simp: side_stream_def set_stream_def side_joiner_def)

lemma emitted_side:
  "mset out = emitted J fl fr P Left_Side (got Left_Side) (j_deleted_offset (sh_left s)) (got Right_Side) (j_deleted_offset (sh_right s))
   \<longleftrightarrow> mset out = emitted J fl fr P side (got side) (j_deleted_offset (side_joiner side s)) (got (negate side)) (j_deleted_offset (side_joiner (negate side) s))"
  if "is_side side"
  using that emitted_swap [of Left_Side J fl fr P "got Right_Side"] by (auto simp: side_joiner_def)

lemma received_invI:
  assumes side: "is_side side"
    and "inp side = got side @ stream_rows (side_stream side s)"
    and "inp (negate side) = got (negate side) @ stream_rows (side_stream (negate side) s)"
    and "batches_small (side_stream side s)" and "batches_small (side_stream (negate side) s)"
    and "side_inv J kf hf P side (side_joiner side s) (got side) (got (negate side)) (stream_rows (side_stream (negate side) s))"
    and "side_inv J kf hf P (negate side) (side_joiner (negate side) s) (got (negate side)) (got side) (stream_rows (side_stream side s))"
    and "mset out = emitted J fl fr P side (got side) (j_deleted_offset (side_joiner side s)) (got (negate side)) (j_deleted_offset (side_joiner (negate side) s))"
  shows "received_inv J fl fr kf hf P inp got s out"
proof -
  have sides: "x = side \<and> negate x = negate side \<or> x = negate side \<and> negate x = side" if "is_side x" for x
    using that side by auto
  have "inp x = got x @ stream_rows (side_stream x s) \<and> batches_small (side_stream x s)
      \<and> side_inv J kf hf P x (side_joiner x s) (got x) (got (negate x)) (stream_rows (side_stream (negate x) s))" if "is_side x" for x
    using sides [OF that] assms(2-7) by (elim disjE conjE) (simp_all only:)
  then show ?thesis
    unfolding received_inv_def using emitted_side [OF side, THEN iffD2, OF assms(8)] by simp
qed

lemma process_batch_spec:
  assumes J: "shj_ok J kf hf norm fp fl fr" and P: "P = join_condition J kf norm fp" and side: "is_side side"
    and inp: "inputs_ok fl fr inp" and pr: "prune_ok J P inp"
    and inv: "received_inv J fl fr kf hf P inp got s out" and stream: "side_stream side s = Input_Item (Inr b) # rest"
  shows "sound (\<lambda>(r, s'). \<exists>ob. r = Is_Ready (if ob \<noteq> None then Ready_With ob else Continue) \<and> ob \<noteq> Some []
      \<and> received_inv J fl fr kf hf P inp (got(side := got side @ b)) s' (out @ rows_of ob)
      \<and> side_stream side s' = rest \<and> side_stream (negate side) s' = side_stream (negate side) s
      \<and> sh_state s' = st \<and> sh_transformer s' = sh_transformer s)
    (process_batch J ((set_stream side rest s)\<lparr>sh_state := st\<rparr>) b side)"
proof -
  let ?ns = "negate side" and ?s1 = "(set_stream side rest s)\<lparr>sh_state := st\<rparr>"
  have ns: "is_side ?ns" "negate ?ns = side" "?ns \<noteq> side" using side by auto
  have I: "inp x = got x @ stream_rows (side_stream x s)" "batches_small (side_stream x s)"
      "side_inv J kf hf P x (side_joiner x s) (got x) (got (negate x)) (stream_rows (side_stream (negate x) s))" if "is_side x" for x
    using inv that unfolding received_inv_def by blast+
  have out: "mset out = emitted J fl fr P side (got side) (j_deleted_offset (side_joiner side s)) (got ?ns) (j_deleted_offset (side_joiner ?ns s))"
    by (rule emitted_side [OF side, THEN iffD1]) (use inv in \<open>simp add: received_inv_def\<close>)
  have inp_p: "inp side = got side @ b @ stream_rows rest" using I(1) [OF side] stream by simp
  have len: "length (inp x) < 2 ^ 64" "\<forall>row \<in> set (inp x). length row = side_width fl fr x" for x using inp unfolding inputs_ok_def by blast+
  have small: "length (got ?ns) < 2 ^ 64" "length (got side) + length b < 2 ^ 64" "length b < 2 ^ 32"
    using len(1) [of ?ns] len(1) [of side] I(1) [OF ns(1)] inp_p I(2) [OF side] stream by (simp_all add: batches_small_def)
  have w: "\<forall>row \<in> set (got ?ns). length row = side_width fl fr ?ns" "\<forall>row \<in> set b. length row = side_width fl fr side"
    using len(2) [of ?ns] len(2) [of side] I(1) [OF ns(1)] inp_p by simp_all
  have invb: "side_inv J kf hf P ?ns (side_joiner ?ns ?s1) (got ?ns) (got side) (b @ stream_rows rest)"
    using I(3) [OF ns(1)] stream unfolding ns(2) by simp
  have invp: "side_inv J kf hf P side (side_joiner side ?s1) (got side) (got ?ns) (stream_rows (side_stream ?ns s))"
    using I(3) [OF side] by simp
  have buf: "inp ?ns = take (j_deleted_offset (side_joiner ?ns s)) (got ?ns) @ j_input_buffer (side_joiner ?ns s) @ stream_rows (side_stream ?ns s)"
    using I(1) [OF ns(1)] side_inv_buffer(2) [OF I(3) [OF ns(1)]] by simp
  have prune: "n \<le> length (j_input_buffer (side_joiner ?ns ?s1))
      \<and> (\<forall>b' \<in> set (take n (j_input_buffer (side_joiner ?ns ?s1))). \<forall>p \<in> set (stream_rows rest). \<not> cond P ?ns b' p)"
    if "so_prune_length J = Some prune" "prune x ?ns (j_input_buffer (side_joiner ?ns ?s1)) b = Inr (n, x')" for prune x n x'
    using pr [unfolded prune_ok_def, rule_format, OF that(1) ns(1) buf, of "got side" b "stream_rows rest" x n x'] inp_p ns(2) that(2) by simp
  have step: "sound (\<lambda>(r, s'). side_inv J kf hf P side (side_joiner side s') (got side @ b) (got ?ns) (stream_rows (side_stream ?ns s))
      \<and> side_inv J kf hf P ?ns (side_joiner ?ns s') (got ?ns) (got side @ b) (stream_rows rest) \<and> r \<noteq> Some []
      \<and> emitted J fl fr P side (got side @ b) (j_deleted_offset (side_joiner side s')) (got ?ns) (j_deleted_offset (side_joiner ?ns s'))
        = mset out + mset (rows_of r)) (perform_join_for_given_side J ?s1 b side)"
    using perform_join_spec [OF J P side invp invb small w prune] out by simp
  show ?thesis unfolding process_batch_def
  proof (rule sound_bind [OF step], clarify)
    fix ob s'
    assume run: "perform_join_for_given_side J ?s1 b side = Inr (ob, s')"
      and a: "side_inv J kf hf P side (side_joiner side s') (got side @ b) (got ?ns) (stream_rows (side_stream ?ns s))"
        "side_inv J kf hf P ?ns (side_joiner ?ns s') (got ?ns) (got side @ b) (stream_rows rest)" "ob \<noteq> Some []"
        "emitted J fl fr P side (got side @ b) (j_deleted_offset (side_joiner side s')) (got ?ns) (j_deleted_offset (side_joiner ?ns s')) = mset out + mset (rows_of ob)"
    have keeps: "side_stream x s' = side_stream x ?s1" "sh_state s' = st" "sh_transformer s' = sh_transformer s" for x
      using perform_join_keeps [OF run] by (simp_all add: side_stream_def)
    then have streams: "side_stream side s' = rest" "side_stream ?ns s' = side_stream ?ns s" using side by simp_all
    have "batches_small rest" using I(2) [OF side] stream by (simp add: batches_small_def)
    then have "received_inv J fl fr kf hf P inp (got(side := got side @ b)) s' (out @ rows_of ob)"
      using a(1,2,4) inp_p I(1,2) [OF ns(1)] ns(3) streams by (intro received_invI [OF side]) simp_all
    then show "sound (\<lambda>(r, s'). \<exists>ob. r = Is_Ready (if ob \<noteq> None then Ready_With ob else Continue) \<and> ob \<noteq> Some []
      \<and> received_inv J fl fr kf hf P inp (got(side := got side @ b)) s' (out @ rows_of ob)
      \<and> side_stream side s' = rest \<and> side_stream (negate side) s' = side_stream (negate side) s
      \<and> sh_state s' = st \<and> sh_transformer s' = sh_transformer s)
        (Inr (Is_Ready (if ob \<noteq> None then Ready_With ob else Continue), s'))"
      using a(3) keeps(2,3) streams by auto
  qed
qed

definition step_rows :: "'v stateful_result polling \<Rightarrow> 'v row list" where
  "step_rows r = (case r of Is_Ready (Ready_With ob) \<Rightarrow> rows_of ob | _ \<Rightarrow> [])"

lemma step_rows_simps [simp]:
  "step_rows Not_Ready = []" "step_rows (Is_Ready Continue) = []" "step_rows (Is_Ready (Ready_With ob)) = rows_of ob"
  by (simp_all add: step_rows_def)

lemma received_inv_skip:
  assumes side: "is_side side" and inv: "received_inv J fl fr kf hf P inp got s out"
    and rest: "stream_rows rest = stream_rows (side_stream side s)" "batches_small rest"
  shows "received_inv J fl fr kf hf P inp got (set_stream side rest s) out"
    "received_inv J fl fr kf hf P inp got ((set_stream side rest s)\<lparr>sh_state := st\<rparr>) out"
proof -
  have ns: "is_side (negate side)" "negate (negate side) = side" using side by auto
  have I: "inp x = got x @ stream_rows (side_stream x s)" "batches_small (side_stream x s)"
      "side_inv J kf hf P x (side_joiner x s) (got x) (got (negate x)) (stream_rows (side_stream (negate x) s))" if "is_side x" for x
    using inv that unfolding received_inv_def by blast+
  have out: "mset out = emitted J fl fr P side (got side) (j_deleted_offset (side_joiner side s)) (got (negate side)) (j_deleted_offset (side_joiner (negate side) s))"
    by (rule emitted_side [OF side, THEN iffD1]) (use inv in \<open>simp add: received_inv_def\<close>)
  show "received_inv J fl fr kf hf P inp got (set_stream side rest s) out"
    "received_inv J fl fr kf hf P inp got ((set_stream side rest s)\<lparr>sh_state := st\<rparr>) out"
    using I [OF side] I [OF ns(1)] out rest ns(2) by (auto intro!: received_invI [OF side] simp: side_stream_simps(1,2) [OF side])
qed

lemma fetch_spec:
  assumes J: "shj_ok J kf hf norm fp fl fr" and P: "P = join_condition J kf norm fp" and side: "is_side side"
    and inp: "inputs_ok fl fr inp" and pr: "prune_ok J P inp" and inv: "received_inv J fl fr kf hf P inp got s out"
  shows "sound (\<lambda>(r, s'). (\<exists>got'. received_inv J fl fr kf hf P inp got' s' (out @ step_rows r))
      \<and> r \<noteq> Is_Ready (Ready_With None) \<and> r \<noteq> Is_Ready (Ready_With (Some [])) \<and> sh_transformer s' = sh_transformer s
      \<and> side_stream (negate side) s' = side_stream (negate side) s
      \<and> (sh_state s' = at_end \<and> side_stream side s' = [] \<or> sh_state s' \<in> {after, sh_state s})) (fetch J side after at_end s)"
proof (cases "side_stream side s")
  case Nil
  then show ?thesis
    using received_inv_skip(2) [OF side inv, of "[]" at_end] by (auto simp: fetch_def batches_small_def side_stream_simps(1,2) [OF side])
next
  case (Cons p rest)
  have small: "batches_small (p # rest)" using inv side Cons unfolding received_inv_def by metis
  then have rest: "batches_small rest" by (simp add: batches_small_def)
  show ?thesis
  proof (cases p)
    case Input_Pending
    then show ?thesis
      using received_inv_skip(1) [OF side inv, of rest] rest Cons by (auto simp: fetch_def side_stream_simps(1,2) [OF side])
  next
    case (Input_Item item)
    show ?thesis
    proof (cases item)
      case (Inl e)
      then show ?thesis using Cons Input_Item by (simp add: fetch_def)
    next
      case (Inr b)
      have step: "sound (\<lambda>(r, s'). \<exists>ob. r = Is_Ready (if ob \<noteq> None then Ready_With ob else Continue) \<and> ob \<noteq> Some []
          \<and> received_inv J fl fr kf hf P inp (got(side := got side @ b)) s' (out @ rows_of ob)
          \<and> side_stream side s' = rest \<and> side_stream (negate side) s' = side_stream (negate side) s
          \<and> sh_state s' = after \<and> sh_transformer s' = sh_transformer s)
        (process_batch J ((set_stream side rest s)\<lparr>sh_state := after\<rparr>) b side)"
        using process_batch_spec [OF J P side inp pr inv, of b rest after] Cons Input_Item Inr by simp
      show ?thesis
      proof (cases "b = []")
        case True
        then show ?thesis
          using received_inv_skip(1) [OF side inv, of rest] rest Cons Input_Item Inr
          by (auto simp: fetch_def side_stream_simps(1,2) [OF side])
      next
        case False
        then have "fetch J side after at_end s = process_batch J ((set_stream side rest s)\<lparr>sh_state := after\<rparr>) b side"
          using Cons Input_Item Inr by (simp add: fetch_def)
        then show ?thesis
          using step by (auto elim!: sound_mono split: if_splits)
      qed
    qed
  qed
qed

section \<open>The end of the stream\<close>

definition join_result ::
  "('v, 'e, 'x) shj_ops \<Rightarrow> bool list \<Rightarrow> bool list \<Rightarrow> ('v row \<Rightarrow> 'v row \<Rightarrow> bool) \<Rightarrow> (join_side \<Rightarrow> 'v row list) \<Rightarrow> 'v row multiset" where
  "join_result J fl fr P inp =
     mset (join_rows (so_join_type J) P (\<lambda>ms. bo_mark (so_batch J) (ms \<noteq> [])) (length fl) (length fr) (inp Left_Side) (inp Right_Side))"

lemma finalization_spec:
  assumes J: "shj_ok J kf hf norm fp fl fr" and inp: "inputs_ok fl fr inp"
    and inv: "received_inv J fl fr kf hf P inp got s out" and empty: "sh_left_stream s = []" "sh_right_stream s = []"
  shows "sound (\<lambda>r. r \<noteq> Ready_With None \<and> r \<noteq> Ready_With (Some []) \<and> mset (out @ step_rows (Is_Ready r)) = join_result J fl fr P inp)
    (process_batches_before_finalization J s)"
proof -
  have got: "got Left_Side = inp Left_Side" "got Right_Side = inp Right_Side"
    and invl: "side_inv J kf hf P Left_Side (sh_left s) (inp Left_Side) (inp Right_Side) []"
    and invr: "side_inv J kf hf P Right_Side (sh_right s) (inp Right_Side) (inp Left_Side) []"
    and out: "mset out = emitted J fl fr P Left_Side (inp Left_Side) (j_deleted_offset (sh_left s)) (inp Right_Side) (j_deleted_offset (sh_right s))"
    using inv empty unfolding received_inv_def by (auto simp: side_stream_def side_joiner_def)
  have w: "\<forall>row \<in> set (inp side). length row = side_width fl fr side" for side using inp unfolding inputs_ok_def by blast
  have det: "sound (\<lambda>r. r \<noteq> Some [] \<and> rows_of r = settled_rows J fl fr P side (drop (j_deleted_offset j) (inp side)) (inp (negate side)))
      (build_side_determined_results J j (length (j_input_buffer j)))"
    if side: "is_side side" and inv: "side_inv J kf hf P side j (inp side) (inp (negate side)) []" for side j
  proof -
    note buf = side_inv_buffer [OF inv]
    have wb: "\<forall>row \<in> set (j_input_buffer j). length row = side_width fl fr side" using w buf(2) by (auto dest: in_set_dropD)
    show ?thesis
      using determined_spec [OF J side buf(3) wb order_refl side_inv_visited [OF inv _ order_refl]] buf(2) by simp
  qed
  have total: "mset (out @ settled_rows J fl fr P Left_Side (drop (j_deleted_offset (sh_left s)) (inp Left_Side)) (inp Right_Side)
        @ settled_rows J fl fr P Right_Side (drop (j_deleted_offset (sh_right s)) (inp Right_Side)) (inp Left_Side)) = join_result J fl fr P inp"
  proof -
    have split: "mset (settled_rows J fl fr P side (take d xs) ps) + mset (settled_rows J fl fr P side (drop d xs) ps)
        = mset (settled_rows J fl fr P side xs ps)" for side d xs ps
      by (metis append_take_drop_id mset_append settled_rows_append)
    show ?thesis
      unfolding join_result_def join_rows_settled mset_append out emitted_def negate.simps
        split [of Left_Side "j_deleted_offset (sh_left s)" "inp Left_Side" "inp Right_Side", symmetric]
        split [of Right_Side "j_deleted_offset (sh_right s)" "inp Right_Side" "inp Left_Side", symmetric] by (simp add: ac_simps)
  qed
  have l: "sound (\<lambda>r. r \<noteq> Some [] \<and> rows_of r = settled_rows J fl fr P Left_Side (drop (j_deleted_offset (sh_left s)) (inp Left_Side)) (inp Right_Side))
      (build_side_determined_results J (sh_left s) (length (j_input_buffer (sh_left s))))"
    and r: "sound (\<lambda>r. r \<noteq> Some [] \<and> rows_of r = settled_rows J fl fr P Right_Side (drop (j_deleted_offset (sh_right s)) (inp Right_Side)) (inp Left_Side))
      (build_side_determined_results J (sh_right s) (length (j_input_buffer (sh_right s))))"
    using det [of Left_Side "sh_left s"] det [of Right_Side "sh_right s"] invl invr by simp_all
  show ?thesis unfolding process_batches_before_finalization_def
    by (rule sound_bind [OF l], rule sound_bind [OF r], rule sound_bind [OF combine_spec]) (use total in auto)
qed

text \<open>
  A state of the stream together with the rows returned so far, of which those that the
  transformer still holds are not emitted yet.
\<close>

fun state_ok :: "('v, 'e, 'x) shj \<Rightarrow> bool" where
  "state_ok s =
     (case sh_state s of
        RightExhausted \<Rightarrow> sh_right_stream s = []
      | LeftExhausted \<Rightarrow> sh_left_stream s = []
      | BothExhausted _ \<Rightarrow> sh_left_stream s = [] \<and> sh_right_stream s = []
      | _ \<Rightarrow> True)"

declare state_ok.simps [simp del]

definition stream_inv ::
  "('v, 'e, 'x) shj_ops \<Rightarrow> bool list \<Rightarrow> bool list \<Rightarrow> (join_side \<Rightarrow> 'v row \<Rightarrow> 'v key) \<Rightarrow> ('v key \<Rightarrow> u64) \<Rightarrow> ('v row \<Rightarrow> 'v row \<Rightarrow> bool)
   \<Rightarrow> (join_side \<Rightarrow> 'v row list) \<Rightarrow> ('v, 'e, 'x) shj \<Rightarrow> 'v row list \<Rightarrow> bool" where
  "stream_inv J fl fr kf hf P inp s out \<longleftrightarrow>
     (if sh_state s = BothExhausted True then mset out = join_result J fl fr P inp
      else state_ok s \<and> (\<exists>got. received_inv J fl fr kf hf P inp got s out))"

lemma state_step_spec:
  fixes J :: "('v, 'e, 'x) shj_ops"
  assumes J: "shj_ok J kf hf norm fp fl fr" and P: "P = join_condition J kf norm fp"
    and inp: "inputs_ok fl fr inp" and pr: "prune_ok J P inp" and inv: "stream_inv J fl fr kf hf P inp s out"
  shows "sound (\<lambda>(r, s'). stream_inv J fl fr kf hf P inp s' (out @ step_rows r) \<and> sh_transformer s' = sh_transformer s
      \<and> r \<noteq> Is_Ready (Ready_With (Some [])) \<and> (r = Is_Ready (Ready_With None) \<longrightarrow> sh_state s' = BothExhausted True)) (state_step J s)"
proof (cases "sh_state s = BothExhausted True")
  case True
  then show ?thesis using inv by (simp add: state_step_def stream_inv_def)
next
  case False
  then obtain got where ok: "state_ok s" and got: "received_inv J fl fr kf hf P inp got s out" using inv by (auto simp: stream_inv_def)
  note fetched = fetch_spec [OF J P _ inp pr got]
  let ?Q = "\<lambda>(r, s'). stream_inv J fl fr kf hf P inp s' (out @ step_rows r) \<and> sh_transformer s' = sh_transformer s
      \<and> r \<noteq> Is_Ready (Ready_With (Some [])) \<and> (r = Is_Ready (Ready_With None) \<longrightarrow> sh_state s' = BothExhausted True)"
  have pull: "sound ?Q (fetch J side after at_end s)"
    if side: "is_side side" and after: "after \<noteq> BothExhausted True" "at_end \<noteq> BothExhausted True"
      and st: "\<And>s' :: ('v, 'e, 'x) shj. side_stream (negate side) s' = side_stream (negate side) s \<Longrightarrow>
        sh_state s' = at_end \<and> side_stream side s' = [] \<or> sh_state s' \<in> {after, sh_state s} \<Longrightarrow> state_ok s'" for side after at_end
  proof (rule sound_mono [OF fetched [OF side, of at_end after]], clarify)
    fix r s' got'
    assume a: "received_inv J fl fr kf hf P inp got' s' (out @ step_rows r)" "r \<noteq> Is_Ready (Ready_With None)"
      "r \<noteq> Is_Ready (Ready_With (Some []))" "sh_transformer s' = sh_transformer s" "side_stream (negate side) s' = side_stream (negate side) s"
      and next_state: "sh_state s' = at_end \<and> side_stream side s' = [] \<or> sh_state s' \<in> {after, sh_state s}"
    then have "state_ok s'" "sh_state s' \<noteq> BothExhausted True" using st [OF a(5)] after False by auto
    then show "stream_inv J fl fr kf hf P inp s' (out @ step_rows r) \<and> sh_transformer s' = sh_transformer s
      \<and> r \<noteq> Is_Ready (Ready_With (Some [])) \<and> (r = Is_Ready (Ready_With None) \<longrightarrow> sh_state s' = BothExhausted True)"
      using a by (auto simp: stream_inv_def)
  qed
  show ?thesis
  proof (cases "sh_state s")
    case PullRight
    have "sound ?Q (fetch J Right_Side PullLeft RightExhausted s)"
      by (rule pull) (use PullRight in \<open>auto simp: state_ok.simps side_stream_def\<close>)
    then show ?thesis using PullRight by (simp add: state_step_def fetch_eqs)
  next
    case PullLeft
    have "sound ?Q (fetch J Left_Side PullRight LeftExhausted s)"
      by (rule pull) (use PullLeft in \<open>auto simp: state_ok.simps side_stream_def\<close>)
    then show ?thesis using PullLeft by (simp add: state_step_def fetch_eqs)
  next
    case RightExhausted
    have "sound ?Q (fetch J Left_Side (sh_state s) (BothExhausted False) s)"
      by (rule pull) (use RightExhausted ok in \<open>auto simp: state_ok.simps side_stream_def\<close>)
    then show ?thesis using RightExhausted by (simp add: state_step_def fetch_eqs)
  next
    case LeftExhausted
    have "sound ?Q (fetch J Right_Side (sh_state s) (BothExhausted False) s)"
      by (rule pull) (use LeftExhausted ok in \<open>auto simp: state_ok.simps side_stream_def\<close>)
    then show ?thesis using LeftExhausted by (simp add: state_step_def fetch_eqs)
  next
    case (BothExhausted fin)
    then have fin: "fin = False" "sh_left_stream s = []" "sh_right_stream s = []" using False ok by (auto simp: state_ok.simps)
    have got1: "received_inv J fl fr kf hf P inp got (s\<lparr>sh_state := BothExhausted True\<rparr>) out"
      using got unfolding received_inv_def by simp
    have "sound ?Q (prepare_for_final_results_after_exhaustion J s)"
      unfolding prepare_for_final_results_after_exhaustion_def Let_def
      using fin(2,3) by (intro sound_bind [OF finalization_spec [OF J inp got1]]) (auto simp: stream_inv_def)
    then show ?thesis using BothExhausted fin(1) by (simp add: state_step_def)
  qed
qed

section \<open>Polling\<close>

text \<open>The rows a transformer holds, and the batch size it enforces.\<close>

fun queued :: "'v transformer \<Rightarrow> 'v row list" where
  "queued (Noop batch) = rows_of batch"
| "queued (Splitter None batch_size row_index) = []"
| "queued (Splitter (Some batch) batch_size row_index) = drop row_index batch"

fun batch_limit :: "'v transformer \<Rightarrow> nat option" where
  "batch_limit (Noop batch) = None"
| "batch_limit (Splitter batch batch_size row_index) = Some batch_size"

definition within :: "nat option \<Rightarrow> 'v row list \<Rightarrow> bool" where
  "within limit batch \<longleftrightarrow> batch \<noteq> [] \<and> (case limit of None \<Rightarrow> True | Some n \<Rightarrow> length batch \<le> n)"

fun transformer_ok :: "'v transformer \<Rightarrow> bool" where
  "transformer_ok (Noop batch) \<longleftrightarrow> batch \<noteq> Some []"
| "transformer_ok (Splitter None batch_size row_index) \<longleftrightarrow> 0 < batch_size"
| "transformer_ok (Splitter (Some batch) batch_size row_index) \<longleftrightarrow> 0 < batch_size \<and> row_index < length batch"

lemma transformer_next_spec:
  assumes "transformer_ok t"
  obtains (idle) t' where "transformer_next t = (None, t')" "queued t = []" "queued t' = []" "transformer_ok t'" "batch_limit t' = batch_limit t"
  | (emit) b last t' where "transformer_next t = (Some (b, last), t')" "queued t = b @ queued t'" "within (batch_limit t) b"
      "transformer_ok t'" "batch_limit t' = batch_limit t"
proof (cases t)
  case (Noop ob)
  then show ?thesis using assms that by (cases ob) (auto simp: within_def)
next
  case (Splitter ob n i)
  show ?thesis
  proof (cases ob)
    case None
    then show ?thesis using Splitter assms that(1) by auto
  next
    case (Some batch)
    define k where "k = min (length batch - i) n"
    have pos: "0 < n" "i < length batch" using assms Splitter Some by simp_all
    have split: "drop i batch = take k (drop i batch) @ drop (i + k) batch"
      by (metis add.commute append_take_drop_id drop_drop)
    have lim: "within (batch_limit t) (take k (drop i batch))" using pos Splitter by (auto simp: within_def k_def)
    have eq: "transformer_next t = (if length batch \<le> i + k then (Some (take k (drop i batch), True), Splitter None n (i + k))
        else (Some (take k (drop i batch), False), Splitter (Some batch) n (i + k)))"
      unfolding Splitter Some transformer_next.simps Let_def k_def ..
    have q: "queued t = drop i batch" "batch_limit t = Some n" using Splitter Some by simp_all
    show ?thesis
    proof (cases "length batch \<le> i + k")
      case True
      then show ?thesis
        using that(2) [of "take k (drop i batch)" True "Splitter None n (i + k)"] eq q split lim pos by simp
    next
      case False
      then show ?thesis
        using that(2) [of "take k (drop i batch)" False "Splitter (Some batch) n (i + k)"] eq q split lim pos by simp
    qed
  qed
qed

lemma set_batch_spec:
  "transformer_ok t \<Longrightarrow> b \<noteq> [] \<Longrightarrow> queued (set_batch t b) = b \<and> transformer_ok (set_batch t b) \<and> batch_limit (set_batch t b) = batch_limit t"
  by (cases t; cases "queued t") (auto elim: transformer_ok.elims)

lemma stream_parts_update [simp]:
  "side_stream side (s\<lparr>sh_transformer := t\<rparr>) = side_stream side s" "side_stream side (s\<lparr>sh_outer := x\<rparr>) = side_stream side s"
  "side_joiner side (s\<lparr>sh_transformer := t\<rparr>) = side_joiner side s" "side_joiner side (s\<lparr>sh_outer := x\<rparr>) = side_joiner side s"
  "state_ok (s\<lparr>sh_transformer := t\<rparr>) \<longleftrightarrow> state_ok s" "state_ok (s\<lparr>sh_outer := x\<rparr>) \<longleftrightarrow> state_ok s"
  by (simp_all add: side_stream_def side_joiner_def state_ok.simps split: shj_state.split)

lemma stream_inv_update [simp]:
  "stream_inv J fl fr kf hf P inp (s\<lparr>sh_transformer := t\<rparr>) out \<longleftrightarrow> stream_inv J fl fr kf hf P inp s out"
  "stream_inv J fl fr kf hf P inp (s\<lparr>sh_outer := x\<rparr>) out \<longleftrightarrow> stream_inv J fl fr kf hf P inp s out"
  by (simp_all add: stream_inv_def received_inv_def)

lemma steps_left_update [simp]: "steps_left (s\<lparr>sh_transformer := t\<rparr>) = steps_left s" "steps_left (s\<lparr>sh_outer := x\<rparr>) = steps_left s"
  by (simp_all add: steps_left_def)

text \<open>Every poll brings the stream closer to its end.\<close>

definition closer :: "(('v, 'e, 'x) shj \<times> ('v, 'e, 'x) shj) set" where
  "closer = measures [steps_left, \<lambda>s. length (queued (sh_transformer s))]"

lemma closer_iff: "(s', s) \<in> closer \<longleftrightarrow> steps_left s' < steps_left s
    \<or> steps_left s' = steps_left s \<and> length (queued (sh_transformer s')) < length (queued (sh_transformer s))"
  by (auto simp: closer_def)

definition poll_ok ::
  "('v, 'e, 'x) shj_ops \<Rightarrow> bool list \<Rightarrow> bool list \<Rightarrow> (join_side \<Rightarrow> 'v row \<Rightarrow> 'v key) \<Rightarrow> ('v key \<Rightarrow> u64) \<Rightarrow> ('v row \<Rightarrow> 'v row \<Rightarrow> bool)
   \<Rightarrow> (join_side \<Rightarrow> 'v row list) \<Rightarrow> nat option \<Rightarrow> ('v, 'e, 'x) shj \<Rightarrow> 'v row list \<Rightarrow> bool" where
  "poll_ok J fl fr kf hf P inp limit s out \<longleftrightarrow>
     stream_inv J fl fr kf hf P inp s (out @ queued (sh_transformer s)) \<and> transformer_ok (sh_transformer s)
     \<and> batch_limit (sh_transformer s) = limit"

lemma poll_spec:
  fixes J :: "('v, 'e, 'x) shj_ops"
  assumes J: "shj_ok J kf hf norm fp fl fr" and P: "P = join_condition J kf norm fp"
    and inp: "inputs_ok fl fr inp" and pr: "prune_ok J P inp"
  shows "poll_ok J fl fr kf hf P inp limit s out \<Longrightarrow> sound (\<lambda>(r, s'). case r of
      Out_Pending \<Rightarrow> poll_ok J fl fr kf hf P inp limit s' out \<and> (s', s) \<in> closer
    | Out_End \<Rightarrow> mset out = join_result J fl fr P inp
    | Out_Batch b \<Rightarrow> within limit b \<and> poll_ok J fl fr kf hf P inp limit s' (out @ b) \<and> (s', s) \<in> closer) (poll_next_impl J s)"
proof (induction "steps_left s" arbitrary: s rule: less_induct)
  case less
  let ?Q = "\<lambda>s :: ('v, 'e, 'x) shj. \<lambda>(r, s'). case r of
      Out_Pending \<Rightarrow> poll_ok J fl fr kf hf P inp limit s' out \<and> (s', s) \<in> closer
    | Out_End \<Rightarrow> mset out = join_result J fl fr P inp
    | Out_Batch b \<Rightarrow> within limit b \<and> poll_ok J fl fr kf hf P inp limit s' (out @ b) \<and> (s', s) \<in> closer"
  have t: "transformer_ok (sh_transformer s)" and lim: "batch_limit (sh_transformer s) = limit"
    and inv: "stream_inv J fl fr kf hf P inp s (out @ queued (sh_transformer s))"
    using less.prems by (simp_all add: poll_ok_def)
  have again: "sound (?Q s) (poll_next_impl J s')"
    if "steps_left s' < steps_left s" "poll_ok J fl fr kf hf P inp limit s' out" for s'
    by (rule sound_mono [OF less.hyps [OF that]]) (use that(1) in \<open>auto simp: closer_iff split: poll_out.splits\<close>)
  have reserve: "sound (\<lambda>s''. \<exists>y. s'' = s'\<lparr>sh_outer := y\<rparr>) (update_reservation J s')" for s'
    using update_reservation_spec [of s' J "sh_outer s'"] by simp
  from t show ?case
  proof (cases rule: transformer_next_spec)
    case (emit b last t')
    have "poll_next_impl J s = res_bind (update_reservation J (s\<lparr>sh_transformer := t'\<rparr>)) (\<lambda>s'. Inr (Out_Batch b, s'))"
      using emit(1) by (simp add: poll_next_impl.simps)
    then show ?thesis
      using emit inv lim by (auto intro!: sound_bind [OF reserve] simp: poll_ok_def closer_iff within_def)
  next
    case (idle t')
    let ?s = "s\<lparr>sh_transformer := t'\<rparr>"
    have inv1: "stream_inv J fl fr kf hf P inp ?s out" using inv idle(2) by simp
    show ?thesis
      unfolding poll_next_impl.simps [of J s] idle(1) prod.case option.case
    proof (rule sound_bind [OF state_step_spec [OF J P inp pr inv1]], clarify)
      fix r s1
      assume run: "state_step J ?s = Inr (r, s1)" and s1: "stream_inv J fl fr kf hf P inp s1 (out @ step_rows r)"
        "sh_transformer s1 = sh_transformer ?s" "r \<noteq> Is_Ready (Ready_With (Some []))" "r = Is_Ready (Ready_With None) \<longrightarrow> sh_state s1 = BothExhausted True"
      have dec: "r = Is_Ready (Ready_With None) \<or> steps_left s1 < steps_left s" using state_step_decreases [OF run] by simp
      have t1: "queued (sh_transformer s1) = []" "transformer_ok (sh_transformer s1)" "batch_limit (sh_transformer s1) = limit"
        using s1(2) idle(3-5) lim by simp_all
      show "sound (?Q s) (case r of Not_Ready \<Rightarrow> Inr (Out_Pending, s1) | Is_Ready Continue \<Rightarrow> poll_next_impl J s1
          | Is_Ready (Ready_With None) \<Rightarrow> Inr (Out_End, s1)
          | Is_Ready (Ready_With (Some batch)) \<Rightarrow>
              res_bind (update_reservation J (s1\<lparr>sh_transformer := set_batch (sh_transformer s1) batch\<rparr>)) (\<lambda>s2. poll_next_impl J s2))"
      proof (cases r)
        case Not_Ready
        then show ?thesis using s1 t1 dec by (simp add: poll_ok_def closer_iff)
      next
        case (Is_Ready res)
        show ?thesis
        proof (cases res)
          case Continue
          then show ?thesis using again [of s1] Is_Ready s1(1) t1 dec by (simp add: poll_ok_def)
        next
          case (Ready_With ob)
          show ?thesis
          proof (cases ob)
            case None
            then show ?thesis using Is_Ready Ready_With s1 by (simp add: stream_inv_def)
          next
            case (Some b)
            then have "b \<noteq> []" using Is_Ready Ready_With s1(3) by simp
            then have "sound (?Q s) (poll_next_impl J (s1\<lparr>sh_transformer := set_batch (sh_transformer s1) b, sh_outer := y\<rparr>))" for y
              using again [of "s1\<lparr>sh_transformer := set_batch (sh_transformer s1) b, sh_outer := y\<rparr>"] set_batch_spec [OF t1(2), of b]
                Is_Ready Ready_With Some s1(1) t1(3) dec by (simp add: poll_ok_def)
            then show ?thesis
              using Is_Ready Ready_With Some by (auto intro!: sound_bind [OF reserve])
          qed
        qed
      qed
    qed
  qed
qed

section \<open>The collected output\<close>

lemma collect_spec:
  fixes J :: "('v, 'e, 'x) shj_ops"
  assumes J: "shj_ok J kf hf norm fp fl fr" and P: "P = join_condition J kf norm fp"
    and inp: "inputs_ok fl fr inp" and pr: "prune_ok J P inp"
  shows "poll_ok J fl fr kf hf P inp limit s (concat out) \<Longrightarrow> \<exists>batches res. collect J s out = Some (out @ batches, res)
    \<and> list_all (within limit) batches
    \<and> (case res of None \<Rightarrow> mset (concat (out @ batches)) = join_result J fl fr P inp | Some e \<Rightarrow> \<exists>x. e = Join_Failed x)"
proof (induction s arbitrary: out rule: wf_induct_rule [OF wf_measures, of "[steps_left, \<lambda>s. length (queued (sh_transformer s))]"])
  case (1 s)
  note IH = "1.IH" [folded closer_def]
  have poll: "sound (\<lambda>(r, s'). case r of
      Out_Pending \<Rightarrow> poll_ok J fl fr kf hf P inp limit s' (concat out) \<and> (s', s) \<in> closer
    | Out_End \<Rightarrow> mset (concat out) = join_result J fl fr P inp
    | Out_Batch b \<Rightarrow> within limit b \<and> poll_ok J fl fr kf hf P inp limit s' (concat out @ b) \<and> (s', s) \<in> closer) (poll_next_impl J s)"
    by (rule poll_spec [OF J P inp pr "1.prems"])
  show ?case
  proof (cases "poll_next_impl J s")
    case (Inl e)
    then show ?thesis using poll by (subst collect.simps) (auto simp: sound_def)
  next
    case (Inr rs)
    obtain r s' where rs: "rs = (r, s')" by fastforce
    show ?thesis
    proof (cases r)
      case Out_Pending
      then have "(s', s) \<in> closer" "poll_ok J fl fr kf hf P inp limit s' (concat out)" using poll Inr rs by simp_all
      from IH [OF this] show ?thesis using Inr rs Out_Pending by (subst collect.simps) simp
    next
      case Out_End
      then show ?thesis using poll Inr rs by (subst collect.simps) auto
    next
      case (Out_Batch b)
      then have b: "(s', s) \<in> closer" "poll_ok J fl fr kf hf P inp limit s' (concat (out @ [b]))" "within limit b"
        using poll Inr rs by simp_all
      obtain batches res where r: "collect J s' (out @ [b]) = Some ((out @ [b]) @ batches, res)" "list_all (within limit) batches"
          "case res of None \<Rightarrow> mset (concat ((out @ [b]) @ batches)) = join_result J fl fr P inp | Some e \<Rightarrow> \<exists>x. e = Join_Failed x"
        using IH [OF b(1,2)] by blast
      show ?thesis
        by (intro exI [of _ "b # batches"] exI [of _ res], subst collect.simps) (use Inr rs Out_Batch r b(3) in \<open>simp split: option.splits\<close>)
    qed
  qed
qed

lemma poll_ok_new:
  assumes t: "queued t = []" "transformer_ok t" and small: "batches_small ls" "batches_small rs"
    and inp: "inp Left_Side = stream_rows ls" "inp Right_Side = stream_rows rs"
  shows "poll_ok J fl fr kf hf P inp (batch_limit t) (shj_new ls rs t x) []"
proof -
  have new: "side_inv J kf hf P side (joiner_new side) [] [] future" for side future
    using joiner_new_holds by (simp add: side_inv_def joiner_new_def)
  have "emitted J fl fr P Left_Side [] d [] d' = {#}" for d d' by (simp add: emitted_def pairs_of_def settled_rows_def)
  then have "received_inv J fl fr kf hf P inp (\<lambda>_. []) (shj_new ls rs t x) []"
    using new small inp by (auto simp: received_inv_def shj_new_def side_stream_def side_joiner_def)
  then show ?thesis
    using t by (auto simp: poll_ok_def stream_inv_def state_ok.simps shj_new_def)
qed

text \<open>The inputs by side.\<close>

definition by_side :: "'a \<Rightarrow> 'a \<Rightarrow> join_side \<Rightarrow> 'a" where
  "by_side l r side = (if side = Left_Side then l else r)"

lemma by_side_simps [simp]: "by_side l r Left_Side = l" "by_side l r Right_Side = r"
  by (simp_all add: by_side_def)

text \<open>The whole run of the stream, for the two properties of the join.\<close>

lemma symmetric_join_run:
  assumes "shj_ok J kf hf norm fp fl fr" and "prune_ok J (join_condition J kf norm fp) (by_side (stream_rows ls) (stream_rows rs))"
    and "inputs_ok fl fr (by_side (stream_rows ls) (stream_rows rs))" and "batches_small ls" and "batches_small rs"
    and "t = noop_new \<or> (\<exists>n > 0. t = splitter_new n)"
  shows "\<exists>batches res. collect J (shj_new ls rs t x) [] = Some (batches, res) \<and> list_all (within (batch_limit t)) batches
    \<and> (case res of
         Some e \<Rightarrow> \<exists>err. e = Join_Failed err
       | None \<Rightarrow> mset (concat batches) = mset (join_rows (so_join_type J) (join_condition J kf norm fp)
            (\<lambda>matches. bo_mark (so_batch J) (matches \<noteq> [])) (length fl) (length fr) (stream_rows ls) (stream_rows rs)))"
proof -
  have "queued t = []" "transformer_ok t" using assms(6) by (auto simp: noop_new_def splitter_new_def)
  then have "poll_ok J fl fr kf hf (join_condition J kf norm fp) (by_side (stream_rows ls) (stream_rows rs)) (batch_limit t) (shj_new ls rs t x) (concat [])"
    using assms(4,5) by (auto intro!: poll_ok_new)
  from collect_spec [OF assms(1) refl assms(3,2) this] show ?thesis
    unfolding append_Nil join_result_def by_side_simps .
qed

end
