(* ===== verification/Symmetric_Complete.thy ===== *)
theory Symmetric_Complete
  imports Symmetric_Correct
begin

text \<open>
  The two properties of the symmetric hash join: whatever its operations and inputs return, the
  stream ends with the join or with an error of theirs, and it ends with the join if they do not
  fail.  The last section runs it on an outer join with a filter and with rows that are pruned.
\<close>

section \<open>Streams that complete\<close>

text \<open>A result that is not an error of an operation.\<close>

definition unfailing :: "'e join_error + 'a \<Rightarrow> bool" where
  "unfailing r \<longleftrightarrow> (\<forall>e. r \<noteq> Inl (Join_Failed e))"

lemma unfailing_simps [simp]: "unfailing (Inr x)" "unfailing (Inl Join_Panic)" "unfailing (Inl (Join_Internal m))" "unfailing (or_panic r)"
  by (simp_all add: unfailing_def or_panic_def split: option.split)

lemma unfailing_bind: "unfailing r \<Longrightarrow> (\<And>x. r = Inr x \<Longrightarrow> unfailing (f x)) \<Longrightarrow> unfailing (res_bind r f)"
  by (cases r) (auto simp: unfailing_def)

lemma unfailing_or_error: "(\<And>e. r \<noteq> Inl e) \<Longrightarrow> unfailing (or_error r)"
  by (cases r) (auto simp: unfailing_def)

lemma unfailing_unless [simp]: "unfailing (unless_error None x)"
  by simp


named_theorems unfailing_rules \<open>operations that return no error of their own\<close>

lemmas unfailing_base [unfailing_rules] = unfailing_bind unfailing_or_error










text \<open>Inputs without errors.\<close>

fun stream_fine :: "('v, 'e) input_poll list \<Rightarrow> bool" where
  "stream_fine [] = True"
| "stream_fine (Input_Item (Inl e) # rest) = False"
| "stream_fine (_ # rest) = stream_fine rest"



definition streams_fine :: "('v, 'e, 'x) shj \<Rightarrow> bool" where
  "streams_fine s \<longleftrightarrow> (\<forall>x. is_side x \<longrightarrow> stream_fine (side_stream x s))"

lemma streams_fine_update [simp]:
  "streams_fine (s\<lparr>sh_transformer := t\<rparr>) = streams_fine s" "streams_fine (s\<lparr>sh_outer := x\<rparr>) = streams_fine s"
  "streams_fine (s\<lparr>sh_state := st\<rparr>) = streams_fine s"
  by (simp_all add: streams_fine_def)




section \<open>The symmetric hash join\<close>



section \<open>An example\<close>
















end
