(* ===== verification/Spec2Isabelle.thy ===== *)
theory Spec2Isabelle
  imports Memory_Limits Default_Cache Cursor_Stream Dependency_Soundness Distributor_Channels Symmetric_Complete
begin

text \<open>
  A verification library for the query engine DataFusion, the Rust sources under
  \<open>src/datafusion\<close>.  It models the parts of the engine that keep state or make promises of their
  own, as opposed to passing arrow arrays to kernels of other crates.

  \<^bold>\<open>The parts and how they interact.\<close>
  Every operator of a running query books its memory with a \<^emph>\<open>memory pool\<close>.  A sort ends in a
  \<^emph>\<open>sort-preserving merge\<close>: streams of cursors deliver the sorted inputs, a loser tree picks the
  smallest row, a builder assembles the output batches and books them.  A repartitioning hands
  batches to its outputs through \<^emph>\<open>distribution channels\<close> with a gate that bounds buffering.  The
  \<^emph>\<open>symmetric hash join\<close> joins two unbounded inputs with a hash map per side.  The planner reasons
  about keys and orderings with \<^emph>\<open>functional dependencies\<close>, and about joins with the predicates of
  the \<^emph>\<open>join types\<close>.  File metadata and listings are kept in a \<^emph>\<open>cache\<close> on top of an \<^emph>\<open>LRU queue\<close>.

  \<^bold>\<open>Conventions.\<close>
  Structs are records and enums datatypes with the names of the source.  A \<open>usize\<close>, \<open>u32\<close> or \<open>u64\<close>
  whose wrap-around is observable is a machine word; one that only indexes a vector is a natural
  number.  A panic (failed index, \<open>unwrap\<close>, \<open>expect\<close>, \<open>checked_sub().unwrap()\<close>) is \<open>None\<close> or an error
  value of its own (\<open>Panicked\<close>, \<open>Merge_Panic\<close>, \<open>Join_Panic\<close>), so that its absence is part of a
  theorem.  Traits, and functions of other crates, are records of functions; what the code relies
  on for them is a predicate (\<open>key_ops_ok\<close>, \<open>filter_ok\<close>, \<open>cursor_contract\<close>) which the witnesses
  instantiate.  Asynchronous inputs are the lists of what their polls return, pending polls
  included.  Values of a column are options, with \<open>None\<close> for NULL.

  \<^bold>\<open>Shared: \<open>Prelude\<close>.\<close>
  The machine types, \<open>Ordering\<close> with its combinators, checked and saturating arithmetic,
  bounds-checked vectors, and the contract \<open>total_cmp\<close> of a comparison function.

  \<^bold>\<open>Memory: \<open>Memory_Pool\<close>, \<open>Memory_Reservation\<close>, \<open>Memory_Limits\<close>\<close>
  (\<open>execution/src/memory_pool/pool.rs\<close>, \<open>mod.rs\<close>).  The pools (unbounded, greedy, fair, tracking) are
  implementations of one record of methods, and the locale \<open>memory_pool\<close> states the laws that the
  reservations rely on.  Reservations and reference-counted registrations live in an explicit store,
  with one operation per method and per \<open>Drop\<close>.  Shown for every sequence of operations: the pool
  reports exactly the bytes of the live reservations; the greedy pool is never oversubscribed by
  fallible requests; the counters of the fair and the tracking pool are exact; sibling reservations
  can exceed the fair pool.

  \<^bold>\<open>Caches: \<open>Lru_Queue\<close>, \<open>Default_Cache\<close>\<close>
  (\<open>execution/src/cache/lru_queue.rs\<close>, \<open>default_cache.rs\<close>).  The queue is a hash map and a doubly linked
  list in a heap of nodes; it refines a list in recency order (locale \<open>lru_contract\<close>), without a
  dangling pointer.  On top of it the cache accounts its bytes exactly, evicts the least recent
  entries only, and returns what was put until it expires.

  \<^bold>\<open>Sorting: \<open>Sort_Cursor\<close>, \<open>Tournament\<close>, \<open>Loser_Tree\<close>, \<open>Batch_Builder\<close>, \<open>Kmerge\<close>,
  \<open>Sort_Merge\<close>, \<open>Merge_Correct\<close>, \<open>Cursor_Stream\<close>\<close>
  (\<open>physical-plan/src/sorts/cursor.rs\<close>, \<open>merge.rs\<close>, \<open>builder.rs\<close>, \<open>stream.rs\<close>).  \<open>Sort_Cursor\<close> has the
  implementations of \<open>CursorValues\<close>, which meet the locale \<open>cursor_contract\<close>: comparing cursors is
  comparing rows.  \<open>Tournament\<close> is the combinatorics of the tree, \<open>Kmerge\<close> the specification of a
  merge.  \<open>Sort_Merge\<close> is the stream with its polling, errors and round-robin tie breaker.  Shown in
  \<open>Merge_Correct\<close>: the run ends, its output is sorted and complete up to \<open>fetch\<close>, stable without the
  tie breaker, and free of errors if inputs, pool and kernels are.  \<open>Cursor_Stream\<close> shows that the
  row streams deliver what the merge requires, that their buffers are booked exactly, and that
  the incremental sort yields the announced chunks.

  \<^bold>\<open>Planning: \<open>Join_Types\<close>, \<open>Functional_Dependencies\<close>, \<open>Dependency_Soundness\<close>\<close>
  (\<open>common/src/join_type.rs\<close>, \<open>functional_dependencies.rs\<close>, and their uses in \<open>expr\<close> and
  \<open>optimizer\<close>).  \<open>join_rows\<close> states what the documentation of each of the ten join types promises.
  Against it: the schema of a join is right about its rows, dependencies of projections and
  aggregations hold, and the rewrites of ORDER BY, GROUP BY and DISTINCT that rest on them keep the
  result where the dependencies are valid across NULLs; three theorems show that they do not
  otherwise.

  \<^bold>\<open>Channels: \<open>Distributor_Channels\<close>\<close>
  (\<open>physical-plan/src/repartition/distributor_channels.rs\<close>).  Every operation is a function on the
  state of all channels and the gate, and the atomic pieces of the racy ones are separate
  steps.  Shown by induction over reachable states: nothing panics, no wakeup is lost, a sender and a
  receiver of a live channel never wait for each other, and each channel delivers in order; one
  race of two drops leaves the counter of empty channels too high.

  \<^bold>\<open>Joins: \<open>Join_Chain\<close>, \<open>Join_Hash_Map\<close>, \<open>Join_Keys\<close>, \<open>Pruning_Map\<close>, \<open>Join_Batch\<close>,
  \<open>Symmetric_Join\<close>, \<open>Symmetric_Batch\<close>, \<open>Symmetric_Correct\<close>, \<open>Symmetric_Complete\<close>\<close>
  (\<open>physical-plan/src/joins/chain.rs\<close>, \<open>join_hash_map.rs\<close>, \<open>utils.rs\<close>, \<open>stream_join_utils.rs\<close>,
  \<open>symmetric_hash_join.rs\<close>).  \<open>Join_Hash_Map\<close> maps a hash to the chain of its rows, for both index
  widths; its chunked lookup meets the locale \<open>chunked_probe\<close>, by which draining the chunks gives the
  full lookup.  \<open>Join_Keys\<close> has the comparison of candidate pairs and the NULL semantics of keys,
  \<open>Join_Batch\<close> the schema, the filter and the output batches.  \<open>Pruning_Map\<close> is the map whose oldest
  rows can be removed, and one side of the symmetric join, which after any batches and prunings
  finds exactly the rows it still buffers.  \<open>Symmetric_Join\<close> is the stream, one definition per
  function of the source.  \<open>Symmetric_Batch\<close> shows what one batch does to both sides,
  \<open>Symmetric_Correct\<close> carries the invariant through polls, and \<open>Symmetric_Complete\<close> states the result:
  the output is a permutation of \<open>join_rows\<close>, for all join types, schedules and sound prunings, the
  stream never panics, and it completes if its operations do not fail.

  \<^bold>\<open>Loops, bounds and fuel.\<close>
  Loops are structural or have a termination proof; the runs of the merge and of the join, a lookup
  along a chain and the drain of a chunked lookup are partial functions in the option monad, and
  the theorems show that they return.  The walk along the linked list of the LRU queue is bounded by
  the number of map entries, which the invariant shows to be its length.  The theorems on the join
  assume fewer than \<open>2 ^ 64\<close> rows per side and fewer than \<open>2 ^ 32\<close> rows per batch, the widths of the
  indices in the source; the totals of the memory pools are exact modulo \<open>2 ^ 64\<close>, and without
  wrap-around where requests fit beside the pool size.

  \<^bold>\<open>Not modelled.\<close>
  Kernels of the arrow crates (take, filter, interleave, concat, row format, hashing, comparators) and
  the evaluation of expressions are parameters.  So are the interval analysis that decides how many
  rows the symmetric join may prune, of which only soundness is assumed, and the sizes it reports to
  its reservation.  Metrics, timers, logging, display, debug assertions and allocation sizes are left
  out.  Of the cursors, the implementation for string views is left out, which compares the packed
  representation of arrow.  Of \<open>joins/utils.rs\<close>, only what the symmetric join calls is modelled.  The
  other operators (hash, nested loop, sort-merge and piecewise joins, aggregation, windows,
  spilling), the SQL front end, the logical and physical optimizers apart from the checks above, the
  function libraries, data sources, catalogs, serialisation and tools are not modelled: they are
  asynchronous I/O, generated code, translations of large syntax trees, or calls of kernels whose
  semantics are not part of the repository.
\<close>

end
